(* ===== verification/Git_Prelude.thy ===== *)
theory Git_Prelude
  imports Main "HOL-Library.Word" "HOL-Library.Multiset"
begin

unbundle bit_operations_syntax

text \<open>
  Shared vocabulary of the development: the machine integer types of the C code, byte
  buffers, the interface of a self-delimiting byte codec, and the interface of a C
  comparison callback (\<open>int (*cmp)(const void *, const void *)\<close>).

  Conventions used by every theory.  A byte buffer is a list of bytes; a pointer into a
  buffer is either an index or, for code that only moves forward, the list of bytes still
  to be read.  A read past the end of a buffer is the value \<open>None\<close> of the operation that
  performs it.  Sizes and counts are \<open>nat\<close> unless the code depends on their width, in
  which case they are words.  Memory allocation is taken to succeed.
\<close>

section \<open>Machine integers and buffers\<close>

type_synonym byte = "8 word"
type_synonym u16 = "16 word"
type_synonym u32 = "32 word"
type_synonym u64 = "64 word"
type_synonym bytes = "byte list"

named_theorems git_simps \<open>equations the component proofs rewrite with\<close>
named_theorems word_nat \<open>transfer of word operations to natural numbers\<close>

lemma unat_byte_less [simp]: "unat (b :: byte) < 256"
  using unsigned_less [of b, where ?'a = nat] by simp

lemma unat_u32_less [simp]: "unat (w :: u32) < 4294967296"
  using unsigned_less [of w, where ?'a = nat] by simp

lemma unat_u64_less [simp]: "unat (w :: u64) < 18446744073709551616"
  using unsigned_less [of w, where ?'a = nat] by simp

lemma unat_drop_bit [word_nat]: "unat (drop_bit n w) = unat w div 2 ^ n"
  by (simp only: unat_drop_bit_eq drop_bit_eq_div [where ?'a = nat])

lemma unat_and_mask [word_nat]: "unat (w AND mask n) = unat w mod 2 ^ n"
  by (simp flip: take_bit_eq_mask add: unsigned_take_bit_eq take_bit_eq_mod [where ?'a = nat])

lemma unat_and_127 [word_nat]: "unat (w AND 127 :: 'a::len word) = unat w mod 128"
  using unat_and_mask [of w 7] by (simp add: mask_eq_exp_minus_1)

lemma bit_byte_7: "bit (b :: byte) 7 \<longleftrightarrow> 128 \<le> unat b"
proof -
  have "bit b 7 \<longleftrightarrow> odd (unat b div 128)"
    using bit_unsigned_iff [of b 7, where ?'a = nat] by (simp add: bit_iff_odd)
  moreover have "unat b div 128 < 2" by (simp add: div_less_iff_less_mult)
  then have "odd (unat b div 128) \<longleftrightarrow> unat b div 128 \<noteq> 0" by (auto simp: less_2_cases_iff)
  ultimately show ?thesis by (simp add: div_eq_0_iff not_less)
qed

lemma and_128_byte [word_nat]: "b AND 128 = (0 :: byte) \<longleftrightarrow> unat b < 128"
  using and_exp_eq_0_iff_not_bit [of b 7] by (auto simp: bit_byte_7)

lemma unat_or_128_byte [word_nat]: "n < 128 \<Longrightarrow> unat (128 OR of_nat n :: byte) = 128 + n"
proof -
  assume n: "n < 128"
  have "128 AND of_nat n = (0::byte)"
    using n and_128_byte [of "of_nat n"] by (simp add: and.commute unat_of_nat)
  then have "128 OR of_nat n = 128 + (of_nat n :: byte)"
    by (simp add: disjunctive_add_eq_or)
  with n show ?thesis by (simp add: unat_plus_if' unat_of_nat)
qed


lemma byte_eq_or_128: "unat c mod 128 = m \<Longrightarrow> 128 \<le> unat c \<Longrightarrow> 128 OR of_nat m = (c :: byte)"
proof -
  assume "unat c mod 128 = m" "128 \<le> unat c"
  moreover have "unat c - 128 < 128" using unat_byte_less [of c] by linarith
  ultimately have "unat c = 128 + m" and "m < 128" by (auto simp: le_mod_geq)
  with unat_or_128_byte [of m] show ?thesis by (simp add: word_unat_eq_iff)
qed

lemma bit_of_nat_u64: "bit (of_nat v :: u64) n \<longleftrightarrow> n < 64 \<and> bit v n"
  by (auto simp: bit_simps)

lemma bit_0x80: "bit (0x80 :: byte) n \<longleftrightarrow> n = 7"
  using bit_exp_iff [of 7 n, where ?'a = "8 word"] by auto

lemma bit_0x7f: "bit (0x7f :: u64) n \<longleftrightarrow> n < 7"
  using bit_mask_iff [of 7 n, where ?'a = "64 word"] by (auto simp: mask_eq_exp_minus_1)

lemma unat_minus_1_u64: "unat (- 1 :: u64) = 2 ^ 64 - 1"
  by (simp add: unsigned_minus_1_eq_mask mask_eq_exp_minus_1)

lemma unat_ucast_byte: "unat (ucast (b :: byte) :: u64) = unat b"
  by (simp add: unsigned_ucast_eq take_bit_nat_eq_self less_trans [OF unat_byte_less])

lemma ff_mask: "0xff = (mask 8 :: nat)"
  by (simp add: mask_eq_exp_minus_1)

section \<open>Abnormal ends\<close>

text \<open>
  \<open>Die\<close> is a call of \<open>die()\<close>, which ends the process; \<open>Bug\<close> is a call of \<open>BUG()\<close>;
  \<open>Undef\<close> marks behaviour the C standard leaves undefined, such as a read outside a buffer
  or a shift by the width of the type or more.
\<close>

datatype cfault = Die | Bug | Undef

section \<open>Self-delimiting codecs\<close>

text \<open>
  An encoder writes a value as bytes, a decoder reads one value from the front of a buffer
  and returns the bytes after it.  \<open>valid\<close> marks the values the format can carry.
\<close>

primrec dec_n :: "(bytes \<Rightarrow> ('a \<times> bytes) option) \<Rightarrow> nat \<Rightarrow> bytes \<Rightarrow> ('a list \<times> bytes) option" where
  "dec_n dec 0 bs = Some ([], bs)"
| "dec_n dec (Suc n) bs =
     (case dec bs of
        None \<Rightarrow> None
      | Some (x, bs') \<Rightarrow>
          (case dec_n dec n bs' of
             None \<Rightarrow> None
           | Some (xs, bs'') \<Rightarrow> Some (x # xs, bs'')))"

locale codec =
  fixes enc :: "'a \<Rightarrow> bytes"
    and dec :: "bytes \<Rightarrow> ('a \<times> bytes) option"
    and valid :: "'a \<Rightarrow> bool"
  assumes dec_enc: "valid x \<Longrightarrow> dec (enc x @ rest) = Some (x, rest)"
begin

lemma enc_prefix_free:
  assumes "valid x" and "valid y" and "enc x @ r = enc y @ s"
  shows "x = y \<and> r = s"
proof -
  from assms(1) have "dec (enc y @ s) = Some (x, r)"
    by (simp flip: assms(3) add: dec_enc)
  with dec_enc [OF assms(2)] show ?thesis by simp
qed

lemma enc_inject: "valid x \<Longrightarrow> valid y \<Longrightarrow> enc x = enc y \<longleftrightarrow> x = y"
  using enc_prefix_free [of x y "[]" "[]"] by auto

lemma dec_n_enc:
  "\<forall>x \<in> set xs. valid x \<Longrightarrow> dec_n dec (length xs) (concat (map enc xs) @ rest) = Some (xs, rest)"
  by (induction xs) (auto simp: dec_enc)

end

section \<open>Comparison callbacks\<close>

text \<open>
  The contract the sorting and searching code relies on: the sign of the result is
  antisymmetric, and the induced order is transitive.
\<close>

locale comparison =
  fixes cmp :: "'a \<Rightarrow> 'a \<Rightarrow> int"
  assumes cmp_sgn: "sgn (cmp x y) = - sgn (cmp y x)"
    and cmp_trans: "cmp x y \<le> 0 \<Longrightarrow> cmp y z \<le> 0 \<Longrightarrow> cmp x z \<le> 0"
begin

lemma cmp_refl [simp]: "cmp x x = 0"
  using cmp_sgn [of x x] by (simp add: sgn_if split: if_splits)

lemma cmp_pos_iff: "0 < cmp x y \<longleftrightarrow> cmp y x < 0"
  using cmp_sgn [of x y] by (auto simp: sgn_if split: if_splits)

lemma cmp_zero_sym: "cmp x y = 0 \<longleftrightarrow> cmp y x = 0"
  using cmp_sgn [of x y] by (auto simp: sgn_if split: if_splits)

lemma cmp_le_total: "cmp x y \<le> 0 \<or> cmp y x \<le> 0"
  using cmp_pos_iff [of x y] by linarith

lemma cmp_le_less_trans: "cmp x y \<le> 0 \<Longrightarrow> cmp y z < 0 \<Longrightarrow> cmp x z < 0"
  using cmp_trans [of z x y] cmp_pos_iff [of z y] cmp_pos_iff [of z x] cmp_zero_sym [of x z]
  by (smt (verit))

lemma cmp_less_le_trans: "cmp x y < 0 \<Longrightarrow> cmp y z \<le> 0 \<Longrightarrow> cmp x z < 0"
  using cmp_trans [of y z x] cmp_pos_iff [of y x] cmp_pos_iff [of z x] cmp_zero_sym [of x z]
  by (smt (verit))

lemma cmp_not_less: "\<not> cmp x y < 0 \<longleftrightarrow> cmp y x \<le> 0"
  using cmp_pos_iff [of y x] by linarith

lemma cmp_zero_trans: "cmp x y = 0 \<Longrightarrow> cmp y z = 0 \<Longrightarrow> cmp x z = 0"
  by (metis cmp_trans cmp_zero_sym cmp_pos_iff order_less_le order_refl not_less)

end

locale strict_comparison = comparison +
  assumes cmp_eq: "cmp x y = 0 \<Longrightarrow> x = y"
begin

lemma cmp_eq_iff [simp]: "cmp x y = 0 \<longleftrightarrow> x = y"
  using cmp_eq by auto

lemma cmp_antisym: "cmp x y \<le> 0 \<Longrightarrow> cmp y x \<le> 0 \<Longrightarrow> x = y"
  using cmp_pos_iff [of y x] cmp_eq [of x y] by fastforce

end

section \<open>Comparison of buffers and strings\<close>

text \<open>
  \<open>strcmp\<close> on NUL-terminated strings, given without the NUL, and \<open>memcmp\<close> on the first \<open>n\<close>
  bytes of two buffers.  Only the sign of the results is specified by C.
\<close>

fun strcmp :: "bytes \<Rightarrow> bytes \<Rightarrow> int" where
  "strcmp [] [] = 0"
| "strcmp [] (y # ys) = - 1"
| "strcmp (x # xs) [] = 1"
| "strcmp (x # xs) (y # ys) = (if x < y then - 1 else if y < x then 1 else strcmp xs ys)"

definition memcmp :: "bytes \<Rightarrow> bytes \<Rightarrow> nat \<Rightarrow> int" where
  "memcmp a b n = strcmp (take n a) (take n b)"

lemma strcmp_antisym: "strcmp x y = - strcmp y x"
  by (induction x y rule: strcmp.induct) auto

lemma strcmp_eq: "strcmp x y = 0 \<Longrightarrow> x = y"
  by (induction x y rule: strcmp.induct) (auto split: if_splits)

lemma strcmp_trans: "strcmp x y \<le> 0 \<Longrightarrow> strcmp y z \<le> 0 \<Longrightarrow> strcmp x z \<le> 0"
proof (induction x y arbitrary: z rule: strcmp.induct)
  case (2 y ys)
  then show ?case by (cases z) auto
next
  case (4 x xs y ys)
  then show ?case by (cases z) (auto split: if_splits)
qed auto

interpretation strcmp: strict_comparison strcmp
proof
  show "sgn (strcmp x y) = - sgn (strcmp y x)" for x y
    using strcmp_antisym [of x y] by (simp add: sgn_minus)
qed (auto intro: strcmp_trans strcmp_eq)

lemma memcmp_eq: "length a = n \<Longrightarrow> length b = n \<Longrightarrow> memcmp a b n = strcmp a b"
  by (simp add: memcmp_def)

lemma strcmp_append: "length a = length b \<Longrightarrow> strcmp (a @ x) (b @ y) = (if a = b then strcmp x y else strcmp a b)"
  by (induction a b rule: list_induct2) auto

end
