(* ===== verification/Varint.thy ===== *)
theory Varint
  imports Git_Prelude
begin

unbundle bit_operations_syntax

text \<open>
  \<open>varint.c\<close>: the variable-length integers of the index file, of the pack format's
  OFS_DELTA offsets and of the split index.  Each continuation byte carries seven bits and
  an implicit "plus one", which makes the encoding of a number unique.

  \<open>encode_varint\<close> fills a 16-byte scratch array from the end and copies the part it used;
  the model conses the bytes it writes, so \<open>varint + pos\<close> is the list itself.
  \<open>decode_varint\<close> advances the caller's pointer only on success: an overflow returns 0 and
  the pointer it was given.  Reading past the end of the buffer is \<open>None\<close>.
\<close>

section \<open>Encoding and decoding\<close>

definition MSB :: "u64 \<Rightarrow> nat \<Rightarrow> u64" where
  "MSB x bits = x AND push_bit (64 - bits) (NOT 0)"

fun decode_varint_loop :: "u64 \<Rightarrow> byte \<Rightarrow> bytes \<Rightarrow> (u64 \<times> bytes) option option" where
  "decode_varint_loop val c buf =
     (if c AND 128 \<noteq> 0 then
        (let val = val + 1 in
         if val = 0 \<or> MSB val 7 \<noteq> 0 then Some None
         else (case buf of
                 [] \<Rightarrow> None
               | c # buf \<Rightarrow> decode_varint_loop (push_bit 7 val + ucast (c AND 127)) c buf))
      else Some (Some (val, buf)))"

declare decode_varint_loop.simps [simp del]

definition decode_varint :: "bytes \<Rightarrow> (u64 \<times> bytes) option" where
  "decode_varint bufp =
     (case bufp of
        [] \<Rightarrow> None
      | c # buf \<Rightarrow>
          (case decode_varint_loop (ucast (c AND 127)) c buf of
             None \<Rightarrow> None
           | Some None \<Rightarrow> Some (0, bufp)
           | Some (Some (val, buf)) \<Rightarrow> Some (val, buf)))"

function encode_varint_loop :: "u64 \<Rightarrow> bytes \<Rightarrow> bytes" where
  "encode_varint_loop value varint =
     (let value = drop_bit 7 value in
      if value = 0 then varint
      else (let value = value - 1 in
            encode_varint_loop value ((128 OR ucast (value AND 127)) # varint)))"
  by pat_completeness auto
termination
proof (relation "measure (\<lambda>(value, varint). unat value)", goal_cases)
  case (2 v acc x xa)
  then show ?case
    by (simp add: unat_minus_one word_nat unat_gt_0 [symmetric]) 
qed simp

declare encode_varint_loop.simps [simp del]

definition encode_varint :: "u64 \<Rightarrow> bytes" where
  "encode_varint value = encode_varint_loop value [ucast (value AND 127)]"


section \<open>The encoding as a function of the number\<close>

lemma MSB_eq_0_iff: "MSB v n = 0 \<longleftrightarrow> unat v < 2 ^ (64 - n)"
proof -
  let ?k = "64 - n"
  have "MSB v n = push_bit ?k (drop_bit ?k v)"
    unfolding MSB_def by (rule bit_word_eqI) (auto simp: bit_simps)
  then have "unat (MSB v n) = (unat v div 2 ^ ?k * 2 ^ ?k) mod 2 ^ 64"
    by (simp add: unsigned_push_bit_eq take_bit_eq_mod [where ?'a = nat] push_bit_eq_mult [where ?'a = nat] word_nat)
  also have "\<dots> = unat v div 2 ^ ?k * 2 ^ ?k"
    by (rule mod_less) (use le_less_trans [OF div_times_less_eq_dividend unat_u64_less] in simp)
  finally have "unat (MSB v n) = unat v div 2 ^ ?k * 2 ^ ?k" .
  then have "MSB v n = 0 \<longleftrightarrow> unat v div 2 ^ ?k = 0"
    by (simp flip: unat_eq_0)
  then show ?thesis by (simp add: div_eq_0_iff)
qed

text \<open>The bytes before the last one: \<open>n\<close> is the number they and the last byte encode.\<close>

function varint_pre :: "nat \<Rightarrow> bytes" where
  "varint_pre n =
     (if n < 128 then []
      else varint_pre (n div 128 - 1) @ [128 OR of_nat ((n div 128 - 1) mod 128)])"
  by pat_completeness auto
termination by (relation "measure id") auto

declare varint_pre.simps [simp del]

lemma encode_varint_loop_eq: "encode_varint_loop v acc = varint_pre (unat v) @ acc"
proof (induction v acc rule: encode_varint_loop.induct)
  case (1 v acc)
  let ?w = "drop_bit 7 v"
  show ?case
  proof (cases "?w = 0")
    case True
    then have "unat v < 128" by (simp add: word_nat flip: unat_eq_0)
    with True show ?thesis by (simp add: encode_varint_loop.simps [of v] varint_pre.simps)
  next
    case False
    then have ge: "128 \<le> unat v" by (auto simp: word_nat simp flip: unat_eq_0)
    have w: "unat (?w - 1) = unat v div 128 - 1"
      using False by (simp add: unat_minus_one word_nat)
    have "(ucast ((?w - 1) AND 127) :: byte) = of_nat (unat ((?w - 1) AND 127))"
      by simp
    then have "(ucast ((?w - 1) AND 127) :: byte) = of_nat ((unat v div 128 - 1) mod 128)"
      by (simp only: word_nat w)
    then show ?thesis
      using "1.IH" [OF refl False refl] False ge
      by (simp add: encode_varint_loop.simps [of v] varint_pre.simps [of "unat v"] Let_def w)
  qed
qed

lemma decode_start_pre:
  assumes "n < 2 ^ 64" and "unat b mod 128 = n mod 128"
  shows "(case varint_pre n @ b # rest of [] \<Rightarrow> None
          | c # buf \<Rightarrow> decode_varint_loop (ucast (c AND 127)) c buf)
         = decode_varint_loop (of_nat n) b rest"
  using assms
proof (induction n arbitrary: b rest rule: varint_pre.induct)
  case (1 n)
  show ?case
  proof (cases "n < 128")
    case True
    have "(ucast (b AND 127) :: u64) = of_nat (unat (b AND 127))" by simp
    also have "\<dots> = of_nat n" using True "1.prems" by (simp only: word_nat) simp
    finally show ?thesis using True by (simp add: varint_pre.simps [of n])
  next
    case False
    let ?m = "n div 128 - 1"
    let ?b = "128 OR of_nat (?m mod 128) :: byte"
    have ub: "unat ?b = 128 + ?m mod 128" by (rule unat_or_128_byte) simp
    have m1: "of_nat ?m + (1 :: u64) = of_nat (n div 128)"
      using False by (metis Suc_diff_1 div_greater_zero_iff not_less of_nat_Suc add.commute zero_less_numeral)
    have lt: "n div 128 < 2 ^ 57" using "1.prems"(1) by (simp add: div_less_iff_less_mult)
    have u: "unat (of_nat (n div 128) :: u64) = n div 128"
      using lt by (simp add: unat_of_nat)
    have nz: "(of_nat (n div 128) :: u64) \<noteq> 0"
      using u False by (metis div_greater_zero_iff not_gr_zero not_less unat_0 zero_less_numeral)
    have "push_bit 7 (of_nat (n div 128) :: u64) + ucast (b AND 127) = of_nat (n div 128 * 128 + unat (b AND 127))"
      by (simp add: push_bit_eq_mult)
    also have "\<dots> = of_nat n" using "1.prems"(2) by (simp only: word_nat) simp
    finally have step: "push_bit 7 (of_nat (n div 128) :: u64) + ucast (b AND 127) = of_nat n" .
    have "decode_varint_loop (of_nat ?m) ?b (b # rest) = decode_varint_loop (of_nat n) b rest"
      using lt nz 
      by (subst decode_varint_loop.simps)
        (simp add: m1 [simplified] and_128_byte ub [simplified] MSB_eq_0_iff u step Let_def)
    moreover have "?m < 2 ^ 64" "unat ?b mod 128 = ?m mod 128" using "1.prems"(1) by (auto simp: ub [simplified])
    ultimately show ?thesis
      using "1.IH" [OF False, of ?b "b # rest"] False by (simp add: varint_pre.simps [of n])
  qed
qed

lemma decode_encode_varint: "decode_varint (encode_varint v @ rest) = Some (v, rest)"
proof -
  let ?b = "ucast (v AND 127) :: byte"
  have ub: "unat ?b = unat v mod 128"
  proof -
    have "unat ?b = unat (of_nat (unat (v AND 127)) :: byte)" by simp
    also have "\<dots> = unat v mod 128" by (simp only: word_nat unat_of_nat) simp
    finally show ?thesis .
  qed
  have "encode_varint v @ rest = varint_pre (unat v) @ ?b # rest"
    by (simp add: encode_varint_def encode_varint_loop_eq)
  moreover have "decode_varint_loop (of_nat (unat v)) ?b rest = Some (Some (v, rest))"
    by (subst decode_varint_loop.simps) (simp add: and_128_byte ub)
  ultimately show ?thesis
    using decode_start_pre [of "unat v" ?b rest] ub
    by (auto simp: decode_varint_def split: list.splits)
qed

lemma varint_pre_append:
  assumes "unat c mod 128 = n mod 128" and "128 \<le> unat c"
  shows "varint_pre ((n + 1) * 128 + d mod 128) = varint_pre n @ [c]"
proof -
  have "((n + 1) * 128 + d mod 128) div 128 = n + 1"
    by (simp only: div_mult_self3)
  moreover have "\<not> (n + 1) * 128 + d mod 128 < 128" by simp
  ultimately show ?thesis
    using byte_eq_or_128 [OF assms] by (subst varint_pre.simps) (simp only: if_False add_diff_cancel_right')
qed

lemma encode_varint_eq: "encode_varint v = varint_pre (unat v) @ [of_nat (unat v mod 128)]"
proof -
  have "(ucast (v AND 127) :: byte) = of_nat (unat (v AND 127))" by simp
  then show ?thesis by (simp only: encode_varint_def encode_varint_loop_eq word_nat)
qed

lemma byte_eq_of_nat: "unat c mod 128 = n mod 128 \<Longrightarrow> unat c < 128 \<Longrightarrow> c = (of_nat (n mod 128) :: byte)"
  by (simp add: word_unat_eq_iff unat_of_nat)

lemma decode_varint_loop_canonical:
  assumes "decode_varint_loop (of_nat n) c buf = Some (Some (v, rest))"
    and "n < 2 ^ 64" and "unat c mod 128 = n mod 128"
  shows "varint_pre n @ c # buf = encode_varint v @ rest"
  using assms
proof (induction buf arbitrary: n c)
  case Nil
  then have lt: "unat c < 128" and v: "v = of_nat n" "rest = []"
    by (auto simp: decode_varint_loop.simps [of "of_nat n"] and_128_byte Let_def split: if_splits)
  with Nil.prems byte_eq_of_nat [OF _ lt, of n] show ?case
    by (simp add: encode_varint_eq unat_of_nat)
next
  case (Cons d buf)
  show ?case 
  proof (cases "128 \<le> unat c")
    case True
    let ?w = "1 + of_nat n :: u64"
    let ?n = "(n + 1) * 128 + unat d mod 128"
    have w: "?w \<noteq> 0" "unat ?w < 2 ^ 57"
      and rec: "decode_varint_loop (push_bit 7 ?w + ucast (d AND 127)) d buf = Some (Some (v, rest))"
      using Cons.prems(1) True
      by (auto simp: decode_varint_loop.simps [of "of_nat n"] and_128_byte MSB_eq_0_iff Let_def
          add.commute split: if_splits)
    have n: "n + 1 < 144115188075855872"
      using w Cons.prems(2) by (simp add: unatSuc unat_of_nat)
    have "push_bit 7 ?w + ucast (d AND 127) = of_nat ((n + 1) * 128 + unat (d AND 127))"
      by (simp add: push_bit_eq_mult)
    then have "push_bit 7 ?w + ucast (d AND 127) = (of_nat ?n :: u64)"
      by (simp only: word_nat)
    with rec have rec': "decode_varint_loop (of_nat ?n) d buf = Some (Some (v, rest))"
      by (simp only:)
    have "unat d mod 128 < 128" by simp
    then have "?n < (n + 1 + 1) * 128" by (simp only: add_mult_distrib)
    also have "\<dots> \<le> 144115188075855872 * 128" using n by (intro mult_le_mono1) linarith
    finally have bound: "?n < 2 ^ 64" by simp
    have md: "unat d mod 128 = ?n mod 128" by (simp only: mod_mult_self3 mod_mod_trivial)
    have "varint_pre ?n @ d # buf = encode_varint v @ rest"
      by (rule Cons.IH [OF rec' bound md])
    then show ?thesis
      unfolding varint_pre_append [OF Cons.prems(3) True] by (simp only: append_assoc append_Cons append_Nil)
  next
    case False
    with Cons.prems have lt: "unat c < 128" and v: "v = of_nat n" "rest = d # buf"
      by (auto simp: decode_varint_loop.simps [of "of_nat n"] and_128_byte Let_def split: if_splits)
    with Cons.prems byte_eq_of_nat [OF _ lt, of n] show ?thesis
      by (simp add: encode_varint_eq unat_of_nat)
  qed
qed

lemma decode_varint_canonical:
  assumes "decode_varint bs = Some (v, rest)" and "rest \<noteq> bs"
  shows "bs = encode_varint v @ rest"
proof -
  obtain c buf where bs: "bs = c # buf"
    and run: "decode_varint_loop (ucast (c AND 127)) c buf = Some (Some (v, rest))"
    using assms by (auto simp: decode_varint_def split: list.splits option.splits)
  have "(ucast (c AND 127) :: u64) = of_nat (unat (c AND 127))" by simp
  then have "(ucast (c AND 127) :: u64) = of_nat (unat c mod 128)" by (simp only: word_nat)
  with run have run': "decode_varint_loop (of_nat (unat c mod 128)) c buf = Some (Some (v, rest))"
    by (simp only:)
  have "unat c mod 128 < 2 ^ 64" by (rule less_trans [of _ 128]) simp_all
  from decode_varint_loop_canonical [OF run' this]
  have "varint_pre (unat c mod 128) @ c # buf = encode_varint v @ rest" by simp
  moreover have "varint_pre (unat c mod 128) = []" by (simp add: varint_pre.simps)
  ultimately show ?thesis by (simp add: bs)
qed

lemma length_varint_pre: "n < 2 ^ (7 * Suc k) \<Longrightarrow> length (varint_pre n) \<le> k"
proof (induction k arbitrary: n)
  case 0
  then show ?case by (simp add: varint_pre.simps)
next
  case (Suc k)
  have "n div 128 < 2 ^ (7 * Suc k)" 
    using Suc.prems by (simp add: div_less_iff_less_mult power_add)
  then have "n div 128 - 1 < 2 ^ (7 * Suc k)" by simp
  from Suc.IH [OF this] show ?case by (simp add: varint_pre.simps [of n])
qed

lemma length_encode_varint: "length (encode_varint v) \<le> 10"
proof -
  have "unat v < 2 ^ (7 * Suc 9)" by (rule less_trans [OF unat_u64_less]) simp
  from length_varint_pre [OF this] show ?thesis
    by (simp add: encode_varint_def encode_varint_loop_eq)
qed

section \<open>The codec contract\<close>

interpretation varint: codec encode_varint decode_varint "\<lambda>_. True"
  by unfold_locales (rule decode_encode_varint)

section \<open>Properties\<close>

text \<open>
  C25: the decoder inverts the encoder on a stream: any number of 64-bit values written one
  after the other by \<open>encode_varint\<close> are read back in order by repeated \<open>decode_varint\<close>, which
  leaves exactly the bytes after them.
\<close>

theorem varint_stream_roundtrip:
  "dec_n decode_varint (length vs) (concat (map encode_varint vs) @ rest) = Some (vs, rest)"
  by (rule varint.dec_n_enc) simp

text \<open>
  the encoding is canonical.  Whenever \<open>decode_varint\<close> consumes input without reporting
  overflow, the consumed bytes are the encoding of the decoded value, so no value has a second
  representation, and they are at most ten bytes, less than the sixteen of the buffer that
  \<open>encode_varint\<close> fills.
\<close>

theorem varint_canonical:
  assumes "decode_varint bs = Some (v, rest)" and "rest \<noteq> bs"
  shows "bs = encode_varint v @ rest \<and> length (encode_varint v) \<le> 10"
  using decode_varint_canonical [OF assms] length_encode_varint by blast

theorem varint_canonical_witness:
  "decode_varint [0x80, 0x00, 7] = Some (128, [7]) \<and> [0x80, 0x00, 7] = encode_varint 128 @ [7]"
proof -
  have dec: "decode_varint [0x80, 0x00, 7] = Some (128, [7])" by code_simp
  from varint_canonical [OF dec] dec show ?thesis by simp
qed

end
