(* ===== verification/Delta_Format.thy ===== *)
theory Delta_Format
  imports Git_Prelude "HOL-Library.Monad_Syntax"
begin

unbundle bit_operations_syntax

text \<open>
  \<open>delta.h\<close>, \<open>patch-delta.c\<close> and the emitting half of \<open>diff-delta.c\<close>: the binary delta
  format of pack files.  A delta is two variable-length sizes followed by commands that copy
  a range of the source buffer or insert literal bytes.

  The pointer pair \<open>data\<close>/\<open>top\<close> of the interpreter is the list of bytes still to be read,
  and \<open>dst_buf\<close>/\<open>out\<close> is the list of bytes written so far.  Where the C code returns NULL the
  model says which check failed; \<open>Fault\<close> is a \<open>die()\<close> or undefined behaviour in the header
  reader.
\<close>

section \<open>Header sizes\<close>

definition st_left_shift :: "u64 \<Rightarrow> nat \<Rightarrow> cfault + u64" where
  "st_left_shift a shift =
     (if shift < 64 \<and> drop_bit shift (- 1) < a then Inl Die
      else if 64 \<le> shift then Inl Undef
      else Inr (push_bit shift a))"

fun get_delta_hdr_size_loop :: "u64 \<Rightarrow> nat \<Rightarrow> bytes \<Rightarrow> cfault + u64 \<times> bytes" where
  "get_delta_hdr_size_loop sz i [] = Inl Undef"
| "get_delta_hdr_size_loop sz i (cmd # data) =
     (case st_left_shift (ucast cmd AND 0x7f) i of
        Inl e \<Rightarrow> Inl e
      | Inr s \<Rightarrow>
          (let sz = sz OR s; i = i + 7 in
           if cmd AND 0x80 \<noteq> 0 \<and> data \<noteq> [] then get_delta_hdr_size_loop sz i data
           else Inr (sz, data)))"

definition get_delta_hdr_size :: "bytes \<Rightarrow> cfault + u64 \<times> bytes" where
  "get_delta_hdr_size datap = get_delta_hdr_size_loop 0 0 datap"

section \<open>Replaying a delta\<close>

datatype patch_error = Fault cfault | Too_short | Wrong_source | Bad_length | Bad_opcode

definition DELTA_SIZE_MIN :: nat where
  "DELTA_SIZE_MIN = 4"

definition parse_cp_param :: "byte \<Rightarrow> byte \<Rightarrow> nat \<Rightarrow> u64 \<times> bytes \<Rightarrow> (u64 \<times> bytes) option" where
  "parse_cp_param cmd b shift = (\<lambda>(var, data).
     if cmd AND b \<noteq> 0 then
       (case data of
          [] \<Rightarrow> None
        | c # data \<Rightarrow> Some (var OR ucast (push_bit shift (ucast c :: u32)), data))
     else Some (var, data))"

definition parse_copy :: "byte \<Rightarrow> bytes \<Rightarrow> (u64 \<times> u64 \<times> bytes) option" where
  "parse_copy cmd data = do {
     (cp_off, data) \<leftarrow> parse_cp_param cmd 0x01 0 (0, data);
     (cp_off, data) \<leftarrow> parse_cp_param cmd 0x02 8 (cp_off, data);
     (cp_off, data) \<leftarrow> parse_cp_param cmd 0x04 16 (cp_off, data);
     (cp_off, data) \<leftarrow> parse_cp_param cmd 0x08 24 (cp_off, data);
     (cp_size, data) \<leftarrow> parse_cp_param cmd 0x10 0 (0, data);
     (cp_size, data) \<leftarrow> parse_cp_param cmd 0x20 8 (cp_size, data);
     (cp_size, data) \<leftarrow> parse_cp_param cmd 0x40 16 (cp_size, data);
     Some (cp_off, if cp_size = 0 then 0x10000 else cp_size, data) }"

definition unsigned_add_overflows :: "u64 \<Rightarrow> u64 \<Rightarrow> bool" where
  "unsigned_add_overflows a b \<longleftrightarrow> - 1 - a < b"

lemma parse_cp_param_length:
  "parse_cp_param cmd b shift (v, data) = Some (v', data') \<Longrightarrow> length data' \<le> length data"
  by (auto simp: parse_cp_param_def split: if_splits list.splits)

lemma parse_copy_length: "parse_copy cmd data = Some (off, sz, data') \<Longrightarrow> length data' \<le> length data"
  by (auto simp: parse_copy_def bind_eq_Some_conv dest!: parse_cp_param_length)

function patch_delta_loop :: "bytes \<Rightarrow> u64 \<Rightarrow> bytes \<Rightarrow> bytes \<Rightarrow> patch_error + bytes" where
  "patch_delta_loop src_buf sz [] out = (if sz \<noteq> 0 then Inl Bad_length else Inr out)"
| "patch_delta_loop src_buf sz (cmd # data) out =
     (if cmd AND 0x80 \<noteq> 0 then
        (case parse_copy cmd data of
           None \<Rightarrow> Inl Bad_length
         | Some (cp_off, cp_size, data) \<Rightarrow>
             if unsigned_add_overflows cp_off cp_size \<or>
                length src_buf < unat (cp_off + cp_size) \<or>
                sz < cp_size
             then Inl Bad_length
             else patch_delta_loop src_buf (sz - cp_size) data
                    (out @ take (unat cp_size) (drop (unat cp_off) src_buf)))
      else if cmd \<noteq> 0 then
        (if sz < ucast cmd \<or> length data < unat cmd then Inl Bad_length
         else patch_delta_loop src_buf (sz - ucast cmd) (drop (unat cmd) data)
                (out @ take (unat cmd) data))
      else Inl Bad_opcode)"
  by pat_completeness auto
termination
  by (relation "measure (\<lambda>(src, sz, data, out). length data)")
    (auto dest!: parse_copy_length)

definition patch_delta :: "bytes \<Rightarrow> bytes \<Rightarrow> patch_error + bytes" where
  "patch_delta src_buf delta_buf =
     (if length delta_buf < DELTA_SIZE_MIN then Inl Too_short
      else case get_delta_hdr_size delta_buf of
        Inl e \<Rightarrow> Inl (Fault e)
      | Inr (sz, data) \<Rightarrow>
          if unat sz \<noteq> length src_buf then Inl Wrong_source
          else case get_delta_hdr_size data of
            Inl e \<Rightarrow> Inl (Fault e)
          | Inr (sz, data) \<Rightarrow> patch_delta_loop src_buf sz data [])"

section \<open>Emitting headers and copy commands\<close>

text \<open>
  The two size headers \<open>create_delta\<close> writes, and the bytes it writes for a copy command: the
  command byte \<open>*op\<close> followed by the offset and size bytes that are not zero.
\<close>

function put_hdr_size :: "nat \<Rightarrow> bytes" where
  "put_hdr_size l = (if 0x80 \<le> l then (of_nat l OR 0x80) # put_hdr_size (drop_bit 7 l) else [of_nat l])"
  by pat_completeness auto
termination by (relation "measure id") (auto simp: drop_bit_eq_div)

declare put_hdr_size.simps [simp del]

definition put_cp_param :: "nat \<Rightarrow> nat \<Rightarrow> byte \<Rightarrow> bytes \<times> byte \<Rightarrow> bytes \<times> byte" where
  "put_cp_param v shift b = (\<lambda>(out, i).
     if v AND push_bit shift 0xff \<noteq> 0 then (out @ [of_nat (drop_bit shift v)], i OR b)
     else (out, i))"

definition emit_copy :: "nat \<Rightarrow> nat \<Rightarrow> bytes" where
  "emit_copy moff msize =
     (let st = ([], 0x80);
          st = put_cp_param moff 0 0x01 st;
          st = put_cp_param moff 8 0x02 st;
          st = put_cp_param moff 16 0x04 st;
          st = put_cp_param moff 24 0x08 st;
          st = put_cp_param msize 0 0x10 st;
          st = put_cp_param msize 8 0x20 st
      in snd st # fst st)"

section \<open>The format as a sequence of operations\<close>

text \<open>
  The contract between \<open>create_delta\<close> and \<open>patch_delta\<close>: what the commands mean.  A valid
  operation is one the version-2 pack format can carry; \<open>in_bounds\<close> says that its copy stays
  inside the source buffer.
\<close>

datatype delta_op = Copy nat nat | Insert bytes

fun apply_op :: "bytes \<Rightarrow> delta_op \<Rightarrow> bytes" where
  "apply_op src (Copy off n) = take n (drop off src)"
| "apply_op src (Insert bs) = bs"

fun valid_op :: "bytes \<Rightarrow> delta_op \<Rightarrow> bool" where
  "valid_op src (Copy off n) \<longleftrightarrow> 0 < n \<and> n \<le> 0x10000 \<and> off + n \<le> length src \<and> off < 2 ^ 32"
| "valid_op src (Insert bs) \<longleftrightarrow> 0 < length bs \<and> length bs < 128"

fun enc_op :: "delta_op \<Rightarrow> bytes" where
  "enc_op (Copy off n) = emit_copy off n"
| "enc_op (Insert bs) = of_nat (length bs) # bs"

text \<open>
  What the bytes of a delta mean, independently of how they are parsed.  In a copy command bit
  \<open>k\<close> says whether byte \<open>k\<close> of the parameters follows; an absent byte is 0.  Four bytes make up the
  offset and three the size, least byte first, and size 0 stands for \<open>0x10000\<close>.  Any other
  command but 0, which is reserved, is the number of literal bytes that follow.
\<close>

fun read_var :: "byte \<Rightarrow> nat \<Rightarrow> nat \<Rightarrow> bytes \<Rightarrow> (nat \<times> bytes) option" where
  "read_var cmd k 0 data = Some (0, data)"
| "read_var cmd k (Suc m) data =
     (if bit cmd k then
        (case data of
           [] \<Rightarrow> None
         | b # data \<Rightarrow> map_option (\<lambda>(v, rest). (unat b + 256 * v, rest)) (read_var cmd (Suc k) m data))
      else map_option (\<lambda>(v, rest). (256 * v, rest)) (read_var cmd (Suc k) m data))"

definition read_copy :: "byte \<Rightarrow> bytes \<Rightarrow> (nat \<times> nat \<times> bytes) option" where
  "read_copy cmd data = do {
     (off, data) \<leftarrow> read_var cmd 0 4 data;
     (n, data) \<leftarrow> read_var cmd 4 3 data;
     Some (off, if n = 0 then 0x10000 else n, data) }"

lemma read_var_length: "read_var cmd k m data = Some (v, rest) \<Longrightarrow> length rest \<le> length data"
  by (induction m arbitrary: k data v) (fastforce split: if_splits list.splits)+

lemma read_copy_length: "read_copy cmd data = Some (off, n, rest) \<Longrightarrow> length rest \<le> length data"
  by (fastforce simp: read_copy_def bind_eq_Some_conv dest: read_var_length)

function delta_ops :: "bytes \<Rightarrow> delta_op list option" where
  "delta_ops [] = Some []"
| "delta_ops (cmd # data) =
     (if bit cmd 7 then
        (case read_copy cmd data of
           None \<Rightarrow> None
         | Some (off, n, rest) \<Rightarrow> map_option ((#) (Copy off n)) (delta_ops rest))
      else if cmd = 0 \<or> length data < unat cmd then None
      else map_option ((#) (Insert (take (unat cmd) data))) (delta_ops (drop (unat cmd) data)))"
  by pat_completeness auto
termination by (relation "measure length") (auto dest!: read_copy_length)

fun in_bounds :: "bytes \<Rightarrow> delta_op \<Rightarrow> bool" where
  "in_bounds src (Copy off n) \<longleftrightarrow> off + n \<le> length src"
| "in_bounds src (Insert bs) \<longleftrightarrow> True"

section \<open>Copy commands\<close>

definition nbyte :: "nat \<Rightarrow> nat \<Rightarrow> byte" where
  "nbyte k v = of_nat (drop_bit k v)"

lemma and_push_ff: "v AND push_bit k 0xff \<noteq> 0 \<longleftrightarrow> nbyte k v \<noteq> 0"
proof -
  have "v AND push_bit k 0xff = push_bit k (take_bit 8 (drop_bit k v))"
    unfolding ff_mask by (rule bit_eqI) (auto simp: bit_simps)
  moreover have "nbyte k v = 0 \<longleftrightarrow> take_bit 8 (drop_bit k v) = 0"
    unfolding nbyte_def by (simp only: word_unat_eq_iff unat_of_nat take_bit_eq_mod) simp
  ultimately show ?thesis by (simp only: push_bit_eq_mult) simp
qed

definition copy_cmd :: "bool \<Rightarrow> bool \<Rightarrow> bool \<Rightarrow> bool \<Rightarrow> bool \<Rightarrow> bool \<Rightarrow> byte" where
  "copy_cmd p0 p1 p2 p3 p4 p5 =
     (let i = 0x80; i = (if p0 then i OR 0x01 else i); i = (if p1 then i OR 0x02 else i);
          i = (if p2 then i OR 0x04 else i); i = (if p3 then i OR 0x08 else i);
          i = (if p4 then i OR 0x10 else i) in (if p5 then i OR 0x20 else i))"

lemma copy_cmd_bits:
  fixes p0 p1 p2 p3 p4 p5 defines "c \<equiv> copy_cmd p0 p1 p2 p3 p4 p5"
  shows "c AND 0x80 \<noteq> 0" "c AND 0x01 \<noteq> 0 \<longleftrightarrow> p0" "c AND 0x02 \<noteq> 0 \<longleftrightarrow> p1" "c AND 0x04 \<noteq> 0 \<longleftrightarrow> p2"
    "c AND 0x08 \<noteq> 0 \<longleftrightarrow> p3" "c AND 0x10 \<noteq> 0 \<longleftrightarrow> p4" "c AND 0x20 \<noteq> 0 \<longleftrightarrow> p5" "c AND 0x40 = 0"
  unfolding c_def copy_cmd_def Let_def
  by (cases p0; cases p1; cases p2; cases p3; cases p4; cases p5; simp)+

definition opt_byte :: "byte \<Rightarrow> bytes" where
  "opt_byte b = (if b \<noteq> 0 then [b] else [])"

lemma bit_nbyte: "bit (nbyte k v) n \<longleftrightarrow> n < 8 \<and> bit v (k + n)"
  by (auto simp: nbyte_def bit_simps)

lemma or_byte:
  assumes "k \<le> 24" and "w = (of_nat v :: u64)"
  shows "take_bit k w OR ucast (push_bit k (ucast (nbyte k v) :: u32)) = take_bit (k + 8) w"
proof (rule bit_word_eqI)
  fix n assume "n < LENGTH(64)"
  with assms(1) show "bit (take_bit k w OR ucast (push_bit k (ucast (nbyte k v) :: u32))) n = bit (take_bit (k + 8) w) n"
    by (cases "n < k") (auto simp: assms(2) bit_or_iff bit_take_bit_iff bit_ucast_iff bit_push_bit_iff bit_nbyte bit_of_nat_u64)
qed

lemma take_bit_zero_byte:
  assumes "nbyte k v = 0" and "w = (of_nat v :: u64)"
  shows "take_bit (k + 8) w = take_bit k w"
proof (rule bit_word_eqI)
  fix n
  have "\<not> (n - k < 8 \<and> bit v (k + (n - k)))"
    using bit_nbyte [of k v "n - k"] assms(1) by simp
  then show "bit (take_bit (k + 8) w) n = bit (take_bit k w) n"
    by (cases "n < k") (auto simp: bit_take_bit_iff assms(2) bit_of_nat_u64)
qed

lemma parse_cp_param_opt_byte:
  assumes "cmd AND b \<noteq> 0 \<longleftrightarrow> nbyte k v \<noteq> 0" and "k \<le> 24"
  shows "parse_cp_param cmd b k (take_bit k (of_nat v), opt_byte (nbyte k v) @ rest)
         = Some (take_bit (k + 8) (of_nat v), rest)"
  using assms(1) or_byte [OF assms(2) refl, of v] take_bit_zero_byte [OF _ refl, of k v]
  by (auto simp: parse_cp_param_def opt_byte_def)

lemma emit_copy_eq:
  "emit_copy moff msize =
     copy_cmd (nbyte 0 moff \<noteq> 0) (nbyte 8 moff \<noteq> 0) (nbyte 16 moff \<noteq> 0) (nbyte 24 moff \<noteq> 0)
       (nbyte 0 msize \<noteq> 0) (nbyte 8 msize \<noteq> 0)
     # opt_byte (nbyte 0 moff) @ opt_byte (nbyte 8 moff) @ opt_byte (nbyte 16 moff)
       @ opt_byte (nbyte 24 moff) @ opt_byte (nbyte 0 msize) @ opt_byte (nbyte 8 msize)"
proof -
  have put: "put_cp_param v k b (out, i) = (out @ opt_byte (nbyte k v), if nbyte k v \<noteq> 0 then i OR b else i)"
    for v k b out i
    using and_push_ff [of v k] by (simp add: put_cp_param_def opt_byte_def nbyte_def)
  show ?thesis
    unfolding emit_copy_def Let_def put copy_cmd_def by (simp only: fst_conv snd_conv append_assoc append_Nil)
qed

lemma parse_copy_emit:
  assumes "moff < 2 ^ 32" and "0 < msize" and "msize \<le> 0x10000"
  shows "\<exists>cmd data. emit_copy moff msize = cmd # data \<and> cmd AND 0x80 \<noteq> 0 \<and>
           parse_copy cmd (data @ rest) = Some (of_nat moff, of_nat msize, rest)"
proof -
  let ?cmd = "copy_cmd (nbyte 0 moff \<noteq> 0) (nbyte 8 moff \<noteq> 0) (nbyte 16 moff \<noteq> 0) (nbyte 24 moff \<noteq> 0)
       (nbyte 0 msize \<noteq> 0) (nbyte 8 msize \<noteq> 0)"
  note P = parse_cp_param_opt_byte [of ?cmd]
  have z: "(0 :: u64, x) = (take_bit 0 (of_nat v), x)" for v :: nat and x :: bytes by simp
  have off: "take_bit 32 (of_nat moff :: u64) = of_nat moff"
    using assms(1) by (simp add: word_unat_eq_iff unsigned_take_bit_eq take_bit_nat_eq_self unat_of_nat)
  have sz: "(if take_bit 16 (of_nat msize :: u64) = 0 then 0x10000 else take_bit 16 (of_nat msize)) = (of_nat msize :: u64)"
    using assms(2,3)
    by (cases "msize = 0x10000")
      (auto simp: word_unat_eq_iff unsigned_take_bit_eq take_bit_eq_mod [where ?'a = nat] unat_of_nat)
  have "parse_copy ?cmd ((opt_byte (nbyte 0 moff) @ opt_byte (nbyte 8 moff) @ opt_byte (nbyte 16 moff)
       @ opt_byte (nbyte 24 moff) @ opt_byte (nbyte 0 msize) @ opt_byte (nbyte 8 msize)) @ rest)
       = Some (of_nat moff, of_nat msize, rest)"
    using P [of "0x01" 0 moff] P [of "0x02" 8 moff] P [of "0x04" 16 moff] P [of "0x08" 24 moff]
      P [of "0x10" 0 msize] P [of "0x20" 8 msize] sz
    by (simp add: parse_copy_def copy_cmd_bits off parse_cp_param_def [of _ "0x40"])
  then show ?thesis
    unfolding emit_copy_eq using copy_cmd_bits(1) by blast
qed


section \<open>Headers\<close>

lemma byte_of_nat_or_80:
  "(of_nat l OR 0x80 :: byte) AND 0x80 \<noteq> 0" "ucast (of_nat l OR 0x80 :: byte) AND 0x7f = (of_nat (l mod 128) :: u64)"
proof -
  have "bit ((of_nat l OR 0x80 :: byte) AND 0x80) 7"
    by (simp only: bit_and_iff bit_or_iff bit_0x80) simp
  then show "(of_nat l OR 0x80 :: byte) AND 0x80 \<noteq> 0" by (metis bit_0_eq bot_apply bot_bool_def)
  have "l mod 128 = take_bit 7 l" by (simp add: take_bit_eq_mod)
  then show "ucast (of_nat l OR 0x80 :: byte) AND 0x7f = (of_nat (l mod 128) :: u64)"
    by (simp only:) (rule bit_word_eqI, auto simp only: bit_simps bit_0x80 bit_0x7f, auto)
qed

lemma byte_of_nat_small:
  assumes "l < 128"
  shows "(of_nat l :: byte) AND 0x80 = 0" "ucast (of_nat l :: byte) AND 0x7f = (of_nat l :: u64)"
proof -
  show "(of_nat l :: byte) AND 0x80 = 0" using assms by (simp add: and_128_byte unat_of_nat)
  show "ucast (of_nat l :: byte) AND 0x7f = (of_nat l :: u64)"
    using assms by (simp add: word_unat_eq_iff unat_and_127 unat_of_nat unsigned_ucast_eq take_bit_eq_mod [where ?'a = nat])
qed

lemma st_left_shift_ok:
  assumes "i < 64" and "l * 2 ^ i < 2 ^ 64"
  shows "st_left_shift (of_nat l) i = Inr (push_bit i (of_nat l))"
proof -
  have "l < 2 ^ (64 - i)"
  proof -
    have "l * 2 ^ i < 2 ^ (64 - i) * 2 ^ i" using assms by (simp flip: power_add)
    then show ?thesis by (simp only: mult_less_cancel2)
  qed
  moreover have "unat (drop_bit i (- 1 :: u64)) = 2 ^ (64 - i) - 1"
  proof -
    have "unat (- 1 :: u64) = mask 64" by (simp add: unsigned_minus_1_eq_mask)
    then show ?thesis by (simp only: unat_drop_bit_eq drop_bit_mask_eq) (simp add: mask_eq_exp_minus_1)
  qed
  moreover have "l < 2 ^ 64" using assms(2) by (metis le_less_trans mult.right_neutral mult_le_mono2 one_le_power one_le_numeral)
  ultimately have "\<not> drop_bit i (- 1 :: u64) < of_nat l"
    by (simp add: word_less_nat_alt unat_of_nat)
  with assms(1) show ?thesis by (simp add: st_left_shift_def)
qed

lemma or_push_split:
  "(sz OR push_bit i (of_nat (l mod 128))) OR push_bit (i + 7) (of_nat (drop_bit 7 l)) = (sz OR push_bit i (of_nat l) :: u64)"
proof (rule bit_word_eqI)
  fix n
  have "l mod 128 = take_bit 7 l" by (simp add: take_bit_eq_mod)
  then show "bit ((sz OR push_bit i (of_nat (l mod 128))) OR push_bit (i + 7) (of_nat (drop_bit 7 l))) n = 
    bit (sz OR push_bit i (of_nat l) :: u64) n"
    by (cases "n - i < 7")
      (auto simp only: bit_or_iff bit_push_bit_iff bit_of_nat_u64 bit_take_bit_iff bit_drop_bit_eq comp_apply, auto)
qed

lemma get_put_hdr_size_loop:
  assumes "l * 2 ^ i < 2 ^ 64" and "i < 64"
  shows "get_delta_hdr_size_loop sz i (put_hdr_size l @ rest) = Inr (sz OR push_bit i (of_nat l), rest)"
  using assms
proof (induction l arbitrary: i sz rule: put_hdr_size.induct)
  case (1 l)
  show ?case
  proof (cases "0x80 \<le> l")
    case True
    have le: "l mod 128 * 2 ^ i < 2 ^ 64" 
      using "1.prems"(1) by (meson le_less_trans mod_less_eq_dividend mult_le_mono1)
    have "drop_bit 7 l * 2 ^ (i + 7) \<le> l * 2 ^ i"
      by (simp add: drop_bit_eq_div power_add)
    with "1.prems"(1) have dl: "drop_bit 7 l * 2 ^ (i + 7) < 2 ^ 64" by linarith
    have "1 \<le> drop_bit 7 l" using True by (simp add: drop_bit_eq_div)
    with dl have "(2::nat) ^ (i + 7) < 2 ^ 64" by (metis le_less_trans mult.left_neutral mult_le_mono1)
    then have i7: "i + 7 < 64" by (simp only: power_strict_increasing_iff)
    have ne: "put_hdr_size (drop_bit 7 l) @ rest \<noteq> []" by (subst put_hdr_size.simps) simp
    show ?thesis
      using True "1.IH" [OF True dl i7] ne
      by (subst put_hdr_size.simps) (simp add: byte_of_nat_or_80 st_left_shift_ok [OF "1.prems"(2) le] or_push_split)
  next
    case False
    then show ?thesis using "1.prems"
      by (subst put_hdr_size.simps) (simp add: byte_of_nat_small st_left_shift_ok)
  qed
qed

lemma get_put_hdr_size: "l < 2 ^ 64 \<Longrightarrow> get_delta_hdr_size (put_hdr_size l @ rest) = Inr (of_nat l, rest)"
  unfolding get_delta_hdr_size_def using get_put_hdr_size_loop [of l 0 0 rest] by simp

section \<open>Replay\<close>

lemma length_apply_op: "valid_op src op \<Longrightarrow> length (apply_op src op) = (case op of Copy off n \<Rightarrow> n | Insert bs \<Rightarrow> length bs)"
  by (cases op) auto

lemma patch_delta_loop_op:
  assumes "valid_op src op" and "length src < 2 ^ 64" and "length (apply_op src op) \<le> unat sz"
  shows "patch_delta_loop src sz (enc_op op @ rest) out
         = patch_delta_loop src (sz - of_nat (length (apply_op src op))) rest (out @ apply_op src op)"
proof (cases op)
  case (Copy off n)
  with assms have n: "0 < n" "n \<le> 0x10000" "off + n \<le> length src" "off < 2 ^ 32" "n \<le> unat sz"
    by auto
  from parse_copy_emit [OF n(4,1,2), of rest] obtain cmd data where
    e: "emit_copy off n = cmd # data" "cmd AND 0x80 \<noteq> 0"
    "parse_copy cmd (data @ rest) = Some (of_nat off, of_nat n, rest)" by blast
  have u: "unat (of_nat off :: u64) = off" "unat (of_nat n :: u64) = n"
    using n by (simp_all add: unat_of_nat)
  have ov: "\<not> unsigned_add_overflows (of_nat off) (of_nat n)"
    using n assms(2) u by (auto simp: unsigned_add_overflows_def word_less_nat_alt unat_sub_if' unat_minus_1_u64)
  have "unat (of_nat off + of_nat n :: u64) = off + n"
    using n assms(2) by (simp add: unat_of_nat flip: of_nat_add)
  moreover have "\<not> sz < of_nat n" using n by (simp add: word_less_nat_alt u)
  moreover have "min (length src - off) n = n" using n by simp
  ultimately show ?thesis
    using n e ov u by (simp add: Copy)
next
  case (Insert bs)
  with assms have l: "0 < length bs" "length bs < 128" "length bs \<le> unat sz" by auto
  have u: "unat (of_nat (length bs) :: byte) = length bs" using l by (simp add: unat_of_nat)
  have c: "(of_nat (length bs) :: byte) AND 0x80 = 0" by (rule byte_of_nat_small) (rule l)
  have uc: "(ucast (of_nat (length bs) :: byte) :: u64) = of_nat (length bs)"
    using u by (metis of_nat_unat)
  have nz: "(of_nat (length bs) :: byte) \<noteq> 0" using u l by (metis unat_0 less_irrefl)
  have "\<not> sz < of_nat (length bs)" using l by (simp add: word_less_nat_alt unat_of_nat)
  with l u c uc nz show ?thesis by (simp add: Insert)
qed

lemma patch_delta_loop_ops:
  assumes "\<forall>op \<in> set ops. valid_op src op" and "length src < 2 ^ 64"
    and "unat sz = length (concat (map (apply_op src) ops))"
  shows "patch_delta_loop src sz (concat (map enc_op ops)) out = Inr (out @ concat (map (apply_op src) ops))"
  using assms
proof (induction ops arbitrary: sz out)
  case Nil
  then show ?case by (simp add: unat_eq_0)
next
  case (Cons op ops)
  let ?n = "length (apply_op src op)"
  from Cons.prems have le: "?n \<le> unat sz" by simp
  have "unat (sz - of_nat ?n) = unat sz - ?n"
    using le le_less_trans [OF le unat_u64_less]
    by (subst unat_sub) (auto simp: word_le_nat_alt unat_of_nat)
  with Cons.prems have "unat (sz - of_nat ?n) = length (concat (map (apply_op src) ops))" by simp
  from Cons.IH [OF _ assms(2) this] Cons.prems show ?case
    using patch_delta_loop_op [OF _ assms(2) le] by simp
qed

lemma unat_add_no_overflow: "\<not> unsigned_add_overflows a b \<Longrightarrow> unat (a + b) = unat a + unat b"
proof -
  assume "\<not> unsigned_add_overflows a b"
  then have "unat b \<le> unat (- 1 - a)" by (simp add: unsigned_add_overflows_def word_less_nat_alt)
  moreover have "unat (- 1 - a) = 2 ^ 64 - 1 - unat a" 
    using unat_u64_less [of a] by (simp add: unat_sub_if' unat_minus_1_u64 del: unat_u64_less)
  ultimately show ?thesis
    using unat_u64_less [of a] by (intro unat_add_lem [THEN iffD1]) (simp del: unat_u64_less)
qed

text \<open>The parser reads the parameters of a copy command as the format describes them.\<close>

lemma or_next_byte:
  assumes "v < 2 ^ k" and "k \<le> 24"
  shows "of_nat v OR ucast (push_bit k (ucast (c :: byte) :: u32)) = (of_nat (v + unat c * 2 ^ k) :: u64)"
proof -
  have "ucast (push_bit k (ucast c :: u32)) = (push_bit k (ucast c) :: u64)"
    using assms(2) by (intro bit_word_eqI) (auto simp: bit_simps dest: bit_imp_le_length)
  moreover have "push_bit k (ucast c) = (of_nat (unat c * 2 ^ k) :: u64)" by (simp add: push_bit_eq_mult)
  moreover have "\<not> bit (of_nat v :: u64) n \<or> \<not> bit (push_bit k (ucast c) :: u64) n" for n
  proof (cases "k \<le> n")
    case True
    then have "v < 2 ^ n" using assms(1) by (meson less_le_trans one_le_numeral power_increasing)
    then have "\<not> bit v n" by (simp add: bit_iff_odd)
    then show ?thesis by (simp add: bit_of_nat_u64)
  qed (simp add: bit_simps)
  ultimately show ?thesis by (simp add: disjunctive_add [symmetric])
qed

fun cp_chain :: "byte \<Rightarrow> nat \<Rightarrow> nat \<Rightarrow> nat \<Rightarrow> u64 \<times> bytes \<Rightarrow> (u64 \<times> bytes) option" where
  "cp_chain cmd k shift 0 st = Some st"
| "cp_chain cmd k shift (Suc m) st = Option.bind (parse_cp_param cmd (push_bit k 1) shift st) (cp_chain cmd (Suc k) (shift + 8) m)"

lemma cp_chain_read_var:
  assumes "v < 2 ^ shift" and "shift + 8 * m \<le> 32" and "k + m \<le> 8"
  shows "cp_chain cmd k shift m (of_nat v, data) =
    map_option (\<lambda>(w, rest). (of_nat (v + w * 2 ^ shift), rest)) (read_var cmd k m data)"
  using assms
proof (induction m arbitrary: k shift v data)
  case (Suc m)
  have flag: "cmd AND push_bit k 1 \<noteq> 0 \<longleftrightarrow> bit cmd k"
    using Suc.prems(3) by (simp add: push_bit_eq_mult and_exp_eq_0_iff_not_bit)
  have next_v: "v + unat c * 2 ^ shift < 2 ^ (shift + 8)" for c :: byte
  proof -
    have "v + unat c * 2 ^ shift < (unat c + 1) * 2 ^ shift" using Suc.prems(1) by (simp add: algebra_simps)
    also have "\<dots> \<le> 256 * 2 ^ shift" using unat_byte_less [of c] by (intro mult_le_mono1) linarith
    finally show ?thesis by (simp add: power_add)
  qed
  have small: "v < 2 ^ (shift + 8)" using Suc.prems(1) by (simp add: power_add)
  have IH: "cp_chain cmd (Suc k) (shift + 8) m (of_nat w, d) =
      map_option (\<lambda>(u, rest). (of_nat (w + u * 2 ^ (shift + 8)), rest)) (read_var cmd (Suc k) m d)" if "w < 2 ^ (shift + 8)" for w d
    using Suc.IH [OF that] Suc.prems(2,3) by simp
  have "shift \<le> 24" using Suc.prems(2) by simp
  note byte = or_next_byte [OF Suc.prems(1) this]
  show ?case
  proof (cases "bit cmd k")
    case True
    then show ?thesis using flag IH [OF next_v]
      by (cases data) (auto simp: parse_cp_param_def byte option.map_comp comp_def case_prod_beta power_add algebra_simps intro!: option.map_cong0)
  next
    case False
    then show ?thesis using flag IH [OF small]
      by (auto simp: parse_cp_param_def option.map_comp comp_def case_prod_beta power_add algebra_simps intro!: option.map_cong0)
  qed
qed (simp add: case_prod_beta)

lemma read_var_bound: "read_var cmd k m data = Some (v, rest) \<Longrightarrow> v < 256 ^ m"
proof (induction m arbitrary: k data v)
  case (Suc m)
  obtain u d where u: "read_var cmd (Suc k) m d = Some (u, rest)" and v: "v \<le> 255 + 256 * u"
  proof (cases "bit cmd k")
    case True
    then obtain b d u where "data = b # d" "read_var cmd (Suc k) m d = Some (u, rest)" "v = unat b + 256 * u"
      using Suc.prems by (auto split: list.splits)
    moreover have "unat b \<le> 255" using unat_byte_less [of b] by linarith
    ultimately show ?thesis using that by simp
  qed (use Suc.prems that in auto)
  then have "u + 1 \<le> 256 ^ m" using Suc.IH [OF u] by simp
  then have "256 * (u + 1) \<le> 256 * 256 ^ m" by (rule mult_le_mono2)
  with v show ?case by simp
qed simp

lemma parse_copy_read_copy:
  "parse_copy cmd data = map_option (\<lambda>(off, n, rest). (of_nat off, of_nat n, rest)) (read_copy cmd data)"
proof -
  have masks: "push_bit 0 1 = (0x01 :: byte)" "push_bit 1 1 = (0x02 :: byte)" "push_bit 2 1 = (0x04 :: byte)"
    "push_bit 3 1 = (0x08 :: byte)" "push_bit 4 1 = (0x10 :: byte)" "push_bit 5 1 = (0x20 :: byte)" "push_bit 6 1 = (0x40 :: byte)"
    by simp_all
  have chains: "parse_copy cmd data = do {
     (cp_off, data) \<leftarrow> cp_chain cmd 0 0 4 (0, data);
     (cp_size, data) \<leftarrow> cp_chain cmd 4 0 3 (0, data);
     Some (cp_off, if cp_size = 0 then 0x10000 else cp_size, data) }"
    by (simp add: parse_copy_def numeral_eq_Suc masks [simplified numeral_eq_Suc]) (auto intro!: Option.bind_cong)
  have off: "cp_chain cmd 0 0 4 (0, d) = map_option (\<lambda>(w, rest). (of_nat w, rest)) (read_var cmd 0 4 d)" for d
    using cp_chain_read_var [of 0 0 4 0 cmd d] by simp
  have sz: "cp_chain cmd 4 0 3 (0, d) = map_option (\<lambda>(w, rest). (of_nat w, rest)) (read_var cmd 4 3 d)" for d
    using cp_chain_read_var [of 0 0 3 4 cmd d] by simp
  have zero: "(of_nat n :: u64) = 0 \<longleftrightarrow> n = 0" if "read_var cmd 4 3 d = Some (n, rest)" for d n rest
    using read_var_bound [OF that] by (simp add: word_unat_eq_iff unat_of_nat)
  show ?thesis
  proof (cases "read_var cmd 0 4 data")
    case (Some p)
    then show ?thesis unfolding chains read_copy_def off sz
      by (cases "read_var cmd 4 3 (snd p)") (auto simp: zero case_prod_beta)
  qed (simp add: chains read_copy_def off)
qed

lemma read_copy_bound: "read_copy cmd data = Some (off, n, rest) \<Longrightarrow> off < 2 ^ 32 \<and> 0 < n \<and> n < 2 ^ 24"
  by (auto simp: read_copy_def bind_eq_Some_conv dest!: read_var_bound split: if_splits)

text \<open>The loop succeeds exactly on deltas whose operations stay inside the source and fill the target.\<close>

definition replay :: "bytes \<Rightarrow> delta_op list \<Rightarrow> bytes" where
  "replay src ops = concat (map (apply_op src) ops)"

lemma replay_simps [simp]: "replay src [] = []" "replay src (op # ops) = apply_op src op @ replay src ops"
  by (simp_all add: replay_def)

lemma replay_step:
  assumes "in_bounds src op" and "length (apply_op src op) = n" and "n \<le> N"
  shows "(\<exists>ops. map_option ((#) op) D = Some ops \<and> (\<forall>op \<in> set ops. in_bounds src op) \<and> res = out @ replay src ops \<and> length (replay src ops) = N) \<longleftrightarrow>
    (\<exists>ops. D = Some ops \<and> (\<forall>op \<in> set ops. in_bounds src op) \<and> res = (out @ apply_op src op) @ replay src ops \<and> length (replay src ops) = N - n)"
proof (cases D)
  case (Some ops)
  have "length (replay src (op # ops)) = N \<longleftrightarrow> length (replay src ops) = N - n" using assms(2,3) by auto
  with Some assms(1) show ?thesis by (auto simp del: in_bounds.simps apply_op.simps)
qed simp

lemma patch_delta_loop_iff:
  assumes "length src < 2 ^ 64"
  shows "patch_delta_loop src sz data out = Inr res \<longleftrightarrow>
    (\<exists>ops. delta_ops data = Some ops \<and> (\<forall>op \<in> set ops. in_bounds src op) \<and> res = out @ replay src ops \<and> length (replay src ops) = unat sz)"
  using assms
proof (induction src sz data out rule: patch_delta_loop.induct)
  case (1 src sz out)
  then show ?case by (auto simp: unat_eq_0)
next
  case (2 src sz cmd data out)
  have flag: "cmd AND 0x80 \<noteq> 0 \<longleftrightarrow> bit cmd 7" by (simp add: and_128_byte bit_byte_7 not_less)
  show ?case
  proof (cases "bit cmd 7")
    case True
    show ?thesis
    proof (cases "read_copy cmd data")
      case None
      then show ?thesis using True flag by (simp add: parse_copy_read_copy)
    next
      case (Some q)
      obtain off n rest where q: "q = (off, n, rest)" by (cases q)
      note bound = read_copy_bound [OF Some [unfolded q]]
      have u: "unat (of_nat off :: u64) = off" "unat (of_nat n :: u64) = n" using bound by (simp_all add: unat_of_nat)
      have ov: "\<not> unsigned_add_overflows (of_nat off) (of_nat n)"
        using bound u by (simp add: unsigned_add_overflows_def word_less_nat_alt unat_sub_if' unat_minus_1_u64) linarith
      have len: "length src < unat (of_nat off + of_nat n :: u64) \<longleftrightarrow> \<not> in_bounds src (Copy off n)"
        unfolding unat_add_no_overflow [OF ov] u by (simp add: not_le)
      have parse: "parse_copy cmd data = Some (of_nat off, of_nat n, rest)" using Some q by (simp add: parse_copy_read_copy)
      have ops: "delta_ops (cmd # data) = map_option ((#) (Copy off n)) (delta_ops rest)" using True Some q by simp
      show ?thesis
      proof (cases "in_bounds src (Copy off n) \<and> n \<le> unat sz")
        case ok: True
        have sz: "\<not> sz < of_nat n" "unat (sz - of_nat n) = unat sz - n"
          using ok u by (simp_all add: word_less_nat_alt unat_sub word_le_nat_alt)
        let ?out = "out @ take n (drop off src)"
        have run: "patch_delta_loop src sz (cmd # data) out = patch_delta_loop src (sz - of_nat n) rest ?out"
          using True flag parse ov len ok sz(1) u by simp
        have "length (take n (drop off src)) = n" using ok by auto
        moreover have "patch_delta_loop src (sz - of_nat n) rest ?out = Inr res \<longleftrightarrow>
          (\<exists>ops. delta_ops rest = Some ops \<and> (\<forall>op \<in> set ops. in_bounds src op) \<and> res = ?out @ replay src ops \<and>
            length (replay src ops) = unat sz - n)"
          using "2.IH"(1) [OF _ parse refl refl _ "2.prems"] True flag ov len ok sz u by simp
        ultimately show ?thesis unfolding run ops
          using replay_step [of src "Copy off n" n "unat sz" "delta_ops rest" res out] ok by simp
      next
        case bad: False
        then have "patch_delta_loop src sz (cmd # data) out = Inl Bad_length"
          using True flag parse len u by (auto simp: word_less_nat_alt simp del: in_bounds.simps)
        moreover have "\<not> (\<exists>ops. delta_ops (cmd # data) = Some ops \<and> (\<forall>op \<in> set ops. in_bounds src op) \<and>
          res = out @ replay src ops \<and> length (replay src ops) = unat sz)"
          using bad unfolding ops by auto
        ultimately show ?thesis by simp
      qed
    qed
  next
    case False
    have c: "unat (ucast cmd :: u64) = unat cmd" by (simp add: unat_ucast_byte)
    show ?thesis
    proof (cases "cmd = 0 \<or> length data < unat cmd \<or> sz < ucast cmd")
      case True
      then have "\<exists>e. patch_delta_loop src sz (cmd # data) out = Inl e" using False flag by auto
      moreover have "unat sz < unat cmd" if "sz < ucast cmd" using that c by (simp add: word_less_nat_alt)
      ultimately show ?thesis using True False by auto
    next
      case ok: False
      have sz: "unat (sz - ucast cmd) = unat sz - unat cmd" "unat cmd \<le> unat sz"
        using ok c by (simp_all add: unat_sub word_le_nat_alt not_less)
      let ?out = "out @ take (unat cmd) data"
      have run: "patch_delta_loop src sz (cmd # data) out = patch_delta_loop src (sz - ucast cmd) (drop (unat cmd) data) ?out"
        using ok False flag by simp
      have ops: "delta_ops (cmd # data) = map_option ((#) (Insert (take (unat cmd) data))) (delta_ops (drop (unat cmd) data))"
        using ok False by simp
      have "patch_delta_loop src (sz - ucast cmd) (drop (unat cmd) data) ?out = Inr res \<longleftrightarrow>
        (\<exists>ops. delta_ops (drop (unat cmd) data) = Some ops \<and> (\<forall>op \<in> set ops. in_bounds src op) \<and>
          res = ?out @ replay src ops \<and> length (replay src ops) = unat sz - unat cmd)"
        using "2.IH"(2) [OF _ _ _ "2.prems"] ok False flag sz(1) by simp
      moreover have "length (take (unat cmd) data) = unat cmd" using ok by simp
      ultimately show ?thesis unfolding run ops
        using replay_step [of src "Insert (take (unat cmd) data)" "unat cmd" "unat sz" "delta_ops (drop (unat cmd) data)" res out] sz(2) by simp
    qed
  qed
qed

lemma put_hdr_size_not_Nil: "put_hdr_size l \<noteq> []"
  by (subst put_hdr_size.simps) simp

lemma length_put_hdr_size: "1 \<le> length (put_hdr_size l)"
  using put_hdr_size_not_Nil [of l] by (simp add: Suc_le_eq)

interpretation delta_hdr: codec put_hdr_size
  "\<lambda>bs. case get_delta_hdr_size bs of Inl e \<Rightarrow> None | Inr (l, rest) \<Rightarrow> Some (unat l, rest)"
  "\<lambda>l. l < 2 ^ 64"
  by unfold_locales (simp add: get_put_hdr_size unat_of_nat)

section \<open>Properties\<close>

text \<open>
  C2: \<open>patch_delta\<close> accepts exactly the good deltas, also among hostile ones.  It returns a result if and
  only if both headers can be read, the first one is the length of the source, the bytes behind
  them are commands of the format, every copy command of the delta names a range that lies
  inside the source, and the pieces add up to exactly the size that the second header announces;
  the result is then the replay of these commands.
\<close>

theorem patch_delta_safe:
  "patch_delta src delta = Inr res \<longleftrightarrow>
    DELTA_SIZE_MIN \<le> length delta \<and>
    (\<exists>sz1 rest1 sz2 rest2 ops.
      get_delta_hdr_size delta = Inr (sz1, rest1) \<and> unat sz1 = length src \<and>
      get_delta_hdr_size rest1 = Inr (sz2, rest2) \<and>
      delta_ops rest2 = Some ops \<and> (\<forall>op \<in> set ops. in_bounds src op) \<and>
      res = replay src ops \<and> length res = unat sz2)"
proof -
  have loop: "patch_delta_loop src sz2 rest2 [] = Inr res \<longleftrightarrow>
      (\<exists>ops. delta_ops rest2 = Some ops \<and> (\<forall>op \<in> set ops. in_bounds src op) \<and> res = replay src ops \<and> length res = unat sz2)"
    if "unat sz1 = length src" for sz1 :: u64 and sz2 rest2
  proof -
    have "length src < 2 ^ 64" using unat_u64_less [of sz1] that by simp
    from patch_delta_loop_iff [OF this, of sz2 rest2 "[]" res] show ?thesis by auto
  qed
  show ?thesis
  proof
    assume "patch_delta src delta = Inr res"
    then obtain sz1 rest1 sz2 rest2 where "DELTA_SIZE_MIN \<le> length delta" "get_delta_hdr_size delta = Inr (sz1, rest1)"
      "unat sz1 = length src" "get_delta_hdr_size rest1 = Inr (sz2, rest2)" "patch_delta_loop src sz2 rest2 [] = Inr res"
      by (auto simp: patch_delta_def not_less split: if_splits sum.splits prod.splits)
    with loop show "DELTA_SIZE_MIN \<le> length delta \<and> (\<exists>sz1 rest1 sz2 rest2 ops.
      get_delta_hdr_size delta = Inr (sz1, rest1) \<and> unat sz1 = length src \<and> get_delta_hdr_size rest1 = Inr (sz2, rest2) \<and>
      delta_ops rest2 = Some ops \<and> (\<forall>op \<in> set ops. in_bounds src op) \<and> res = replay src ops \<and> length res = unat sz2)"
      by blast
  next
    assume "DELTA_SIZE_MIN \<le> length delta \<and> (\<exists>sz1 rest1 sz2 rest2 ops.
      get_delta_hdr_size delta = Inr (sz1, rest1) \<and> unat sz1 = length src \<and> get_delta_hdr_size rest1 = Inr (sz2, rest2) \<and>
      delta_ops rest2 = Some ops \<and> (\<forall>op \<in> set ops. in_bounds src op) \<and> res = replay src ops \<and> length res = unat sz2)"
    then obtain sz1 rest1 sz2 rest2 where h: "DELTA_SIZE_MIN \<le> length delta" "get_delta_hdr_size delta = Inr (sz1, rest1)"
      "unat sz1 = length src" "get_delta_hdr_size rest1 = Inr (sz2, rest2)"
      "\<exists>ops. delta_ops rest2 = Some ops \<and> (\<forall>op \<in> set ops. in_bounds src op) \<and> res = replay src ops \<and> length res = unat sz2"
      by blast
    from h(5) have "patch_delta_loop src sz2 rest2 [] = Inr res" unfolding loop [OF h(3)] .
    with h(1-4) show "patch_delta src delta = Inr res" by (simp add: patch_delta_def)
  qed
qed

text \<open>A delta that copies two bytes and inserts one, and the same with the copy reaching too far.\<close>

theorem patch_delta_safe_witness:
  "patch_delta [1, 2, 3] [3, 3, 0x91, 1, 2, 1, 9] = Inr [2, 3, 9] \<and>
   delta_ops [0x91, 1, 2, 1, 9] = Some [Copy 1 2, Insert [9]] \<and>
   (\<forall>res. patch_delta [1, 2, 3] [3, 3, 0x91, 2, 2, 1, 9] \<noteq> Inr res)"
proof (intro conjI allI)
  show ops: "delta_ops [0x91, 1, 2, 1, 9] = Some [Copy 1 2, Insert [9]]" by code_simp
  have "get_delta_hdr_size [3, 3, 0x91, 1, 2, 1, 9] = Inr (3, [3, 0x91, 1, 2, 1, 9])"
    "get_delta_hdr_size [3, 0x91, 1, 2, 1, 9] = Inr (3, [0x91, 1, 2, 1, 9])" by code_simp+
  with ops show "patch_delta [1, 2, 3] [3, 3, 0x91, 1, 2, 1, 9] = Inr [2, 3, 9]"
    unfolding patch_delta_safe by (auto simp: DELTA_SIZE_MIN_def)
  have "delta_ops [0x91, 2, 2, 1, 9] = Some [Copy 2 2, Insert [9]]" by code_simp
  moreover have "get_delta_hdr_size [3, 3, 0x91, 2, 2, 1, 9] = Inr (3, [3, 0x91, 2, 2, 1, 9])"
    "get_delta_hdr_size [3, 0x91, 2, 2, 1, 9] = Inr (3, [0x91, 2, 2, 1, 9])" by code_simp+
  ultimately show "patch_delta [1, 2, 3] [3, 3, 0x91, 2, 2, 1, 9] \<noteq> Inr res" for res
    unfolding patch_delta_safe by auto
qed

text \<open>
  Sizes written in the delta header are read back: for every size that fits 64 bits
  \<open>get_delta_hdr_size\<close> on the header bytes of \<open>create_delta\<close> returns the size and stops behind
  them.
\<close>

theorem delta_hdr_roundtrip:
  assumes "l < 2 ^ 64"
  shows "get_delta_hdr_size (put_hdr_size l @ rest) = Inr (of_nat l, rest)"
  using assms by (rule get_put_hdr_size)

theorem delta_hdr_roundtrip_witness:
  "get_delta_hdr_size (put_hdr_size 300 @ [5]) = Inr (300, [5])"
  using delta_hdr_roundtrip [of 300 "[5]"] by simp

text \<open>The value of a size header: seven bits of each byte, least first.\<close>

fun hdr_value :: "bytes \<Rightarrow> nat" where
  "hdr_value [] = 0"
| "hdr_value (b # bs) = unat b mod 128 + 128 * hdr_value bs"

lemma hdr_value_less: "hdr_value bs < 2 ^ (7 * length bs)"
proof (induction bs)
  case (Cons b bs)
  have "hdr_value (b # bs) < 128 * (hdr_value bs + 1)" by simp
  also have "\<dots> \<le> 128 * 2 ^ (7 * length bs)" using Cons.IH by (intro mult_le_mono2) simp
  finally show ?case by (simp add: power_add)
qed simp

lemma hdr_value_append: "hdr_value (bs @ cs) = hdr_value bs + 2 ^ (7 * length bs) * hdr_value cs"
  by (induction bs) (simp_all add: power_add algebra_simps)

lemma ucast_and_7f: "(ucast (b :: byte) AND 0x7f :: u64) = of_nat (unat b mod 128)"
  by (simp add: word_unat_eq_iff unat_and_127 unat_ucast_byte unat_of_nat)

lemma hdr_loop_prefix:
  assumes "\<forall>b \<in> set bs. b AND 0x80 \<noteq> 0" and "i + 7 * length bs \<le> 63" and "rest \<noteq> []"
  shows "get_delta_hdr_size_loop sz i (bs @ rest) =
    get_delta_hdr_size_loop (sz OR push_bit i (of_nat (hdr_value bs))) (i + 7 * length bs) rest"
  using assms
proof (induction bs arbitrary: sz i)
  case (Cons b bs)
  have "unat b mod 128 * 2 ^ i < 128 * 2 ^ i" by simp
  also have "\<dots> = 2 ^ (i + 7)" by (simp add: power_add)
  also have "\<dots> \<le> (2 :: nat) ^ 64" using Cons.prems(2) by (intro power_increasing) auto
  finally have shift: "st_left_shift (of_nat (unat b mod 128)) i = Inr (push_bit i (of_nat (unat b mod 128)))"
    using Cons.prems(2) by (intro st_left_shift_ok) auto
  have "hdr_value (b # bs) mod 128 = unat b mod 128" "drop_bit 7 (hdr_value (b # bs)) = hdr_value bs" by (simp_all add: drop_bit_eq_div)
  with or_push_split [of sz i "hdr_value (b # bs)"]
  have "sz OR push_bit i (of_nat (unat b mod 128)) OR push_bit (i + 7) (of_nat (hdr_value bs)) = sz OR push_bit i (of_nat (hdr_value (b # bs)))"
    by (simp only: or.assoc)
  moreover have "get_delta_hdr_size_loop sz i ((b # bs) @ rest) =
      get_delta_hdr_size_loop (sz OR push_bit i (of_nat (unat b mod 128))) (i + 7) (bs @ rest)"
    using Cons.prems(1,3) shift by (simp add: ucast_and_7f)
  ultimately show ?case using Cons.IH [of "i + 7" "sz OR push_bit i (of_nat (unat b mod 128))"] Cons.prems by (simp add: or.assoc algebra_simps)
qed simp

text \<open>
  C26: Size headers of ten bytes and more.  \<open>st_left_shift\<close> does not stop every overflowing shift: its
  check is skipped once the shift distance reaches the width of the type.  Behind nine
  continuation bytes a tenth byte with more than its lowest bit is caught and the program dies; but if the
  tenth byte asks for an eleventh one and there is one, \<open>get_delta_hdr_size\<close> shifts a 64-bit value by 70,
  which C leaves undefined, and any such delta makes \<open>patch_delta\<close> do so.  A header that ends
  with the tenth byte is read correctly.
\<close>

theorem delta_hdr_shift_unchecked:
  assumes "length bs = 9" and "\<forall>b \<in> set bs. b AND 0x80 \<noteq> 0"
  shows "get_delta_hdr_size (bs @ c # rest) =
      (if 1 < unat c mod 128 then Inl Die
       else if c AND 0x80 \<noteq> 0 \<and> rest \<noteq> [] then Inl Undef
       else Inr (of_nat (hdr_value (bs @ [c])), rest)) \<and>
    (unat c mod 128 \<le> 1 \<and> c AND 0x80 \<noteq> 0 \<and> rest \<noteq> [] \<longrightarrow> patch_delta src (bs @ c # rest) = Inl (Fault Undef))"
proof -
  have "drop_bit 63 (- 1 :: u64) = 1" by simp
  moreover have "(1 :: u64) < of_nat (unat c mod 128) \<longleftrightarrow> 1 < unat c mod 128" by (simp add: word_less_nat_alt unat_of_nat)
  ultimately have shift: "st_left_shift (ucast c AND 0x7f) 63 =
      (if 1 < unat c mod 128 then Inl Die else Inr (push_bit 63 (of_nat (unat c mod 128))))"
    by (simp add: st_left_shift_def ucast_and_7f)
  have undef: "get_delta_hdr_size_loop sz 70 (d # ds) = Inl Undef" for sz d ds by (simp add: st_left_shift_def)
  have hv: "hdr_value bs < 2 ^ 63" using hdr_value_less [of bs] assms(1) by simp
  have "\<not> bit (of_nat (hdr_value bs) :: u64) n \<or> \<not> bit (push_bit 63 (of_nat (unat c mod 128)) :: u64) n" for n
  proof (cases "63 \<le> n")
    case True
    then have "hdr_value bs < 2 ^ n" using hv by (meson less_le_trans one_le_numeral power_increasing)
    then have "\<not> bit (hdr_value bs) n" by (simp add: bit_iff_odd)
    then show ?thesis by (simp add: bit_of_nat_u64)
  qed (simp add: bit_simps)
  then have "of_nat (hdr_value bs) OR push_bit 63 (of_nat (unat c mod 128)) = (of_nat (hdr_value bs) + push_bit 63 (of_nat (unat c mod 128)) :: u64)"
    by (rule disjunctive_add [symmetric])
  also have "\<dots> = of_nat (hdr_value (bs @ [c]))" by (simp add: hdr_value_append assms(1) push_bit_eq_mult mult.commute)
  finally have "get_delta_hdr_size (bs @ c # rest) =
      (if 1 < unat c mod 128 then Inl Die else if c AND 0x80 \<noteq> 0 \<and> rest \<noteq> [] then Inl Undef
       else Inr (of_nat (hdr_value (bs @ [c])), rest))"
    using hdr_loop_prefix [OF assms(2), of 0 "c # rest" 0] assms(1) shift undef
    by (cases rest) (simp_all add: get_delta_hdr_size_def)
  then show ?thesis using assms(1) by (simp add: patch_delta_def DELTA_SIZE_MIN_def)
qed

theorem delta_hdr_shift_unchecked_witness:
  "patch_delta [1, 2] (replicate 9 0xff @ 0x81 # [0, 2]) = Inl (Fault Undef) \<and>
   get_delta_hdr_size (replicate 9 0xff @ 0xff # [0, 2]) = Inl Die"
  using delta_hdr_shift_unchecked [of "replicate 9 0xff" "0x81" "[0, 2]" "[1, 2]"]
    delta_hdr_shift_unchecked [of "replicate 9 0xff" "0xff" "[0, 2]" "[1, 2]"] by simp

end
