(* ===== verification/Rabin_Window.thy ===== *)
theory Rabin_Window
  imports Git_Prelude
begin

unbundle bit_operations_syntax

text \<open>
  The rolling hash of \<open>diff-delta.c\<close>: the two tables, one step of the hash, and the hash of a
  window of \<open>RABIN_WINDOW\<close> bytes.  The lemmas show that the tables are linear over exclusive
  or, that hash values stay below 2^31 (so that the table index \<open>val >> RABIN_SHIFT\<close> stays
  inside the table), and that \<open>U\<close> removes the oldest byte of the window: rolling the window by
  one byte gives the hash of the new window.
\<close>

section \<open>The rolling hash\<close>

definition RABIN_SHIFT :: nat where
  "RABIN_SHIFT = 23"

definition RABIN_WINDOW :: nat where
  "RABIN_WINDOW = 16"

definition T_tab :: "u32 list" where
  "T_tab = [
    0x0, 0xab59b4d1, 0x56b369a2, 0xfdeadd73, 0x63f6795, 0xad66d344,
    0x508c0e37, 0xfbd5bae6, 0xc7ecf2a, 0xa7277bfb, 0x5acda688, 0xf1941259,
    0xa41a8bf, 0xa1181c6e, 0x5cf2c11d, 0xf7ab75cc, 0x18fd9e54, 0xb3a42a85,
    0x4e4ef7f6, 0xe5174327, 0x1ec2f9c1, 0xb59b4d10, 0x48719063, 0xe32824b2,
    0x1483517e, 0xbfdae5af, 0x423038dc, 0xe9698c0d, 0x12bc36eb, 0xb9e5823a,
    0x440f5f49, 0xef56eb98, 0x31fb3ca8, 0x9aa28879, 0x6748550a, 0xcc11e1db,
    0x37c45b3d, 0x9c9defec, 0x6177329f, 0xca2e864e, 0x3d85f382, 0x96dc4753,
    0x6b369a20, 0xc06f2ef1, 0x3bba9417, 0x90e320c6, 0x6d09fdb5, 0xc6504964,
    0x2906a2fc, 0x825f162d, 0x7fb5cb5e, 0xd4ec7f8f, 0x2f39c569, 0x846071b8,
    0x798aaccb, 0xd2d3181a, 0x25786dd6, 0x8e21d907, 0x73cb0474, 0xd892b0a5,
    0x23470a43, 0x881ebe92, 0x75f463e1, 0xdeadd730, 0x63f67950, 0xc8afcd81,
    0x354510f2, 0x9e1ca423, 0x65c91ec5, 0xce90aa14, 0x337a7767, 0x9823c3b6,
    0x6f88b67a, 0xc4d102ab, 0x393bdfd8, 0x92626b09, 0x69b7d1ef, 0xc2ee653e,
    0x3f04b84d, 0x945d0c9c, 0x7b0be704, 0xd05253d5, 0x2db88ea6, 0x86e13a77,
    0x7d348091, 0xd66d3440, 0x2b87e933, 0x80de5de2, 0x7775282e, 0xdc2c9cff,
    0x21c6418c, 0x8a9ff55d, 0x714a4fbb, 0xda13fb6a, 0x27f92619, 0x8ca092c8,
    0x520d45f8, 0xf954f129, 0x4be2c5a, 0xafe7988b, 0x5432226d, 0xff6b96bc,
    0x2814bcf, 0xa9d8ff1e, 0x5e738ad2, 0xf52a3e03, 0x8c0e370, 0xa39957a1,
    0x584ced47, 0xf3155996, 0xeff84e5, 0xa5a63034, 0x4af0dbac, 0xe1a96f7d,
    0x1c43b20e, 0xb71a06df, 0x4ccfbc39, 0xe79608e8, 0x1a7cd59b, 0xb125614a,
    0x468e1486, 0xedd7a057, 0x103d7d24, 0xbb64c9f5, 0x40b17313, 0xebe8c7c2,
    0x16021ab1, 0xbd5bae60, 0x6cb54671, 0xc7ecf2a0, 0x3a062fd3, 0x915f9b02,
    0x6a8a21e4, 0xc1d39535, 0x3c394846, 0x9760fc97, 0x60cb895b, 0xcb923d8a,
    0x3678e0f9, 0x9d215428, 0x66f4eece, 0xcdad5a1f, 0x3047876c, 0x9b1e33bd,
    0x7448d825, 0xdf116cf4, 0x22fbb187, 0x89a20556, 0x7277bfb0, 0xd92e0b61,
    0x24c4d612, 0x8f9d62c3, 0x7836170f, 0xd36fa3de, 0x2e857ead, 0x85dcca7c,
    0x7e09709a, 0xd550c44b, 0x28ba1938, 0x83e3ade9, 0x5d4e7ad9, 0xf617ce08,
    0xbfd137b, 0xa0a4a7aa, 0x5b711d4c, 0xf028a99d, 0xdc274ee, 0xa69bc03f,
    0x5130b5f3, 0xfa690122, 0x783dc51, 0xacda6880, 0x570fd266, 0xfc5666b7,
    0x1bcbbc4, 0xaae50f15, 0x45b3e48d, 0xeeea505c, 0x13008d2f, 0xb85939fe,
    0x438c8318, 0xe8d537c9, 0x153feaba, 0xbe665e6b, 0x49cd2ba7, 0xe2949f76,
    0x1f7e4205, 0xb427f6d4, 0x4ff24c32, 0xe4abf8e3, 0x19412590, 0xb2189141,
    0xf433f21, 0xa41a8bf0, 0x59f05683, 0xf2a9e252, 0x97c58b4, 0xa225ec65,
    0x5fcf3116, 0xf49685c7, 0x33df00b, 0xa86444da, 0x558e99a9, 0xfed72d78,
    0x502979e, 0xae5b234f, 0x53b1fe3c, 0xf8e84aed, 0x17bea175, 0xbce715a4,
    0x410dc8d7, 0xea547c06, 0x1181c6e0, 0xbad87231, 0x4732af42, 0xec6b1b93,
    0x1bc06e5f, 0xb099da8e, 0x4d7307fd, 0xe62ab32c, 0x1dff09ca, 0xb6a6bd1b,
    0x4b4c6068, 0xe015d4b9, 0x3eb80389, 0x95e1b758, 0x680b6a2b, 0xc352defa,
    0x3887641c, 0x93ded0cd, 0x6e340dbe, 0xc56db96f, 0x32c6cca3, 0x999f7872,
    0x6475a501, 0xcf2c11d0, 0x34f9ab36, 0x9fa01fe7, 0x624ac294, 0xc9137645,
    0x26459ddd, 0x8d1c290c, 0x70f6f47f, 0xdbaf40ae, 0x207afa48, 0x8b234e99,
    0x76c993ea, 0xdd90273b, 0x2a3b52f7, 0x8162e626, 0x7c883b55, 0xd7d18f84,
    0x2c043562, 0x875d81b3, 0x7ab75cc0, 0xd1eee811]"

definition U_tab :: "u32 list" where
  "U_tab = [
    0x0, 0x7eb5200d, 0x5633f4cb, 0x2886d4c6, 0x73e5d47, 0x798b7d4a,
    0x510da98c, 0x2fb88981, 0xe7cba8e, 0x70c99a83, 0x584f4e45, 0x26fa6e48,
    0x942e7c9, 0x77f7c7c4, 0x5f711302, 0x21c4330f, 0x1cf9751c, 0x624c5511,
    0x4aca81d7, 0x347fa1da, 0x1bc7285b, 0x65720856, 0x4df4dc90, 0x3341fc9d,
    0x1285cf92, 0x6c30ef9f, 0x44b63b59, 0x3a031b54, 0x15bb92d5, 0x6b0eb2d8,
    0x4388661e, 0x3d3d4613, 0x39f2ea38, 0x4747ca35, 0x6fc11ef3, 0x11743efe,
    0x3eccb77f, 0x40799772, 0x68ff43b4, 0x164a63b9, 0x378e50b6, 0x493b70bb,
    0x61bda47d, 0x1f088470, 0x30b00df1, 0x4e052dfc, 0x6683f93a, 0x1836d937,
    0x250b9f24, 0x5bbebf29, 0x73386bef, 0xd8d4be2, 0x2235c263, 0x5c80e26e,
    0x740636a8, 0xab316a5, 0x2b7725aa, 0x55c205a7, 0x7d44d161, 0x3f1f16c,
    0x2c4978ed, 0x52fc58e0, 0x7a7a8c26, 0x4cfac2b, 0x73e5d470, 0xd50f47d,
    0x25d620bb, 0x5b6300b6, 0x74db8937, 0xa6ea93a, 0x22e87dfc, 0x5c5d5df1,
    0x7d996efe, 0x32c4ef3, 0x2baa9a35, 0x551fba38, 0x7aa733b9, 0x41213b4,
    0x2c94c772, 0x5221e77f, 0x6f1ca16c, 0x11a98161, 0x392f55a7, 0x479a75aa,
    0x6822fc2b, 0x1697dc26, 0x3e1108e0, 0x40a428ed, 0x61601be2, 0x1fd53bef,
    0x3753ef29, 0x49e6cf24, 0x665e46a5, 0x18eb66a8, 0x306db26e, 0x4ed89263,
    0x4a173e48, 0x34a21e45, 0x1c24ca83, 0x6291ea8e, 0x4d29630f, 0x339c4302,
    0x1b1a97c4, 0x65afb7c9, 0x446b84c6, 0x3adea4cb, 0x1258700d, 0x6ced5000,
    0x4355d981, 0x3de0f98c, 0x15662d4a, 0x6bd30d47, 0x56ee4b54, 0x285b6b59,
    0xddbf9f, 0x7e689f92, 0x51d01613, 0x2f65361e, 0x7e3e2d8, 0x7956c2d5,
    0x5892f1da, 0x2627d1d7, 0xea10511, 0x7014251c, 0x5facac9d, 0x21198c90,
    0x99f5856, 0x772a785b, 0x4c921c31, 0x32273c3c, 0x1aa1e8fa, 0x6414c8f7,
    0x4bac4176, 0x3519617b, 0x1d9fb5bd, 0x632a95b0, 0x42eea6bf, 0x3c5b86b2,
    0x14dd5274, 0x6a687279, 0x45d0fbf8, 0x3b65dbf5, 0x13e30f33, 0x6d562f3e,
    0x506b692d, 0x2ede4920, 0x6589de6, 0x78edbdeb, 0x5755346a, 0x29e01467,
    0x166c0a1, 0x7fd3e0ac, 0x5e17d3a3, 0x20a2f3ae, 0x8242768, 0x76910765,
    0x59298ee4, 0x279caee9, 0xf1a7a2f, 0x71af5a22, 0x7560f609, 0xbd5d604,
    0x235302c2, 0x5de622cf, 0x725eab4e, 0xceb8b43, 0x246d5f85, 0x5ad87f88,
    0x7b1c4c87, 0x5a96c8a, 0x2d2fb84c, 0x539a9841, 0x7c2211c0, 0x29731cd,
    0x2a11e50b, 0x54a4c506, 0x69998315, 0x172ca318, 0x3faa77de, 0x411f57d3,
    0x6ea7de52, 0x1012fe5f, 0x38942a99, 0x46210a94, 0x67e5399b, 0x19501996,
    0x31d6cd50, 0x4f63ed5d, 0x60db64dc, 0x1e6e44d1, 0x36e89017, 0x485db01a,
    0x3f77c841, 0x41c2e84c, 0x69443c8a, 0x17f11c87, 0x38499506, 0x46fcb50b,
    0x6e7a61cd, 0x10cf41c0, 0x310b72cf, 0x4fbe52c2, 0x67388604, 0x198da609,
    0x36352f88, 0x48800f85, 0x6006db43, 0x1eb3fb4e, 0x238ebd5d, 0x5d3b9d50,
    0x75bd4996, 0xb08699b, 0x24b0e01a, 0x5a05c017, 0x728314d1, 0xc3634dc,
    0x2df207d3, 0x534727de, 0x7bc1f318, 0x574d315, 0x2acc5a94, 0x54797a99,
    0x7cffae5f, 0x24a8e52, 0x6852279, 0x78300274, 0x50b6d6b2, 0x2e03f6bf,
    0x1bb7f3e, 0x7f0e5f33, 0x57888bf5, 0x293dabf8, 0x8f998f7, 0x764cb8fa,
    0x5eca6c3c, 0x207f4c31, 0xfc7c5b0, 0x7172e5bd, 0x59f4317b, 0x27411176,
    0x1a7c5765, 0x64c97768, 0x4c4fa3ae, 0x32fa83a3, 0x1d420a22, 0x63f72a2f,
    0x4b71fee9, 0x35c4dee4, 0x1400edeb, 0x6ab5cde6, 0x42331920, 0x3c86392d,
    0x133eb0ac, 0x6d8b90a1, 0x450d4467, 0x3bb8646a]"

definition rabin_push :: "u32 \<Rightarrow> byte \<Rightarrow> u32" where
  "rabin_push val b = (push_bit 8 val OR ucast b) XOR T_tab ! unat (drop_bit RABIN_SHIFT val)"

definition rabin_hash :: "bytes \<Rightarrow> nat \<Rightarrow> u32" where
  "rabin_hash buf pos = fold (\<lambda>j val. rabin_push val (buf ! (pos + j))) [0..<RABIN_WINDOW] 0"

section \<open>The tables are linear\<close>

definition xor_span :: "u32 list \<Rightarrow> u32 list" where
  "xor_span bs = fold (\<lambda>b s. s @ map (\<lambda>x. x XOR b) s) bs [0]"

definition additive :: "u32 list \<Rightarrow> bool" where
  "additive s \<longleftrightarrow> (\<forall>a < length s. \<forall>b < length s. s ! (a XOR b) = s ! a XOR s ! b)"

lemma xor_less_exp: "a < 2 ^ k \<Longrightarrow> b < 2 ^ k \<Longrightarrow> a XOR b < (2::nat) ^ k"
  by (metis take_bit_nat_eq_self_iff take_bit_xor)

lemma nth_span_step:
  assumes "length s = 2 ^ k" and "i < 2 ^ Suc k"
  shows "(s @ map (\<lambda>x. x XOR b) s) ! i = s ! take_bit k i XOR (if bit i k then b else 0)"
proof (cases "i < 2 ^ k")
  case True
  then have "take_bit k i = i" "\<not> bit i k"
    by (simp_all add: take_bit_nat_eq_self bit_iff_odd)
  with True assms show ?thesis by (simp add: nth_append)
next
  case False
  then have "i div 2 ^ k = 1" using assms(2) by (simp add: div_nat_eqI)
  then have "bit i k" "take_bit k i = i - 2 ^ k"
    by (auto simp: bit_iff_odd take_bit_eq_mod modulo_nat_def)
  moreover have "i - 2 ^ k < length s" using False assms by simp
  ultimately show ?thesis using False assms by (simp add: nth_append)
qed

lemma additive_step:
  assumes "length s = 2 ^ k" and "additive s"
  shows "additive (s @ map (\<lambda>x. x XOR b) s)"
  unfolding additive_def
proof (intro allI impI)
  fix x y assume x: "x < length (s @ map (\<lambda>x. x XOR b) s)" and y: "y < length (s @ map (\<lambda>x. x XOR b) s)"
  then have xy: "x < 2 ^ Suc k" "y < 2 ^ Suc k" using assms(1) by simp_all
  have "s ! (take_bit k x XOR take_bit k y) = s ! take_bit k x XOR s ! take_bit k y"
    using assms by (simp add: additive_def)
  then show "(s @ map (\<lambda>x. x XOR b) s) ! (x XOR y) =
      (s @ map (\<lambda>x. x XOR b) s) ! x XOR (s @ map (\<lambda>x. x XOR b) s) ! y"
    using nth_span_step [OF assms(1) xor_less_exp [OF xy], of b] nth_span_step [OF assms(1) xy(1), of b]
      nth_span_step [OF assms(1) xy(2), of b]
    by (simp add: take_bit_xor bit_xor_iff xor.assoc xor.left_commute)
qed

lemma additive_fold:
  "length s = 2 ^ k \<Longrightarrow> additive s \<Longrightarrow> additive (fold (\<lambda>b s. s @ map (\<lambda>x. x XOR b) s) bs s)"
proof (induction bs arbitrary: s k)
  case (Cons b bs)
  from additive_step [OF Cons.prems] Cons.prems(1) Cons.IH [of "s @ map (\<lambda>x. x XOR b) s" "Suc k"]
  show ?case by simp
qed simp

lemma additive_span: "additive (xor_span bs)"
  unfolding xor_span_def by (rule additive_fold [of _ 0]) (simp_all add: additive_def)

lemma length_T_tab: "length T_tab = 256" by (simp add: T_tab_def)
lemma length_U_tab: "length U_tab = 256" by (simp add: U_tab_def)

lemma T_tab_span: "T_tab = xor_span [0xab59b4d1, 0x56b369a2, 0x063f6795, 0x0c7ecf2a, 0x18fd9e54, 0x31fb3ca8, 0x63f67950, 0x6cb54671]"
  unfolding xor_span_def T_tab_def by simp

lemma U_tab_span: "U_tab = xor_span [0x7eb5200d, 0x5633f4cb, 0x073e5d47, 0x0e7cba8e, 0x1cf9751c, 0x39f2ea38, 0x73e5d470, 0x4c921c31]"
  unfolding xor_span_def U_tab_def by simp

lemma T_tab_additive: "additive T_tab"
  by (subst T_tab_span) (rule additive_span)

lemma U_tab_additive: "additive U_tab"
  by (subst U_tab_span) (rule additive_span)

lemma T_tab_bit: "map (\<lambda>t. bit t 31) T_tab = map odd [0..<256]"
  unfolding T_tab_def by (simp add: upt_rec)

lemma T_tab_xor: "a < 256 \<Longrightarrow> b < 256 \<Longrightarrow> T_tab ! (a XOR b) = T_tab ! a XOR T_tab ! b"
  using T_tab_additive by (simp add: additive_def length_T_tab)

lemma U_tab_xor: "a < 256 \<Longrightarrow> b < 256 \<Longrightarrow> U_tab ! (a XOR b) = U_tab ! a XOR U_tab ! b"
  using U_tab_additive by (simp add: additive_def length_U_tab)

section \<open>One step of the hash\<close>

lemma drop_23_less: "unat v < 2 ^ 31 \<Longrightarrow> unat (drop_bit RABIN_SHIFT (v :: u32)) < 256"
  by (simp add: RABIN_SHIFT_def unat_drop_bit less_mult_imp_div_less)

lemma unat_less_31: "unat (v :: u32) < 2 ^ 31 \<longleftrightarrow> \<not> bit v 31"
proof -
  have "bit v 31 \<longleftrightarrow> odd (unat v div 2 ^ 31)"
    using bit_unsigned_iff [of v 31, where ?'a = nat] by (simp add: bit_iff_odd)
  moreover have "\<not> unat v < 2 ^ 31 \<Longrightarrow> unat v div 2 ^ 31 = 1"
    using unat_u32_less [of v] by (intro div_nat_eqI) simp_all
  ultimately show ?thesis by (cases "unat v < 2 ^ 31") auto
qed

lemma rabin_push_bound:
  assumes "unat v < 2 ^ 31"
  shows "unat (rabin_push v b) < 2 ^ 31"
proof -
  let ?i = "unat (drop_bit RABIN_SHIFT v)"
  have i: "?i < 256" by (rule drop_23_less [OF assms])
  have "bit (T_tab ! ?i) 31 = odd ?i"
    using arg_cong [OF T_tab_bit, of "\<lambda>l. l ! ?i"] i by (simp add: length_T_tab)
  also have "\<dots> = bit (unat v) 23"
    by (simp only: unat_drop_bit_eq RABIN_SHIFT_def bit_iff_odd_drop_bit)
  also have "\<dots> = bit v 23" by (simp add: bit_unsigned_iff)
  finally show ?thesis
    unfolding unat_less_31 rabin_push_def by (auto simp: bit_simps dest: bit_imp_le_length)
qed

lemma rabin_push_alt: "rabin_push v b = (push_bit 8 v XOR ucast b) XOR T_tab ! unat (drop_bit RABIN_SHIFT v)"
proof -
  have "push_bit 8 v OR ucast b = push_bit 8 v XOR ucast b"
    by (rule bit_word_eqI) (auto simp: bit_simps dest: bit_imp_le_length)
  then show ?thesis by (simp only: rabin_push_def)
qed

lemma rabin_push_xor:
  assumes "unat v < 2 ^ 31" and "unat w < 2 ^ 31"
  shows "rabin_push (v XOR w) (b XOR c) = rabin_push v b XOR rabin_push w c"
proof -
  have t: "T_tab ! unat (drop_bit RABIN_SHIFT (v XOR w)) = T_tab ! unat (drop_bit RABIN_SHIFT v) XOR T_tab ! unat (drop_bit RABIN_SHIFT w)"
    by (simp only: drop_bit_xor unsigned_xor_eq T_tab_xor drop_23_less assms)
  have u: "(ucast (b XOR c) :: u32) = ucast b XOR ucast c" by (rule unsigned_xor_eq)
  show ?thesis
    unfolding rabin_push_alt t u push_bit_xor by (simp only: ac_simps)
qed

lemma rabin_fold_bound: "unat v < 2 ^ 31 \<Longrightarrow> unat (fold (\<lambda>b v. rabin_push v b) bs v) < 2 ^ 31"
  by (induction bs arbitrary: v) (simp_all add: rabin_push_bound del: power_numeral)

lemma fold_push_xor:
  assumes "length bs = length cs" and "unat v < 2 ^ 31" and "unat w < 2 ^ 31"
  shows "fold (\<lambda>b v. rabin_push v b) (map2 (XOR) bs cs) (v XOR w)
    = fold (\<lambda>b v. rabin_push v b) bs v XOR fold (\<lambda>b v. rabin_push v b) cs w"
  using assms
  by (induction bs cs arbitrary: v w rule: list_induct2) (simp_all add: rabin_push_xor rabin_push_bound del: power_numeral)

section \<open>Rolling the window\<close>

lemma replicate_15: "replicate 15 x = [x,x,x,x,x,x,x,x,x,x,x,x,x,x,x]"
  by (simp add: numeral_eq_Suc)

lemma rabin_fold_single:
  "fold (\<lambda>b v. rabin_push v b) (1 # replicate 15 0) 0 = U_tab ! 1"
  "fold (\<lambda>b v. rabin_push v b) (2 # replicate 15 0) 0 = U_tab ! 2"
  "fold (\<lambda>b v. rabin_push v b) (4 # replicate 15 0) 0 = U_tab ! 4"
  "fold (\<lambda>b v. rabin_push v b) (8 # replicate 15 0) 0 = U_tab ! 8"
  "fold (\<lambda>b v. rabin_push v b) (16 # replicate 15 0) 0 = U_tab ! 16"
  "fold (\<lambda>b v. rabin_push v b) (32 # replicate 15 0) 0 = U_tab ! 32"
  "fold (\<lambda>b v. rabin_push v b) (64 # replicate 15 0) 0 = U_tab ! 64"
  "fold (\<lambda>b v. rabin_push v b) (128 # replicate 15 0) 0 = U_tab ! 128"
  unfolding replicate_15 by (simp_all add: rabin_push_def T_tab_def U_tab_def RABIN_SHIFT_def)


lemma rabin_push_0: "rabin_push 0 0 = 0"
  by (simp add: rabin_push_def T_tab_def)

lemma byte_xor_induct:
  assumes zero: "P (0 :: byte)" and gen: "\<And>k. k < 8 \<Longrightarrow> P (2 ^ k)" and xor: "\<And>b c. P b \<Longrightarrow> P c \<Longrightarrow> P (b XOR c)"
  shows "P b"
proof -
  have "P (take_bit n b)" if "n \<le> 8" for n
    using that
  proof (induction n)
    case 0
    then show ?case by (simp add: zero)
  next
    case (Suc n)
    have "take_bit (Suc n) b = take_bit n b XOR (if bit b n then 2 ^ n else 0)"
      by (rule bit_word_eqI) (use Suc.prems in \<open>auto simp: bit_simps less_Suc_eq\<close>)
    with Suc xor gen zero show ?case by simp
  qed
  from this [of 8] show ?thesis by (simp add: take_bit_word_eq_self)
qed

lemma U_tab_eq: "U_tab ! unat b = fold (\<lambda>b v. rabin_push v b) (b # replicate 15 0) 0"
proof (induction b rule: byte_xor_induct)
  case 1
  have "fold (\<lambda>b v. rabin_push v b) (replicate n 0) 0 = 0" for n
    by (induction n) (simp_all add: rabin_push_0)
  from this [of 15] show ?case by (simp add: rabin_push_0 U_tab_def)
next
  case (2 k)
  then have "k = 0 \<or> k = 1 \<or> k = 2 \<or> k = 3 \<or> k = 4 \<or> k = 5 \<or> k = 6 \<or> k = 7" by linarith
  then show ?case by (elim disjE) (simp_all add: rabin_fold_single del: fold.simps)
next
  case (3 b c)
  have "(b XOR c) # replicate 15 0 = map2 (XOR) (b # replicate 15 0) (c # replicate 15 (0 :: byte))"
    by (simp add: zip_replicate)
  with 3 show ?case
    using fold_push_xor [of "b # replicate 15 0" "c # replicate 15 0" 0 0] by (simp add: unsigned_xor_eq U_tab_xor)
qed

lemma map2_xor_zero: "map2 (XOR) bs (replicate (length bs) 0) = (bs :: bytes)"
  by (induction bs) simp_all

lemma rabin_roll:
  assumes "length bs = 15"
  shows "rabin_push (fold (\<lambda>b v. rabin_push v b) (b # bs) 0 XOR U_tab ! unat b) c
       = fold (\<lambda>b v. rabin_push v b) (bs @ [c]) 0"
proof -
  have "map2 (XOR) (b # bs) (b # replicate 15 0) = 0 # bs"
    using assms map2_xor_zero [of bs] by simp
  then have "fold (\<lambda>b v. rabin_push v b) (b # bs) 0 XOR U_tab ! unat b = fold (\<lambda>b v. rabin_push v b) (0 # bs) 0"
    using fold_push_xor [of "b # bs" "b # replicate 15 0" 0 0] assms by (simp add: U_tab_eq)
  then show ?thesis by (simp add: rabin_push_0)
qed

lemma rabin_hash_eq:
  assumes "pos + RABIN_WINDOW \<le> length buf"
  shows "rabin_hash buf pos = fold (\<lambda>b v. rabin_push v b) (take RABIN_WINDOW (drop pos buf)) 0"
proof -
  have "take RABIN_WINDOW (drop pos buf) = map (\<lambda>j. buf ! (pos + j)) [0..<RABIN_WINDOW]"
    using assms by (intro nth_equalityI) simp_all
  then show ?thesis by (simp add: rabin_hash_def fold_map comp_def)
qed

lemma rabin_hash_roll:
  assumes "pos + RABIN_WINDOW < length buf"
  shows "rabin_push (rabin_hash buf pos XOR U_tab ! unat (buf ! pos)) (buf ! (pos + RABIN_WINDOW))
         = rabin_hash buf (Suc pos)"
proof -
  let ?bs = "take 15 (drop (Suc pos) buf)"
  have "take RABIN_WINDOW (drop pos buf) = buf ! pos # ?bs"
    using assms by (simp add: RABIN_WINDOW_def numeral_eq_Suc flip: Cons_nth_drop_Suc)
  moreover have "take RABIN_WINDOW (drop (Suc pos) buf) = ?bs @ [buf ! (pos + RABIN_WINDOW)]"
    using assms take_Suc_conv_app_nth [of 15 "drop (Suc pos) buf"]
    by (simp add: RABIN_WINDOW_def numeral_eq_Suc)
  moreover have "length ?bs = 15" using assms by (simp add: RABIN_WINDOW_def)
  ultimately show ?thesis using assms by (simp only: rabin_hash_eq rabin_roll less_imp_le Suc_leI add_Suc)
qed

lemma rabin_hash_bound: "pos + RABIN_WINDOW \<le> length buf \<Longrightarrow> unat (rabin_hash buf pos) < 2 ^ 31"
  by (simp only: rabin_hash_eq) (rule rabin_fold_bound, simp)

end
