(* ===== verification/Diff_Delta.thy ===== *)
theory Diff_Delta
  imports Delta_Format Rabin_Window
begin

unbundle bit_operations_syntax

text \<open>
  \<open>diff-delta.c\<close>: \<open>create_delta_index\<close> and \<open>create_delta\<close>.

  Pointers into the source and target buffers are indices.  A hash bucket, which the code
  builds as a linked list of \<open>unpacked_index_entry\<close>, is a list with the newest entry first; the
  entry \<open>entry[-1]\<close> whose pointer a repeated block moves is the head of the bucket of
  \<open>prev_val\<close>.  Following \<open>next\<close> past the end of a list, which the culling loop must never do,
  is \<open>None\<close>.  The packed index keeps the code's array of bucket starts with its sentinel.
  The output buffer \<open>out\<close> of \<open>create_delta\<close> is the list of its first \<open>outpos\<close> bytes; a reserved
  count slot holds 0 until the count is stored.  The \<open>unsigned int\<close> truncations of
  \<open>ref_size\<close> and \<open>left\<close> are written out.  The main loop takes one unit of fuel per iteration;
  every iteration advances \<open>data\<close>, so the length of the target is enough.
\<close>

section \<open>Indexing the source buffer\<close>

definition HASH_LIMIT :: nat where
  "HASH_LIMIT = 64"

record index_entry =
  ent_ptr :: nat
  ent_val :: u32

record delta_index =
  di_src_buf :: bytes
  di_src_size :: nat
  di_hash_mask :: u32
  di_hash :: "nat list"
  di_packed :: "index_entry list"

record index_state =
  ix_prev_val :: u32
  ix_hash :: "index_entry list list"
  ix_hash_count :: "nat list"
  ix_entries :: nat

definition index_entries :: "nat \<Rightarrow> nat" where
  "index_entries bufsize =
     (if 0xffffffff \<le> bufsize then 0xfffffffe div RABIN_WINDOW
      else (bufsize - 1) div RABIN_WINDOW)"

function hash_bits :: "nat \<Rightarrow> nat \<Rightarrow> nat" where
  "hash_bits i hsize = (if 2 ^ i < hsize then hash_bits (Suc i) hsize else i)"
  by pat_completeness auto
termination
proof (relation "measure (\<lambda>(i, hsize). hsize - 2 ^ i)", goal_cases)
  case (2 i hsize)
  moreover have "(2::nat) ^ i < 2 ^ Suc i" by simp
  ultimately show ?case by (simp add: diff_less_mono2)
qed simp

declare hash_bits.simps [simp del]

definition index_block :: "bytes \<Rightarrow> u32 \<Rightarrow> nat \<Rightarrow> index_state \<Rightarrow> index_state" where
  "index_block buf hmask k st =
     (let data = k * RABIN_WINDOW; val = rabin_hash buf (data + 1) in
      if val = ix_prev_val st then
        (let i = unat (ix_prev_val st AND hmask) in
         st\<lparr>ix_hash := (case ix_hash st ! i of
                          [] \<Rightarrow> ix_hash st
                        | e # es \<Rightarrow> (ix_hash st)[i := e\<lparr>ent_ptr := data + RABIN_WINDOW\<rparr> # es]),
            ix_entries := ix_entries st - 1\<rparr>)
      else
        (let i = unat (val AND hmask);
             entry = \<lparr>ent_ptr = data + RABIN_WINDOW, ent_val = val\<rparr> in
         st\<lparr>ix_prev_val := val,
            ix_hash := (ix_hash st)[i := entry # ix_hash st ! i],
            ix_hash_count := (ix_hash_count st)[i := Suc (ix_hash_count st ! i)]\<rparr>))"

fun cull_skip :: "int \<Rightarrow> 'a list \<Rightarrow> (int \<times> 'a list) option" where
  "cull_skip acc [] = None"
| "cull_skip acc (entry # next) =
     (let acc = acc - int HASH_LIMIT in
      if 0 < acc then cull_skip acc next else Some (acc, next))"

lemma cull_skip_length: "cull_skip acc es = Some (acc', es') \<Longrightarrow> length es' < length es"
  by (induction acc es rule: cull_skip.induct) (auto simp: Let_def split: if_splits)

function cull :: "nat \<Rightarrow> int \<Rightarrow> 'a list \<Rightarrow> 'a list option" where
  "cull n acc [] = None"
| "cull n acc (entry # next) =
     (let acc = acc + (int n - int HASH_LIMIT) in
      case (if 0 < acc then cull_skip acc next else Some (acc, next)) of
        None \<Rightarrow> None
      | Some (acc, next) \<Rightarrow>
          if next = [] then Some [entry]
          else map_option (Cons entry) (cull n acc next))"
  by pat_completeness auto
termination
  by (relation "measure (\<lambda>(n, acc, es). length es)")
    (auto split: if_splits dest!: cull_skip_length)

fun cull_buckets :: "nat list \<Rightarrow> index_entry list list \<Rightarrow> nat \<Rightarrow> (index_entry list list \<times> nat) option" where
  "cull_buckets (n # ns) (b # bs) n_entries =
     (if n \<le> HASH_LIMIT then map_option (apfst (Cons b)) (cull_buckets ns bs n_entries)
      else (case cull n 0 b of
              None \<Rightarrow> None
            | Some b' \<Rightarrow> map_option (apfst (Cons b')) (cull_buckets ns bs (n_entries - (n - HASH_LIMIT)))))"
| "cull_buckets _ _ n_entries = Some ([], n_entries)"

fun pack_buckets :: "index_entry list list \<Rightarrow> index_entry list \<Rightarrow> nat list \<times> index_entry list" where
  "pack_buckets [] packed = ([length packed], packed)"
| "pack_buckets (b # bs) packed = apfst (Cons (length packed)) (pack_buckets bs (packed @ b))"

definition create_delta_index :: "bytes \<Rightarrow> (delta_index \<times> nat) option" where
  "create_delta_index buf =
     (if buf = [] then None
      else
        (let n = index_entries (length buf);
             hsize = 2 ^ hash_bits 4 (n div 4);
             hmask = of_nat hsize - 1;
             st = fold (index_block buf hmask) (rev [0..<n])
                    \<lparr>ix_prev_val = NOT 0, ix_hash = replicate hsize [],
                     ix_hash_count = replicate hsize 0, ix_entries = n\<rparr>
         in case cull_buckets (ix_hash_count st) (ix_hash st) (ix_entries st) of
              None \<Rightarrow> None
            | Some (bs, n_entries) \<Rightarrow>
                (let (ph, pe) = pack_buckets bs [] in
                 Some (\<lparr>di_src_buf = buf, di_src_size = length buf, di_hash_mask = hmask,
                        di_hash = ph, di_packed = pe\<rparr>, n_entries))))"

section \<open>Computing a delta\<close>

definition MAX_OP_SIZE :: nat where
  "MAX_OP_SIZE = 5 + 5 + 1 + RABIN_WINDOW + 7"

record delta_state =
  d_out :: bytes
  d_outsize :: nat
  d_data :: nat
  d_inscnt :: int
  d_val :: u32
  d_moff :: nat
  d_msize :: nat

primrec match_run :: "nat \<Rightarrow> bytes \<Rightarrow> nat \<Rightarrow> bytes \<Rightarrow> nat \<Rightarrow> nat" where
  "match_run 0 trg src ref_data ref = ref"
| "match_run (Suc ref_size) trg src ref_data ref =
     (if trg ! src = ref_data ! ref then match_run ref_size trg (Suc src) ref_data (Suc ref)
      else ref)"

definition match_limit :: "bytes \<Rightarrow> bytes \<Rightarrow> nat \<Rightarrow> nat \<Rightarrow> nat" where
  "match_limit ref_data trg data ref =
     (let ref_size = (length ref_data - ref) mod 2 ^ 32 in
      if length trg - data < ref_size then length trg - data else ref_size)"

fun find_match :: "bytes \<Rightarrow> bytes \<Rightarrow> nat \<Rightarrow> u32 \<Rightarrow> index_entry list \<Rightarrow> nat \<Rightarrow> nat \<Rightarrow> nat \<times> nat" where
  "find_match ref_data trg data val [] moff msize = (moff, msize)"
| "find_match ref_data trg data val (entry # rest) moff msize =
     (let ref_size = match_limit ref_data trg data (ent_ptr entry) in
      if ent_val entry \<noteq> val then find_match ref_data trg data val rest moff msize
      else if ref_size \<le> msize then (moff, msize)
      else
        (let ref = match_run ref_size trg data ref_data (ent_ptr entry) in
         if msize < ref - ent_ptr entry then
           (let msize = ref - ent_ptr entry; moff = ent_ptr entry in
            if 4096 \<le> msize then (moff, msize)
            else find_match ref_data trg data val rest moff msize)
         else find_match ref_data trg data val rest moff msize))"

definition delta_roll :: "bytes \<Rightarrow> delta_state \<Rightarrow> u32" where
  "delta_roll trg st =
     rabin_push (d_val st XOR U_tab ! unat (trg ! (d_data st - RABIN_WINDOW))) (trg ! d_data st)"

definition index_bucket :: "delta_index \<Rightarrow> u32 \<Rightarrow> index_entry list" where
  "index_bucket index val =
     (let i = unat (val AND di_hash_mask index) in
      take (di_hash index ! (i + 1) - di_hash index ! i) (drop (di_hash index ! i) (di_packed index)))"

definition delta_search :: "delta_index \<Rightarrow> bytes \<Rightarrow> delta_state \<Rightarrow> delta_state" where
  "delta_search index trg st =
     (if d_msize st < 4096 then
        (let val = delta_roll trg st;
             (moff, msize) = find_match (di_src_buf index) trg (d_data st) val (index_bucket index val)
                               (d_moff st) (d_msize st)
         in st\<lparr>d_val := val, d_moff := moff, d_msize := msize\<rparr>)
      else st)"

definition set_inscnt :: "delta_state \<Rightarrow> delta_state" where
  "set_inscnt st =
     st\<lparr>d_out := (d_out st)[nat (int (length (d_out st)) - d_inscnt st - 1) := of_int (d_inscnt st)],
        d_inscnt := 0\<rparr>"

definition delta_literal :: "bytes \<Rightarrow> delta_state \<Rightarrow> delta_state" where
  "delta_literal trg st =
     (let out = (if d_inscnt st = 0 then d_out st @ [0] else d_out st);
          st = st\<lparr>d_out := out @ [trg ! d_data st], d_data := d_data st + 1,
                  d_inscnt := d_inscnt st + 1\<rparr>;
          st = (if d_inscnt st = 0x7f then set_inscnt st else st)
      in st\<lparr>d_msize := 0\<rparr>)"

function match_back :: "bytes \<Rightarrow> bytes \<Rightarrow> delta_state \<Rightarrow> delta_state" where
  "match_back ref_data trg st =
     (if d_moff st \<noteq> 0 \<and> ref_data ! (d_moff st - 1) = trg ! (d_data st - 1) then
        (let st = st\<lparr>d_msize := d_msize st + 1, d_moff := d_moff st - 1, d_data := d_data st - 1,
                     d_out := butlast (d_out st), d_inscnt := d_inscnt st - 1\<rparr> in
         if d_inscnt st \<noteq> 0 then match_back ref_data trg st
         else st\<lparr>d_out := butlast (d_out st), d_inscnt := d_inscnt st - 1\<rparr>)
      else st)"
  by pat_completeness auto
termination by (relation "measure (\<lambda>(r, t, st). d_moff st)") auto

declare match_back.simps [simp del]

definition delta_flush :: "bytes \<Rightarrow> bytes \<Rightarrow> delta_state \<Rightarrow> delta_state" where
  "delta_flush ref_data trg st =
     (if d_inscnt st \<noteq> 0 then set_inscnt (match_back ref_data trg st) else st)"

definition delta_copy :: "delta_index \<Rightarrow> bytes \<Rightarrow> delta_state \<Rightarrow> delta_state" where
  "delta_copy index trg st =
     (let st = delta_flush (di_src_buf index) trg st;
          left = (if d_msize st < 0x10000 then 0 else (d_msize st - 0x10000) mod 2 ^ 32);
          msize = d_msize st - left;
          out = d_out st @ emit_copy (d_moff st) msize;
          data = d_data st + msize;
          moff = d_moff st + msize;
          msize = (if 0xffffffff < moff then 0 else left);
          val = (if msize < 4096 then rabin_hash trg (data - RABIN_WINDOW) else d_val st)
      in st\<lparr>d_out := out, d_data := data, d_moff := moff, d_msize := msize, d_val := val\<rparr>)"

definition delta_resize :: "nat \<Rightarrow> delta_state \<Rightarrow> delta_state \<times> bool" where
  "delta_resize max_size st =
     (if d_outsize st - MAX_OP_SIZE \<le> length (d_out st) then
        (let outsize = d_outsize st * 3 div 2;
             outsize = (if max_size \<noteq> 0 \<and> max_size \<le> outsize then max_size + MAX_OP_SIZE + 1 else outsize)
         in (st\<lparr>d_outsize := outsize\<rparr>, max_size \<noteq> 0 \<and> max_size < length (d_out st)))
      else (st, False))"

definition delta_step :: "delta_index \<Rightarrow> bytes \<Rightarrow> nat \<Rightarrow> delta_state \<Rightarrow> delta_state \<times> bool" where
  "delta_step index trg max_size st =
     (let st = delta_search index trg st;
          st = (if d_msize st < 4 then delta_literal trg st else delta_copy index trg st)
      in delta_resize max_size st)"

fun delta_loop :: "nat \<Rightarrow> delta_index \<Rightarrow> bytes \<Rightarrow> nat \<Rightarrow> delta_state \<Rightarrow> delta_state option" where
  "delta_loop fuel index trg max_size st =
     (if d_data st < length trg then
        (case fuel of
           0 \<Rightarrow> None
         | Suc fuel \<Rightarrow>
             (case delta_step index trg max_size st of
                (st, True) \<Rightarrow> Some st
              | (st, False) \<Rightarrow> delta_loop fuel index trg max_size st))
      else Some st)"

declare delta_loop.simps [simp del]

definition delta_start :: "delta_index \<Rightarrow> bytes \<Rightarrow> nat \<Rightarrow> delta_state" where
  "delta_start index trg max_size =
     (let outsize = (if max_size \<noteq> 0 \<and> max_size \<le> 8192 then max_size + MAX_OP_SIZE + 1 else 8192);
          out = put_hdr_size (di_src_size index) @ put_hdr_size (length trg);
          first = take RABIN_WINDOW trg
      in \<lparr>d_out = out @ [0] @ first, d_outsize = outsize, d_data = length first,
          d_inscnt = int (length first), d_val = fold (\<lambda>b val. rabin_push val b) first 0,
          d_moff = 0, d_msize = 0\<rparr>)"

definition create_delta :: "delta_index \<Rightarrow> bytes \<Rightarrow> nat \<Rightarrow> bytes option" where
  "create_delta index trg max_size =
     (if trg = [] then None
      else case delta_loop (length trg) index trg max_size (delta_start index trg max_size) of
        None \<Rightarrow> None
      | Some st \<Rightarrow>
          (let st = (if d_inscnt st \<noteq> 0 then set_inscnt st else st) in
           if max_size \<noteq> 0 \<and> max_size < length (d_out st) then None
           else Some (d_out st)))"

definition diff_delta :: "bytes \<Rightarrow> bytes \<Rightarrow> nat \<Rightarrow> bytes option" where
  "diff_delta src trg max_size =
     (case create_delta_index src of
        None \<Rightarrow> None
      | Some (index, _) \<Rightarrow> create_delta index trg max_size)"

end
