(* ===== verification/Diff_Delta_Correct.thy ===== *)
theory Diff_Delta_Correct
  imports Diff_Delta
begin

unbundle bit_operations_syntax

text \<open>
  Correctness of \<open>diff-delta.c\<close>.  The index: every bucket is culled to \<open>HASH_LIMIT\<close> entries,
  the packed array has exactly the counted number of entries, every entry points into the
  source.  The delta: the loop of \<open>create_delta\<close> keeps an invariant that reads the output as
  whole instructions followed by a pending literal run that together rebuild the part of the
  target already scanned; so \<open>patch_delta\<close> applied to the result gives the target.  The states
  of the loop form a step relation whose reachable states hash the right window and never
  write past the allocated buffer.
\<close>

section \<open>The index\<close>

lemma cull_skip_spec:
  assumes "0 < acc" and "acc \<le> 64 * int (length es)"
  shows "\<exists>r. cull_skip acc es = Some (acc - 64 * int r, drop r es) \<and> r \<le> length es \<and>
           - 64 < acc - 64 * int r \<and> acc - 64 * int r \<le> 0"
  using assms
proof (induction acc es rule: cull_skip.induct)
  case (1 acc)
  then show ?case by simp
next
  case (2 acc e es)
  show ?case
  proof (cases "0 < acc - 64")
    case True
    with 2 obtain r where "cull_skip (acc - 64) es = Some (acc - 64 - 64 * int r, drop r es)" "r \<le> length es"
      "- 64 < acc - 64 - 64 * int r" "acc - 64 - 64 * int r \<le> 0"
      by (auto simp: HASH_LIMIT_def)
    with True show ?thesis by (intro exI [of _ "Suc r"]) (simp add: HASH_LIMIT_def)
  next
    case False
    with "2.prems" show ?thesis by (intro exI [of _ 1]) (simp add: HASH_LIMIT_def)
  qed
qed

lemma cull_spec:
  assumes "64 < n" and "0 < j" and "- 64 < acc" and "acc \<le> 0"
    and "acc + int j * (int n - 64) = 64 * int (length es) - 64 * int j"
  shows "\<exists>es'. cull n acc es = Some es' \<and> length es' = j \<and> set es' \<subseteq> set es"
  using assms(2-)
proof (induction "length es" arbitrary: j acc es rule: less_induct)
  case less
  let ?d = "int n - 64"
  have "0 \<le> (int j - 1) * ?d" using less.prems(1) assms(1) by (intro mult_nonneg_nonneg) auto
  moreover have "int j * ?d = (int j - 1) * ?d + ?d" by (simp add: algebra_simps)
  ultimately have le: "acc + ?d \<le> 64 * int (length es) - 64 * int j" 
    and eq1: "acc + ?d + (int j - 1) * ?d = 64 * int (length es) - 64 * int j" using less.prems(4) by linarith+
  have "64 * int j < 64 * int (length es) + 64" using le less.prems(2) assms(1) by linarith
  then have lj: "j \<le> length es" by linarith
  with less.prems(1) obtain e nx where es: "es = e # nx" by (cases es) auto
  have "\<exists>r. (if 0 < acc + ?d then cull_skip (acc + ?d) nx else Some (acc + ?d, nx)) = Some (acc + ?d - 64 * int r, drop r nx) \<and>
    r \<le> length es - j \<and> - 64 < acc + ?d - 64 * int r \<and> acc + ?d - 64 * int r \<le> 0"
  proof (cases "0 < acc + ?d")
    case True
    have "acc + ?d \<le> 64 * int (length nx)" using le less.prems(1) es lj by simp
    from cull_skip_spec [OF True this] obtain r where r: "cull_skip (acc + ?d) nx = Some (acc + ?d - 64 * int r, drop r nx)"
      "- 64 < acc + ?d - 64 * int r" "acc + ?d - 64 * int r \<le> 0" by blast
    have "int r \<le> int (length es) - int j" using r(2) le by linarith
    with r True lj show ?thesis by (intro exI [of _ r]) auto
  next
    case False
    with less.prems(2) assms(1) show ?thesis by (intro exI [of _ 0]) auto
  qed
  then obtain r where r: "(if 0 < acc + ?d then cull_skip (acc + ?d) nx else Some (acc + ?d, nx)) = Some (acc + ?d - 64 * int r, drop r nx)"
    "r \<le> length es - j" "- 64 < acc + ?d - 64 * int r" "acc + ?d - 64 * int r \<le> 0" by blast
  have step: "cull n acc es = (if drop r nx = [] then Some [e] else map_option (Cons e) (cull n (acc + ?d - 64 * int r) (drop r nx)))"
    using r(1) by (simp add: es Let_def HASH_LIMIT_def)
  show ?case
  proof (cases "j = 1")
    case True
    with eq1 have "acc + ?d = 64 * int (length es) - 64" by simp
    with r(2-4) True es have "r = length nx" by auto
    with True es step show ?thesis by simp
  next
    case False
    with less.prems(1) have j: "1 < j" by simp
    let ?es = "drop r nx"
    have len: "int (length ?es) = int (length es) - 1 - int r" using r(2) es j lj by (simp add: of_nat_diff)
    have ne: "?es \<noteq> []" using r(2) j es lj by auto
    have "acc + ?d - 64 * int r + int (j - 1) * ?d = 64 * int (length ?es) - 64 * int (j - 1)"
      using eq1 len j by (simp add: of_nat_diff algebra_simps)
    moreover have "length ?es < length es" "0 < j - 1" using es j by simp_all
    ultimately obtain es' where
      "cull n (acc + ?d - 64 * int r) ?es = Some es'" "length es' = j - 1" "set es' \<subseteq> set ?es" using less.hyps [of ?es "j - 1" "acc + ?d - 64 * int r"] r(3,4) by blast
    moreover from this have "cull n acc es = Some (e # es')" unfolding step using ne by simp
    ultimately show ?thesis using j set_drop_subset [of r nx] by (intro exI [of _ "e # es'"]) (auto simp: es)
  qed
qed

lemma cull_limit:
  "HASH_LIMIT < length es \<Longrightarrow> \<exists>es'. cull (length es) 0 es = Some es' \<and> length es' = HASH_LIMIT \<and> set es' \<subseteq> set es"
  using cull_spec [of "length es" 64 0 es] by (simp add: HASH_LIMIT_def)

lemma cull_buckets_spec:
  assumes "ns = map length bs" and "sum_list ns \<le> n"
  shows "\<exists>bs'. cull_buckets ns bs n = Some (bs', n - (sum_list ns - sum_list (map length bs'))) \<and> length bs' = length bs \<and>
    (\<forall>b \<in> set bs'. length b \<le> HASH_LIMIT) \<and> set (concat bs') \<subseteq> set (concat bs) \<and> sum_list (map length bs') \<le> sum_list ns"
  using assms
proof (induction bs arbitrary: ns n)
  case Nil
  then show ?case by simp
next
  case (Cons b bs)
  let ?ns = "map length bs"
  obtain b' m where b': "cull_buckets ns (b # bs) n = map_option (apfst (Cons b')) (cull_buckets ?ns bs m)"
    "length b' \<le> HASH_LIMIT" "set b' \<subseteq> set b" "m = n - (length b - length b')" "length b' \<le> length b"
  proof (cases "length b \<le> HASH_LIMIT")
    case True
    show ?thesis by (rule that [of b n]) (use True Cons.prems in simp_all)
  next
    case False
    with cull_limit [of b] obtain b' where "cull (length b) 0 b = Some b'" "length b' = HASH_LIMIT" "set b' \<subseteq> set b" by auto
    then show ?thesis by (intro that [of b' "n - (length b - HASH_LIMIT)"]) (use False Cons.prems in simp_all)
  qed
  have le: "sum_list ?ns \<le> m" using Cons.prems b'(4) by simp
  from Cons.IH [OF refl le] obtain bs' where
    bs': "cull_buckets ?ns bs m = Some (bs', m - (sum_list ?ns - sum_list (map length bs')))" "length bs' = length bs"
    "\<forall>b \<in> set bs'. length b \<le> HASH_LIMIT" "set (concat bs') \<subseteq> set (concat bs)" "sum_list (map length bs') \<le> sum_list ?ns" by blast
  have "m - (sum_list ?ns - sum_list (map length bs')) = n - (sum_list ns - sum_list (map length (b' # bs')))"
    using Cons.prems b'(4,5) bs'(5) by simp
  with b' bs' Cons.prems show ?case by (intro exI [of _ "b' # bs'"]) auto
qed

lemma pack_buckets_spec:
  "pack_buckets bs packed = (map (\<lambda>i. length packed + length (concat (take i bs))) [0..<Suc (length bs)], packed @ concat bs)"
proof (induction bs arbitrary: packed)
  case (Cons b bs)
  have "[0..<Suc (length (b # bs))] = 0 # map Suc [0..<Suc (length bs)]" by (simp add: map_Suc_upt upt_conv_Cons del: upt_Suc)
  with Cons show ?case by (simp add: o_def add.assoc del: upt_Suc)
qed simp


definition index_inv :: "bytes \<Rightarrow> nat \<Rightarrow> nat \<Rightarrow> nat \<Rightarrow> index_state \<Rightarrow> bool" where
  "index_inv buf n hsize todo st \<longleftrightarrow>
     length (ix_hash st) = hsize \<and> ix_hash_count st = map length (ix_hash st) \<and>
     ix_entries st = todo + sum_list (map length (ix_hash st)) \<and>
     (\<forall>e \<in> set (concat (ix_hash st)). ent_ptr e \<le> n * RABIN_WINDOW)"

lemma sum_list_map_length_update:
  "i < length bs \<Longrightarrow> sum_list (map length (bs[i := b])) + length (bs ! i) = sum_list (map length bs) + length b"
proof (induction bs arbitrary: i)
  case (Cons c bs)
  then show ?case by (cases i) auto
qed simp

lemma unat_and_mask_less: "0 < hsize \<Longrightarrow> hsize \<le> 2 ^ 31 \<Longrightarrow> unat ((v :: u32) AND (of_nat hsize - 1)) < hsize"
proof -
  assume h: "0 < hsize" "hsize \<le> 2 ^ 31"
  have "unat (v AND (of_nat hsize - 1)) \<le> unat (of_nat hsize - 1 :: u32)"
    using word_and_le1 [of v "of_nat hsize - 1"] by (simp add: word_le_nat_alt)
  also have "\<dots> = hsize - 1"
  proof -
    have "of_nat hsize - 1 = (of_nat (hsize - 1) :: u32)" using h by (simp add: of_nat_diff)
    moreover have "unat (of_nat (hsize - 1) :: u32) = hsize - 1" using h by (subst unat_of_nat) simp
    ultimately show ?thesis by simp
  qed
  finally show ?thesis using h by simp
qed

lemma ball_concat_update:
  assumes "\<forall>x \<in> set (concat bs). P x" and "\<forall>x \<in> set b. P x"
  shows "\<forall>x \<in> set (concat (bs[i := b])). P x"
  using assms set_update_subset_insert [of bs i b] by auto

lemma index_block_inv:
  assumes "index_inv buf n hsize (Suc todo) st" and "0 < hsize" and "hsize \<le> 2 ^ 31" and "k < n"
  shows "index_inv buf n hsize todo (index_block buf (of_nat hsize - 1) k st)"
proof -
  let ?v = "rabin_hash buf (k * RABIN_WINDOW + 1)"
  let ?i = "unat (?v AND (of_nat hsize - 1))"
  have i: "?i < length (ix_hash st)" using unat_and_mask_less [OF assms(2,3)] assms(1) by (simp add: index_inv_def)
  have p: "k * RABIN_WINDOW + RABIN_WINDOW \<le> n * RABIN_WINDOW" using assms(4) by (simp add: RABIN_WINDOW_def)
  show ?thesis
  proof (cases "?v = ix_prev_val st")
    case True
    show ?thesis
    proof (cases "ix_hash st ! ?i")
      case Nil
      with True assms(1) show ?thesis by (simp add: index_inv_def index_block_def Let_def)
    next
      case (Cons e es)
      let ?b = "e\<lparr>ent_ptr := k * RABIN_WINDOW + RABIN_WINDOW\<rparr> # es"
      have "map length ((ix_hash st)[?i := ?b]) = map length (ix_hash st)"
        using Cons i by (metis length_Cons list_update_id map_update nth_map)
      moreover have "\<forall>x \<in> set (concat ((ix_hash st)[?i := ?b])). ent_ptr x \<le> n * RABIN_WINDOW"
      proof -
        have "set es \<subseteq> set (concat (ix_hash st))" using i Cons nth_mem [OF i] by auto
        then show ?thesis using assms(1) p by (intro ball_concat_update) (auto simp: index_inv_def)
      qed
      ultimately show ?thesis using True assms(1) Cons by (simp add: index_inv_def index_block_def Let_def)
    qed
  next
    case False
    let ?e = "\<lparr>ent_ptr = k * RABIN_WINDOW + RABIN_WINDOW, ent_val = ?v\<rparr>"
    let ?b = "?e # ix_hash st ! ?i"
    have "sum_list (map length ((ix_hash st)[?i := ?b])) = Suc (sum_list (map length (ix_hash st)))"
      using sum_list_map_length_update [OF i, of ?b] by simp
    moreover have "(map length (ix_hash st))[?i := Suc (length (ix_hash st ! ?i))] = map length ((ix_hash st)[?i := ?b])"
      by (simp add: map_update)
    moreover have "\<forall>x \<in> set (concat ((ix_hash st)[?i := ?b])). ent_ptr x \<le> n * RABIN_WINDOW"
    proof -
      have "set (ix_hash st ! ?i) \<subseteq> set (concat (ix_hash st))" unfolding set_concat using nth_mem [OF i] by blast
      then show ?thesis using assms(1) p by (intro ball_concat_update) (auto simp: index_inv_def)
    qed
    ultimately show ?thesis using False assms(1) i by (simp add: index_inv_def index_block_def Let_def)
  qed
qed

lemma index_fold_inv:
  assumes "index_inv buf n hsize (length ks) st" and "0 < hsize" and "hsize \<le> 2 ^ 31" and "\<forall>k \<in> set ks. k < n"
  shows "index_inv buf n hsize 0 (fold (index_block buf (of_nat hsize - 1)) ks st)"
  using assms
  by (induction ks arbitrary: st) (auto simp: index_block_inv)

lemma hash_bits_bound: "h \<le> 2 ^ k \<Longrightarrow> i \<le> k \<Longrightarrow> hash_bits i h \<le> k"
proof (induction i h rule: hash_bits.induct)
  case (1 i h)
  show ?case
  proof (cases "2 ^ i < h")
    case True
    with "1.prems" have "(2::nat) ^ i < 2 ^ k" by linarith
    then have "i < k" by simp
    with True "1.IH" "1.prems" show ?thesis by (simp add: hash_bits.simps [of i])
  next
    case False
    with "1.prems" show ?thesis by (simp add: hash_bits.simps [of i])
  qed
qed

lemma index_entries_bound:
  "buf \<noteq> [] \<Longrightarrow> index_entries (length buf) * RABIN_WINDOW < length buf" 
  "index_entries (length buf) * RABIN_WINDOW < 2 ^ 32" "index_entries (length buf) \<le> 2 ^ 28"
proof -
  let ?l = "length buf"
  have a: "(?l - 1) div 16 * 16 \<le> ?l - 1" by simp
  have b: "\<not> 0xffffffff \<le> ?l \<Longrightarrow> (?l - 1) div 16 * 16 < 2 ^ 32" using a by (simp add: linorder_not_le)
  have c: "\<not> 0xffffffff \<le> ?l \<Longrightarrow> (?l - 1) div 16 \<le> 2 ^ 28" using b by simp
  show "buf \<noteq> [] \<Longrightarrow> index_entries (length buf) * RABIN_WINDOW < length buf"
    using a by (cases buf) (auto simp: index_entries_def RABIN_WINDOW_def)
  show "index_entries (length buf) * RABIN_WINDOW < 2 ^ 32" 
    using b by (auto simp: index_entries_def RABIN_WINDOW_def)
  show "index_entries (length buf) \<le> 2 ^ 28"
    using c by (auto simp: index_entries_def RABIN_WINDOW_def)
qed

lemma index_bucket_eq:
  assumes "di_hash_mask index = of_nat hsize - 1" and "0 < hsize" and "hsize \<le> 2 ^ 31" and "length bs = hsize"
    and "di_hash index = map (\<lambda>i. length (concat (take i bs))) [0..<Suc hsize]" and "di_packed index = concat bs"
  shows "index_bucket index v = bs ! unat (v AND (of_nat hsize - 1))"
proof -
  let ?i = "unat (v AND (of_nat hsize - 1))"
  have i: "?i < length bs" using unat_and_mask_less [OF assms(2,3)] assms(4) by simp
  have "concat bs = concat (take ?i bs) @ bs ! ?i @ concat (drop (Suc ?i) bs)"
    by (metis append_take_drop_id concat.simps(2) concat_append Cons_nth_drop_Suc [OF i])
  moreover have "concat (take (Suc ?i) bs) = concat (take ?i bs) @ bs ! ?i"
    using i by (simp add: take_Suc_conv_app_nth)
  ultimately show ?thesis
    using i assms(4) by (simp add: index_bucket_def assms(1,5,6) Let_def nth_append del: upt_Suc)
qed

lemma create_delta_index_spec:
  assumes "buf \<noteq> []"
  shows "\<exists>index n. create_delta_index buf = Some (index, n) \<and> di_src_buf index = buf \<and> di_src_size index = length buf \<and>
    length (di_packed index) = n \<and>
    (\<forall>e \<in> set (di_packed index). ent_ptr e < length buf \<and> ent_ptr e < 2 ^ 32) \<and>
    (\<forall>v. length (index_bucket index v) \<le> HASH_LIMIT)"
proof -
  define n where "n = index_entries (length buf)"
  define hsize where "hsize = (2::nat) ^ hash_bits 4 (n div 4)"
  have n: "n * RABIN_WINDOW < length buf" "n * RABIN_WINDOW < 2 ^ 32" "n \<le> 2 ^ 28"
    unfolding n_def using index_entries_bound [of buf] assms by simp_all
  have "n div 4 \<le> 2 ^ 28" using n(3) by linarith
  then have "hash_bits 4 (n div 4) \<le> 28" by (rule hash_bits_bound) simp
  then have h: "0 < hsize" "hsize \<le> 2 ^ 31"
    unfolding hsize_def by (simp, intro power_increasing) auto
  let ?st0 = "\<lparr>ix_prev_val = NOT 0, ix_hash = replicate hsize [], ix_hash_count = replicate hsize 0, ix_entries = n\<rparr>"
  define st where "st = fold (index_block buf (of_nat hsize - 1)) (rev [0..<n]) ?st0"
  have "index_inv buf n hsize (length (rev [0..<n])) ?st0"
    by (simp add: index_inv_def map_replicate_const sum_list_replicate)
  from index_fold_inv [OF this h] have inv: "index_inv buf n hsize 0 st" by (simp add: st_def)
  from cull_buckets_spec [of "ix_hash_count st" "ix_hash st" "ix_entries st"] inv obtain bs where
    bs: "cull_buckets (ix_hash_count st) (ix_hash st) (ix_entries st) = Some (bs, sum_list (map length bs))"
    "length bs = hsize" "\<forall>b \<in> set bs. length b \<le> HASH_LIMIT" "set (concat bs) \<subseteq> set (concat (ix_hash st))"
    by (auto simp: index_inv_def)
  define index where "index = \<lparr>di_src_buf = buf, di_src_size = length buf, di_hash_mask = of_nat hsize - 1,
    di_hash = map (\<lambda>i. length (concat (take i bs))) [0..<Suc hsize], di_packed = concat bs\<rparr>"
  have cr: "create_delta_index buf = Some (index, sum_list (map length bs))"
    unfolding create_delta_index_def Let_def n_def [symmetric] hsize_def [symmetric] st_def [symmetric]
    using assms bs(1,2) by (simp add: pack_buckets_spec index_def del: upt_Suc)
  have bucket: "index_bucket index v = bs ! unat (v AND (of_nat hsize - 1))" for v
    using h bs(2) by (intro index_bucket_eq) (simp_all add: index_def del: upt_Suc)
  have "length (index_bucket index v) \<le> HASH_LIMIT" for v
    using bs(2,3) unat_and_mask_less [OF h, of v] by (simp add: bucket)
  moreover have "\<forall>e \<in> set (di_packed index). ent_ptr e < length buf \<and> ent_ptr e < 2 ^ 32"
    using bs(4) inv n by (fastforce simp: index_def index_inv_def)
  moreover have "length (di_packed index) = sum_list (map length bs)" by (simp add: index_def length_concat)
  ultimately show ?thesis using cr by (simp add: index_def)
qed

section \<open>The delta\<close>

definition matches :: "bytes \<Rightarrow> bytes \<Rightarrow> nat \<Rightarrow> nat \<Rightarrow> nat \<Rightarrow> bool" where
  "matches src trg moff data msize \<longleftrightarrow>
     moff + msize \<le> length src \<and> data + msize \<le> length trg \<and>
     take msize (drop moff src) = take msize (drop data trg)"

lemma match_run_bounds: "ref \<le> match_run n trg s rd ref \<and> match_run n trg s rd ref \<le> ref + n"
proof (induction n arbitrary: s ref)
  case (Suc n)
  from Suc [of "Suc ref" "Suc s"] show ?case by auto
qed simp

lemma take_Suc_drop_nth: "i < length xs \<Longrightarrow> take (Suc n) (drop i xs) = xs ! i # take n (drop (Suc i) xs)"
  by (simp flip: Cons_nth_drop_Suc)

lemma match_run_matches:
  assumes "ref + n \<le> length rd" and "s + n \<le> length trg"
  shows "matches rd trg ref s (match_run n trg s rd ref - ref)"
  using assms
proof (induction n arbitrary: s ref)
  case 0
  then show ?case by (simp add: matches_def)
next
  case (Suc n)
  show ?case
  proof (cases "trg ! s = rd ! ref")
    case True
    let ?r = "match_run n trg (Suc s) rd (Suc ref)"
    have m: "matches rd trg (Suc ref) (Suc s) (?r - Suc ref)" using Suc by simp
    have "Suc ref \<le> ?r" using match_run_bounds by blast
    then have "?r - ref = Suc (?r - Suc ref)" by simp
    with True m Suc.prems show ?thesis by (simp add: matches_def take_Suc_drop_nth)
  next
    case False
    with Suc.prems show ?thesis by (simp add: matches_def)
  qed
qed

lemma match_limit_bounds:
  "match_limit src trg data ref \<le> length src - ref" "match_limit src trg data ref \<le> length trg - data"
  "match_limit src trg data ref < 2 ^ 32"
proof -
  let ?rs = "(length src - ref) mod 2 ^ 32"
  have "?rs \<le> length src - ref" "?rs < 2 ^ 32" by simp_all
  then show "match_limit src trg data ref \<le> length src - ref" "match_limit src trg data ref \<le> length trg - data"
    "match_limit src trg data ref < 2 ^ 32"
    by (auto simp: match_limit_def Let_def)
qed

lemma find_match_ok:
  assumes "find_match src trg data val es moff msize = (moff', msize')"
    and "\<forall>e \<in> set es. ent_ptr e < length src \<and> ent_ptr e < 2 ^ 32" and "data \<le> length trg"
    and "matches src trg moff data msize" and "msize < 2 ^ 32" and "msize \<noteq> 0 \<longrightarrow> moff < 2 ^ 32"
  shows "matches src trg moff' data msize' \<and> msize' < 2 ^ 32 \<and> (msize' \<noteq> 0 \<longrightarrow> moff' < 2 ^ 32)"
  using assms
proof (induction es arbitrary: moff msize)
  case Nil
  then show ?case by simp
next
  case (Cons e es)
  let ?n = "match_limit src trg data (ent_ptr e)"
  let ?r = "match_run ?n trg data src (ent_ptr e)"
  have n: "ent_ptr e + ?n \<le> length src" "data + ?n \<le> length trg" "?n < 2 ^ 32"
    using match_limit_bounds [of src trg data "ent_ptr e"] Cons.prems(2,3) by auto
  have m: "matches src trg (ent_ptr e) data (?r - ent_ptr e)" 
    using n by (intro match_run_matches)
  have b: "?r - ent_ptr e < 2 ^ 32"
    using match_run_bounds [of "ent_ptr e" ?n trg data src] n(3) by linarith
  have es: "\<forall>e \<in> set es. ent_ptr e < length src \<and> ent_ptr e < 2 ^ 32" "ent_ptr e < 2 ^ 32" 
    using Cons.prems(2) by auto
  note IH = Cons.IH [OF _ es(1) Cons.prems(3)]
  show ?case
  proof (cases "ent_val e = val \<and> msize < ?n \<and> msize < ?r - ent_ptr e")
    case True
    show ?thesis
    proof (cases "4096 \<le> ?r - ent_ptr e")
      case True2: True
      from Cons.prems(1) True True2 have "moff' = ent_ptr e" "msize' = ?r - ent_ptr e"
        by (auto simp: Let_def)
      with m b es(2) show ?thesis by simp
    next
      case False
      from Cons.prems(1) True False
      have "find_match src trg data val es (ent_ptr e) (?r - ent_ptr e) = (moff', msize')"
        by (simp add: Let_def)
      from IH [OF this m b] es(2) show ?thesis by simp
    qed
  next
    case False
    then have "(moff', msize') = (moff, msize) \<or> find_match src trg data val es moff msize = (moff', msize')"
      using Cons.prems(1) by (auto simp: Let_def split: if_splits)
    then show ?thesis using IH [OF _ Cons.prems(4-6)] Cons.prems(4-6) by auto
  qed
qed


lemma matches_drop:
  assumes "matches src trg moff data (a + b)"
  shows "matches src trg (moff + a) (data + a) b"
proof -
  have "drop a (take (a + b) (drop moff src)) = drop a (take (a + b) (drop data trg))"
    using assms by (simp add: matches_def)
  then show ?thesis using assms by (auto simp: matches_def drop_take add.commute)
qed

lemma matches_back:
  assumes "matches src trg moff data n" and "moff \<noteq> 0" and "data \<noteq> 0"
    and "src ! (moff - 1) = trg ! (data - 1)"
  shows "matches src trg (moff - 1) (data - 1) (Suc n)"
proof -
  have "moff - 1 < length src" "data - 1 < length trg" using assms by (auto simp: matches_def)
  with assms show ?thesis by (simp add: matches_def take_Suc_drop_nth)
qed

lemma set_inscnt_lits:
  assumes "d_out st = a @ slot # lits" and "d_inscnt st = int (length lits)"
  shows "set_inscnt st = st\<lparr>d_out := a @ of_nat (length lits) # lits, d_inscnt := 0\<rparr>"
proof -
  have "nat (int (length (d_out st)) - d_inscnt st - 1) = length a" using assms by simp
  then show ?thesis using assms by (simp add: set_inscnt_def)
qed

lemma set_inscnt_minus: 
  assumes "d_inscnt st = - 1"
  shows "set_inscnt st = st\<lparr>d_inscnt := 0\<rparr>"
  using assms by (simp add: set_inscnt_def list_update_beyond)

lemma match_back_spec:
  assumes "d_out st = a @ slot # lits" and "lits \<noteq> []" and "d_inscnt st = int (length lits)"
    and "length lits \<le> d_data st"
    and "matches src trg (d_moff st) (d_data st) (d_msize st)"
  shows "\<exists>k out i. k \<le> length lits \<and> k \<le> d_moff st \<and>
     match_back src trg st = st\<lparr>d_out := out, d_inscnt := i, d_data := d_data st - k,
        d_moff := d_moff st - k, d_msize := d_msize st + k\<rparr> \<and>
     matches src trg (d_moff st - k) (d_data st - k) (d_msize st + k) \<and>
     (if k = length lits then out = a \<and> i = - 1
      else out = a @ slot # take (length lits - k) lits \<and> i = int (length lits - k))"
  using assms
proof (induction "d_moff st" arbitrary: st lits)
  case 0
  then show ?case
    by (intro exI [of _ 0] exI [of _ "d_out st"] exI [of _ "d_inscnt st"]) (simp add: match_back.simps [of src trg st])
next
  case (Suc m)
  let ?st = "st\<lparr>d_msize := d_msize st + 1, d_moff := d_moff st - 1, d_data := d_data st - 1,
                     d_out := butlast (d_out st), d_inscnt := d_inscnt st - 1\<rparr>"
  from Suc.prems obtain l x where lits: "lits = l @ [x]" by (metis rev_exhaust)
  show ?case
  proof (cases "src ! (d_moff st - 1) = trg ! (d_data st - 1)")
    case False
    then show ?thesis using Suc.prems Suc.hyps(2)
      by (intro exI [of _ 0] exI [of _ "d_out st"] exI [of _ "d_inscnt st"]) (simp add: match_back.simps [of src trg st])
  next
    case True
    have mb: "matches src trg (d_moff ?st) (d_data ?st) (d_msize ?st)"
      using matches_back [OF Suc.prems(5) _ _ True] Suc.hyps(2) Suc.prems(4) lits by simp
    show ?thesis
    proof (cases "l = []")
      case True2: True
      with True Suc.hyps(2) Suc.prems lits mb show ?thesis
        by (intro exI [of _ 1] exI [of _ a] exI [of _ "- 1"])
          (simp add: match_back.simps [of src trg st] butlast_append)
    next
      case False
      have *: "match_back src trg st = match_back src trg ?st"
        using True Suc.hyps(2) False Suc.prems lits by (subst match_back.simps) simp
      have m: "m = d_moff ?st" using Suc.hyps(2) by simp
      have pre: "d_out ?st = a @ slot # l" "d_inscnt ?st = int (length l)" "length l \<le> d_data ?st"
        using Suc.prems lits by (simp_all add: butlast_append)
      from Suc.hyps(1) [OF m pre(1) False pre(2,3) mb] obtain k out i where
        k: "k \<le> length l" "k \<le> d_moff ?st"
        "match_back src trg ?st = ?st\<lparr>d_out := out, d_inscnt := i, d_data := d_data ?st - k,
          d_moff := d_moff ?st - k, d_msize := d_msize ?st + k\<rparr>"
        "matches src trg (d_moff ?st - k) (d_data ?st - k) (d_msize ?st + k)"
        "if k = length l then out = a \<and> i = - 1
         else out = a @ slot # take (length l - k) l \<and> i = int (length l - k)"
        by blast
      then show ?thesis
        using Suc.hyps(2) lits
        by (intro exI [of _ "Suc k"] exI [of _ out] exI [of _ i]) (auto simp: * split: if_splits)
    qed
  qed
qed

definition delta_inv :: "delta_index \<Rightarrow> bytes \<Rightarrow> delta_state \<Rightarrow> bool" where
  "delta_inv index trg st \<longleftrightarrow>
     (\<exists>ops lits slot.
        d_out st = put_hdr_size (di_src_size index) @ put_hdr_size (length trg) @ concat (map enc_op ops)
          @ (if lits = [] then [] else slot # lits) \<and>
        (\<forall>op \<in> set ops. valid_op (di_src_buf index) op) \<and>
        d_inscnt st = int (length lits) \<and> length lits < 127 \<and>
        concat (map (apply_op (di_src_buf index)) ops) @ lits = take (d_data st) trg) \<and>
     d_data st \<le> length trg \<and>
     matches (di_src_buf index) trg (d_moff st) (d_data st) (d_msize st) \<and>
     d_msize st < 2 ^ 32 \<and> (d_msize st \<noteq> 0 \<longrightarrow> d_moff st < 2 ^ 32)"

lemma delta_invI:
  assumes "d_out st = put_hdr_size (di_src_size index) @ put_hdr_size (length trg) @ concat (map enc_op ops)
      @ (if lits = [] then [] else slot # lits)"
    and "\<forall>op \<in> set ops. valid_op (di_src_buf index) op"
    and "d_inscnt st = int (length lits)" and "length lits < 127"
    and "concat (map (apply_op (di_src_buf index)) ops) @ lits = take (d_data st) trg"
    and "d_data st \<le> length trg"
    and "matches (di_src_buf index) trg (d_moff st) (d_data st) (d_msize st)"
    and "d_msize st < 2 ^ 32" and "d_msize st \<noteq> 0 \<longrightarrow> d_moff st < 2 ^ 32"
  shows "delta_inv index trg st"
  unfolding delta_inv_def using assms by blast

definition index_ok :: "delta_index \<Rightarrow> bool" where
  "index_ok index \<longleftrightarrow> di_src_size index = length (di_src_buf index) \<and>
     (\<forall>e \<in> set (di_packed index). ent_ptr e < length (di_src_buf index) \<and> ent_ptr e < 2 ^ 32)"

lemma delta_search_frame:
  "d_out (delta_search index trg st) = d_out st" "d_data (delta_search index trg st) = d_data st"
  "d_inscnt (delta_search index trg st) = d_inscnt st" "d_outsize (delta_search index trg st) = d_outsize st"
  by (simp_all add: delta_search_def Let_def split: prod.splits)

lemma delta_search_inv:
  assumes "index_ok index" and "delta_inv index trg st"
  shows "delta_inv index trg (delta_search index trg st)"
proof (cases "d_msize st < 4096")
  case False
  then show ?thesis using assms by (simp add: delta_search_def)
next
  case True
  let ?v = "delta_roll trg st"
  obtain moff msize where fm: "find_match (di_src_buf index) trg (d_data st) ?v (index_bucket index ?v)
      (d_moff st) (d_msize st) = (moff, msize)" by fastforce
  have "set (index_bucket index ?v) \<subseteq> set (di_packed index)"
    by (simp add: index_bucket_def Let_def) (meson set_drop_subset set_take_subset subset_trans)
  then have "\<forall>e \<in> set (index_bucket index ?v). ent_ptr e < length (di_src_buf index) \<and> ent_ptr e < 2 ^ 32"
    using assms(1) by (auto simp: index_ok_def)
  from find_match_ok [OF fm this] assms(2)
  have "matches (di_src_buf index) trg moff (d_data st) msize \<and> msize < 2 ^ 32 \<and> (msize \<noteq> 0 \<longrightarrow> moff < 2 ^ 32)"
    by (simp add: delta_inv_def)
  moreover have "delta_search index trg st = st\<lparr>d_val := ?v, d_moff := moff, d_msize := msize\<rparr>"
    using True by (simp add: delta_search_def fm)
  ultimately show ?thesis using assms(2) by (simp add: delta_inv_def)
qed

lemma take_Suc_nth: "i < length xs \<Longrightarrow> take (Suc i) xs = take i xs @ [xs ! i]"
  by (rule take_Suc_conv_app_nth)

lemma matches_0: "moff \<le> length src \<Longrightarrow> data \<le> length trg \<Longrightarrow> matches src trg moff data 0"
  by (simp add: matches_def)

lemma delta_literal_inv:
  assumes "delta_inv index trg st" and "d_data st < length trg"
  shows "delta_inv index trg (delta_literal trg st) \<and> d_data (delta_literal trg st) = Suc (d_data st)"
proof -
  let ?src = "di_src_buf index" let ?h = "put_hdr_size (di_src_size index) @ put_hdr_size (length trg)"
  from assms(1) obtain ops lits slot where
    st: "d_out st = ?h @ concat (map enc_op ops) @ (if lits = [] then [] else slot # lits)"
    "\<forall>op \<in> set ops. valid_op ?src op" "d_inscnt st = int (length lits)" "length lits < 127"
    "concat (map (apply_op ?src) ops) @ lits = take (d_data st) trg"
    and m: "d_moff st \<le> length ?src"
    by (auto simp: delta_inv_def matches_def)
  let ?l = "lits @ [trg ! d_data st]"
  let ?s = "if lits = [] then 0 else slot"
  let ?A = "?h @ concat (map enc_op ops)"
  let ?st1 = "st\<lparr>d_out := ?A @ ?s # ?l, d_data := d_data st + 1, d_inscnt := int (length ?l)\<rparr>"
  have step: "delta_literal trg st = (if length ?l = 127 then set_inscnt ?st1 else ?st1)\<lparr>d_msize := 0\<rparr>"
    using st(1,3) by (auto simp: delta_literal_def Let_def)
  have app: "concat (map (apply_op ?src) ops) @ ?l = take (Suc (d_data st)) trg"
    using st(5) assms(2) by (simp add: take_Suc_nth flip: append_assoc)
  have m0: "matches ?src trg (d_moff st) (Suc (d_data st)) 0" using m assms(2) by (intro matches_0) auto
  show ?thesis
  proof (cases "length ?l = 127")
    case False
    with st(4) have "length ?l < 127" by simp
    with st app m0 assms(2) False have "delta_inv index trg (?st1\<lparr>d_msize := 0\<rparr>)"
      by (intro delta_invI [where ops = ops and lits = ?l and slot = ?s]) simp_all
    with False show ?thesis by (simp add: step)
  next
    case True
    let ?st2 = "?st1\<lparr>d_out := ?A @ of_nat (length ?l) # ?l, d_inscnt := 0\<rparr>"
    have si: "set_inscnt ?st1 = ?st2"
      by (rule set_inscnt_lits) simp_all
    have "valid_op ?src (Insert ?l)" using True by simp
    with st app m0 assms(2) have "delta_inv index trg (?st2\<lparr>d_msize := 0\<rparr>)"
      by (intro delta_invI [where ops = "ops @ [Insert ?l]" and lits = "[]"]) auto
    with True si show ?thesis by (simp add: step)
  qed
qed

lemma delta_flush_spec:
  assumes st: "d_out st = h @ concat (map enc_op ops) @ (if lits = [] then [] else slot # lits)"
    "\<forall>op \<in> set ops. valid_op src op" "d_inscnt st = int (length lits)" "length lits < 127"
    "concat (map (apply_op src) ops) @ lits = take (d_data st) trg" "d_data st \<le> length trg"
    "matches src trg (d_moff st) (d_data st) (d_msize st)"
  shows "\<exists>k ops'. k < 127 \<and> k \<le> d_moff st \<and> k \<le> d_data st \<and>
      delta_flush src trg st = st\<lparr>d_out := h @ concat (map enc_op ops'), d_inscnt := 0, d_data := d_data st - k,
        d_moff := d_moff st - k, d_msize := d_msize st + k\<rparr> \<and>
      matches src trg (d_moff st - k) (d_data st - k) (d_msize st + k) \<and>
      (\<forall>op \<in> set ops'. valid_op src op) \<and>
      concat (map (apply_op src) ops') = take (d_data st - k) trg"
proof (cases "lits = []")
  case True
  with st show ?thesis by (intro exI [of _ 0] exI [of _ ops]) (simp add: delta_flush_def)
next
  case False
  have len: "length lits \<le> d_data st" 
    using arg_cong [OF st(5), of length] st(6) by simp
  have out: "d_out st = (h @ concat (map enc_op ops)) @ slot # lits" using st(1) False by simp
  from match_back_spec [OF out False st(3) len st(7)] obtain k out i where
    k: "k \<le> length lits" "k \<le> d_moff st"
    "match_back src trg st = st\<lparr>d_out := out, d_inscnt := i, d_data := d_data st - k,
        d_moff := d_moff st - k, d_msize := d_msize st + k\<rparr>"
    "matches src trg (d_moff st - k) (d_data st - k) (d_msize st + k)"
    "if k = length lits then out = (h @ concat (map enc_op ops)) \<and> i = - 1
     else out = (h @ concat (map enc_op ops)) @ slot # take (length lits - k) lits \<and> i = int (length lits - k)" by blast
  have app: "concat (map (apply_op src) ops) @ take (length lits - k) lits = take (d_data st - k) trg"
  proof -
    have "take (d_data st - k) (concat (map (apply_op src) ops) @ lits) = take (d_data st - k) (take (d_data st) trg)"
      using st(5) by simp
    moreover have "d_data st = length (concat (map (apply_op src) ops)) + length lits"
      using arg_cong [OF st(5), of length] st(6) by simp
    ultimately show ?thesis using k(1) by (simp add: min_def)
  qed
  show ?thesis
  proof (cases "k = length lits")
    case True2: True
    then have "delta_flush src trg st = st\<lparr>d_out := (h @ concat (map enc_op ops)), d_inscnt := 0, d_data := d_data st - k,
        d_moff := d_moff st - k, d_msize := d_msize st + k\<rparr>"
      using k False st(3) by (simp add: delta_flush_def set_inscnt_minus)
    with k True2 st(2,4) app len show ?thesis by (intro exI [of _ k] exI [of _ ops]) simp
  next
    case False2: False
    let ?l = "take (length lits - k) lits"
    have ll: "length ?l = length lits - k" by simp
    have "delta_flush src trg st = st\<lparr>d_out := (h @ concat (map enc_op ops)) @ of_nat (length ?l) # ?l, d_inscnt := 0, d_data := d_data st - k,
        d_moff := d_moff st - k, d_msize := d_msize st + k\<rparr>"
      using k False False2 st(3) by (simp add: delta_flush_def set_inscnt_lits [where a = "h @ concat (map enc_op ops)" and slot = slot and lits = "take (length lits - k) lits"])
    moreover have "valid_op src (Insert ?l)" using False2 k(1) st(4) by auto
    ultimately show ?thesis using k st(2,4) app len by (intro exI [of _ k] exI [of _ "ops @ [Insert ?l]"]) auto
  qed
qed

lemma delta_copy_inv:
  assumes "delta_inv index trg st" and "4 \<le> d_msize st"
  shows "delta_inv index trg (delta_copy index trg st) \<and> d_data st < d_data (delta_copy index trg st)"
proof -
  let ?src = "di_src_buf index" let ?h = "put_hdr_size (di_src_size index) @ put_hdr_size (length trg)"
  from assms(1) obtain ops lits slot where
    st: "d_out st = ?h @ concat (map enc_op ops) @ (if lits = [] then [] else slot # lits)"
    "\<forall>op \<in> set ops. valid_op ?src op" "d_inscnt st = int (length lits)" "length lits < 127"
    "concat (map (apply_op ?src) ops) @ lits = take (d_data st) trg" "d_data st \<le> length trg"
    "matches ?src trg (d_moff st) (d_data st) (d_msize st)" "d_msize st < 2 ^ 32" "d_moff st < 2 ^ 32"
    using assms(2) by (auto simp: delta_inv_def)
  from delta_flush_spec [OF st(1-7)] obtain k ops' where k: "k < 127" "k \<le> d_moff st" "k \<le> d_data st"
    and st1: "delta_flush ?src trg st = st\<lparr>d_out := ?h @ concat (map enc_op ops'), d_inscnt := 0, d_data := d_data st - k,
        d_moff := d_moff st - k, d_msize := d_msize st + k\<rparr>"
    and m: "matches ?src trg (d_moff st - k) (d_data st - k) (d_msize st + k)"
    and ops': "\<forall>op \<in> set ops'. valid_op ?src op" "concat (map (apply_op ?src) ops') = take (d_data st - k) trg"
    by blast
  define ms where "ms = d_msize st + k"
  define left where "left = (if ms < 0x10000 then 0 else (ms - 0x10000) mod 2 ^ 32)"
  define sz where "sz = ms - left"
  have left: "left = (if ms < 0x10000 then 0 else ms - 0x10000)"
    using st(8) k(1) by (simp add: left_def ms_def)
  have sz: "0 < sz" "sz \<le> 0x10000" "sz + left = ms" "k < sz"
    using left assms(2) k(1) by (auto simp: sz_def ms_def split: if_splits)
  have m1: "matches ?src trg (d_moff st - k) (d_data st - k) (sz + left)" using m sz by (simp add: ms_def)
  from m1 have ops_app: "concat (map (apply_op ?src) (ops' @ [Copy (d_moff st - k) sz])) = take (d_data st - k + sz) trg"
    and v: "valid_op ?src (Copy (d_moff st - k) sz)"
  proof -
    have "take sz (take (sz + left) (drop (d_moff st - k) ?src)) = take sz (take (sz + left) (drop (d_data st - k) trg))"
      using m1 by (simp add: matches_def)
    then have "take sz (drop (d_moff st - k) ?src) = take sz (drop (d_data st - k) trg)" by (simp add: min_def)
    with ops' show "concat (map (apply_op ?src) (ops' @ [Copy (d_moff st - k) sz])) = take (d_data st - k + sz) trg"
      by (simp add: take_add)
    show "valid_op ?src (Copy (d_moff st - k) sz)" using sz m1 st(9) by (auto simp: matches_def)
  qed
  have m2: "matches ?src trg (d_moff st - k + sz) (d_data st - k + sz) left" using m1 by (rule matches_drop)
  let ?st' = "delta_copy index trg st"
  have st': "d_out ?st' = ?h @ concat (map enc_op (ops' @ [Copy (d_moff st - k) sz]))" "d_inscnt ?st' = 0"
    "d_data ?st' = d_data st - k + sz" "d_moff ?st' = d_moff st - k + sz"
    "d_msize ?st' = (if 0xffffffff < d_moff st - k + sz then 0 else left)"
    by (simp_all add: delta_copy_def Let_def st1 left_def sz_def ms_def)
  have "matches ?src trg (d_moff ?st') (d_data ?st') (d_msize ?st')"
    using m2 by (auto simp: st' matches_def)
  moreover have "left < 2 ^ 32"
    using left st(8) k(1) by (cases "ms < 0x10000") (simp_all, simp add: ms_def)
  ultimately have "delta_inv index trg ?st'"
    using ops'(1) v ops_app m2 
    by (intro delta_invI [where ops = "ops' @ [Copy (d_moff st - k) sz]" and lits = "[]"])
      (auto simp: st' matches_def)
  then show ?thesis using sz(4) k(3) by (simp add: st')
qed

lemma delta_resize_eq: "delta_resize m st = (st', b) \<Longrightarrow> st' = st\<lparr>d_outsize := d_outsize st'\<rparr>"
  by (auto simp: delta_resize_def Let_def split: if_splits)

lemma delta_inv_outsize: "delta_inv index trg (st\<lparr>d_outsize := n\<rparr>) = delta_inv index trg st"
  by (simp add: delta_inv_def)

lemma delta_step_inv:
  assumes "index_ok index" and "delta_inv index trg st" and "d_data st < length trg"
    and "delta_step index trg max_size st = (st', brk)"
  shows "delta_inv index trg st' \<and> d_data st < d_data st'"
proof -
  let ?s = "delta_search index trg st"
  let ?s2 = "if d_msize ?s < 4 then delta_literal trg ?s else delta_copy index trg ?s"
  have s: "delta_inv index trg ?s" by (rule delta_search_inv [OF assms(1,2)])
  have "delta_inv index trg ?s2 \<and> d_data st < d_data ?s2"
  proof (cases "d_msize ?s < 4")
    case True
    with delta_literal_inv [OF s] assms(3) show ?thesis by (simp add: delta_search_frame)
  next
    case False
    with delta_copy_inv [OF s] show ?thesis by (simp add: delta_search_frame)
  qed
  moreover have "st' = ?s2\<lparr>d_outsize := d_outsize st'\<rparr>"
    using assms(4) delta_resize_eq [of max_size ?s2 st' brk] by (simp add: delta_step_def Let_def)
  ultimately show ?thesis
    using delta_inv_outsize [of index trg "d_outsize st'" ?s2] by (metis delta_state.select_convs(3) delta_state.surjective delta_state.update_convs(2))
qed

lemma delta_loop_inv:
  assumes "index_ok index" and "delta_inv index trg st" and "length trg - d_data st \<le> fuel"
  shows "\<exists>st'. delta_loop fuel index trg max_size st = Some st' \<and> delta_inv index trg st' \<and>
    (d_data st' = length trg \<or> max_size \<noteq> 0 \<and> max_size < length (d_out st'))"
  using assms(2,3)
proof (induction fuel arbitrary: st)
  case 0
  then have "d_data st = length trg" by (simp add: delta_inv_def)
  with 0 show ?case by (simp add: delta_loop.simps)
next
  case (Suc fuel)
  show ?case
  proof (cases "d_data st < length trg")
    case False
    with Suc.prems have "d_data st = length trg" by (simp add: delta_inv_def)
    with Suc.prems show ?thesis by (simp add: delta_loop.simps)
  next
    case True
    obtain st' brk where step: "delta_step index trg max_size st = (st', brk)" by fastforce
    have inv: "delta_inv index trg st'" "d_data st < d_data st'"
      using delta_step_inv [OF assms(1) Suc.prems(1) True step] by auto
    show ?thesis
    proof (cases brk)
      case True2: True
      then have "max_size \<noteq> 0 \<and> max_size < length (d_out st')"
        using step by (auto simp: delta_step_def Let_def delta_resize_def split: if_splits)
      with True True2 step inv show ?thesis by (simp add: delta_loop.simps)
    next
      case False
      have "length trg - d_data st' \<le> fuel" using inv(2) Suc.prems(2) True by linarith
      from Suc.IH [OF inv(1) this] True False step show ?thesis by (subst delta_loop.simps) simp
    qed
  qed
qed

lemma delta_start_inv:
  assumes "trg \<noteq> []"
  shows "delta_inv index trg (delta_start index trg max_size)"
proof -
  have "take RABIN_WINDOW trg \<noteq> []" using assms by (simp add: RABIN_WINDOW_def)
  moreover have "take RABIN_WINDOW trg = take (length (take RABIN_WINDOW trg)) trg" by (simp add: min_def)
  ultimately show ?thesis
    by (intro delta_invI [where ops = "[]" and lits = "take RABIN_WINDOW trg" and slot = 0])
      (simp_all add: delta_start_def Let_def matches_def RABIN_WINDOW_def del: take_take)
qed

lemma enc_op_length: "valid_op src op \<Longrightarrow> length src < 0x10000 \<Longrightarrow> 2 \<le> length (enc_op op)"
proof (cases op)
  case (Copy off n)
  assume "valid_op src op" "length src < 0x10000"
  with Copy have n: "0 < n" "n < 0x10000" by auto
  have "unat (nbyte 0 n) = n mod 256" "unat (nbyte 8 n) = n div 256"
    using n by (auto simp: nbyte_def unat_of_nat drop_bit_eq_div less_mult_imp_div_less)
  with n have "nbyte 0 n \<noteq> 0 \<or> nbyte 8 n \<noteq> 0"
    by (metis div_mult_mod_eq mult_0 add_0 unat_0 less_irrefl)
  then show ?thesis by (auto simp: Copy emit_copy_eq opt_byte_def)
qed (auto simp: Suc_le_eq)

lemma length_put_hdr_size_ge:
  "0x80 \<le> l \<Longrightarrow> length (put_hdr_size l) = Suc (length (put_hdr_size (l div 128)))"
  by (subst put_hdr_size.simps) (simp add: drop_bit_eq_div)

lemma length_put_hdr_size_3: "0x4000 \<le> l \<Longrightarrow> 3 \<le> length (put_hdr_size l)"
  using length_put_hdr_size [of "l div 128 div 128"]
  by (simp add: length_put_hdr_size_ge [of l] length_put_hdr_size_ge [of "l div 128"])

lemma patch_delta_ops:
  assumes "\<forall>op \<in> set ops. valid_op src op" and "length src < 2 ^ 64" and "length trg < 2 ^ 64"
    and "concat (map (apply_op src) ops) = trg" and "trg \<noteq> []"
  shows "patch_delta src (put_hdr_size (length src) @ put_hdr_size (length trg) @ concat (map enc_op ops)) = Inr trg"
proof -
  let ?d = "put_hdr_size (length src) @ put_hdr_size (length trg) @ concat (map enc_op ops)"
  have "DELTA_SIZE_MIN \<le> length ?d"
  proof (cases "length src < 0x10000")
    case True
    from assms obtain op ops' where "ops = op # ops'" by (cases ops) auto
    with assms(1) True have "2 \<le> length (concat (map enc_op ops))"
      using enc_op_length [of src op] by simp
    then show ?thesis
      using length_put_hdr_size [of "length src"] length_put_hdr_size [of "length trg"]
      by (simp add: DELTA_SIZE_MIN_def)
  next
    case False
    then show ?thesis
      using length_put_hdr_size_3 [of "length src"] length_put_hdr_size [of "length trg"]
      by (simp add: DELTA_SIZE_MIN_def)
  qed
  moreover have "patch_delta_loop src (of_nat (length trg)) (concat (map enc_op ops)) [] = Inr ([] @ concat (map (apply_op src) ops))"
    using assms by (intro patch_delta_loop_ops) (simp_all add: unat_of_nat)
  ultimately show ?thesis
    using assms by (simp add: patch_delta_def get_put_hdr_size unat_of_nat)
qed

lemma create_delta_correct:
  assumes "index_ok index" and "trg \<noteq> []" and "length trg < 2 ^ 64" and "length (di_src_buf index) < 2 ^ 64"
  shows "case create_delta index trg max_size of
     None \<Rightarrow> max_size \<noteq> 0
   | Some delta \<Rightarrow> patch_delta (di_src_buf index) delta = Inr trg \<and> (max_size \<noteq> 0 \<longrightarrow> length delta \<le> max_size)"
proof -
  let ?src = "di_src_buf index"
  have "delta_inv index trg (delta_start index trg max_size)"
    by (rule delta_start_inv [OF assms(2)])
  from delta_loop_inv [OF assms(1) this, of "length trg" max_size] obtain st where
    loop: "delta_loop (length trg) index trg max_size (delta_start index trg max_size) = Some st"
    and inv: "delta_inv index trg st"
    and fin: "d_data st = length trg \<or> max_size \<noteq> 0 \<and> max_size < length (d_out st)" by auto
  let ?st = "if d_inscnt st \<noteq> 0 then set_inscnt st else st"
  have cd: "create_delta index trg max_size =
      (if max_size \<noteq> 0 \<and> max_size < length (d_out st) then None else Some (d_out ?st))"
    using assms(2) by (simp add: create_delta_def loop Let_def set_inscnt_def)
  show ?thesis
  proof (cases "max_size \<noteq> 0 \<and> max_size < length (d_out st)")
    case True
    then show ?thesis by (simp add: cd)
  next
    case False
    with fin have d: "d_data st = length trg" by auto
    from inv obtain ops lits slot where
      st: "d_out st = put_hdr_size (di_src_size index) @ put_hdr_size (length trg) @ concat (map enc_op ops) @
            (if lits = [] then [] else slot # lits)"
      "\<forall>op \<in> set ops. valid_op ?src op" "d_inscnt st = int (length lits)" "length lits < 127"
      "concat (map (apply_op ?src) ops) @ lits = take (d_data st) trg"
      unfolding delta_inv_def by blast
    have sz: "di_src_size index = length ?src" using assms(1) by (simp add: index_ok_def)
    have "patch_delta ?src (d_out ?st) = Inr trg"
    proof (cases "lits = []")
      case True
      with st d assms sz show ?thesis by (simp add: patch_delta_ops)
    next
      case False2: False
      let ?A = "put_hdr_size (length ?src) @ put_hdr_size (length trg) @ concat (map enc_op ops)"
      have "set_inscnt st = st\<lparr>d_out := ?A @ of_nat (length lits) # lits, d_inscnt := 0\<rparr>"
        using False2 st(1,3) sz by (intro set_inscnt_lits [where slot = slot]) simp_all
      then have "d_out ?st = put_hdr_size (length ?src) @ put_hdr_size (length trg)
          @ concat (map enc_op (ops @ [Insert lits]))"
        using False2 st(3) by simp
      moreover have "patch_delta ?src (put_hdr_size (length ?src) @ put_hdr_size (length trg)
          @ concat (map enc_op (ops @ [Insert lits]))) = Inr trg"
        using False2 st d assms by (intro patch_delta_ops) auto
      ultimately show ?thesis by simp
    qed
    with False show ?thesis by (auto simp: cd set_inscnt_def)
  qed
qed

section \<open>The states of the loop\<close>

inductive delta_reach :: "delta_index \<Rightarrow> bytes \<Rightarrow> nat \<Rightarrow> delta_state \<Rightarrow> bool"
  for index :: delta_index and trg :: bytes and max_size :: nat where
  start: "trg \<noteq> [] \<Longrightarrow> delta_reach index trg max_size (delta_start index trg max_size)"
| step: "delta_reach index trg max_size st \<Longrightarrow> d_data st < length trg \<Longrightarrow>
    delta_step index trg max_size st = (st', False) \<Longrightarrow> delta_reach index trg max_size st'"

lemma delta_reach_inv: "delta_reach index trg max_size st \<Longrightarrow> index_ok index \<Longrightarrow> delta_inv index trg st"
  by (induction rule: delta_reach.induct) (auto simp: delta_start_inv dest: delta_step_inv)

definition hash_inv :: "bytes \<Rightarrow> delta_state \<Rightarrow> bool" where
  "hash_inv trg st \<longleftrightarrow> d_data st < length trg \<longrightarrow>
     RABIN_WINDOW \<le> d_data st \<and>
     (d_msize st < 4096 \<longrightarrow> d_val st = rabin_hash trg (d_data st - RABIN_WINDOW))"

lemma hash_inv_outsize: "hash_inv trg (st\<lparr>d_outsize := n\<rparr>) = hash_inv trg st"
  by (simp add: hash_inv_def)

lemma delta_roll_hash:
  assumes "hash_inv trg st" and "d_data st < length trg" and "d_msize st < 4096"
  shows "delta_roll trg st = rabin_hash trg (Suc (d_data st) - RABIN_WINDOW)"
proof -
  let ?p = "d_data st - RABIN_WINDOW"
  have p: "?p + RABIN_WINDOW = d_data st" "Suc (d_data st) - RABIN_WINDOW = Suc ?p"
    using assms by (auto simp: hash_inv_def)
  show ?thesis
    using rabin_hash_roll [of ?p trg] assms p by (simp add: delta_roll_def hash_inv_def)
qed

lemma delta_search_val:
  "d_val (delta_search index trg st) = (if d_msize st < 4096 then delta_roll trg st else d_val st)"
  "\<not> d_msize st < 4096 \<Longrightarrow> d_msize (delta_search index trg st) = d_msize st"
  by (simp_all add: delta_search_def Let_def split: prod.splits)

lemma delta_literal_frame:
  "d_val (delta_literal trg st) = d_val st" "d_data (delta_literal trg st) = Suc (d_data st)"
  "d_outsize (delta_literal trg st) = d_outsize st"
  "length (d_out (delta_literal trg st)) \<le> length (d_out st) + 2"
  by (simp_all add: delta_literal_def set_inscnt_def Let_def)

lemma delta_copy_val:
  "d_msize (delta_copy index trg st) < 4096 \<Longrightarrow>
   d_val (delta_copy index trg st) = rabin_hash trg (d_data (delta_copy index trg st) - RABIN_WINDOW)"
  unfolding delta_copy_def Let_def by (simp split: if_splits)

lemma delta_step_cases:
  assumes "delta_step index trg max_size st = (st', brk)"
  obtains st2 where
    "st2 = (let st = delta_search index trg st in
       if d_msize st < 4 then delta_literal trg st else delta_copy index trg st)"
    "delta_resize max_size st2 = (st', brk)"
  using assms by (simp add: delta_step_def Let_def)

lemma hash_inv_start: "hash_inv trg (delta_start index trg max_size)"
  by (auto simp: hash_inv_def delta_start_def Let_def rabin_hash_eq)

lemma hash_inv_step:
  assumes "index_ok index" "delta_inv index trg st" "hash_inv trg st" "d_data st < length trg"
    "delta_step index trg max_size st = (st', brk)"
  shows "hash_inv trg st'"
proof -
  let ?s = "delta_search index trg st"
  from assms(5) obtain st2 where
    st2: "st2 = (if d_msize ?s < 4 then delta_literal trg ?s else delta_copy index trg ?s)"
    and res: "delta_resize max_size st2 = (st', brk)"
    by (rule delta_step_cases) (simp add: Let_def)
  have st': "st' = st2\<lparr>d_outsize := d_outsize st'\<rparr>" by (rule delta_resize_eq [OF res])
  have adv: "d_data st < d_data st2"
    using delta_step_inv [OF assms(1,2,4,5)] arg_cong [OF st', of d_data] by simp
  have "hash_inv trg st2"
  proof (cases "d_msize ?s < 4")
    case True
    then have m: "d_msize st < 4096" using delta_search_val(2) [of st index trg] by force
    have "d_val st2 = rabin_hash trg (Suc (d_data st) - RABIN_WINDOW)"
      using True m st2 delta_roll_hash [OF assms(3,4) m] by (simp add: delta_literal_frame delta_search_val)
    with True st2 adv assms(3,4) show ?thesis
      by (simp add: hash_inv_def delta_literal_frame delta_search_frame)
  next
    case False
    with st2 adv assms(3,4) show ?thesis by (auto simp: hash_inv_def delta_copy_val)
  qed
  then show ?thesis by (subst st') (simp add: hash_inv_outsize)
qed

lemma delta_reach_hash: "delta_reach index trg max_size st \<Longrightarrow> index_ok index \<Longrightarrow> hash_inv trg st"
  by (induction rule: delta_reach.induct) (auto simp: hash_inv_start intro: hash_inv_step dest: delta_reach_inv)

section \<open>The output buffer\<close>

lemma length_match_back: "length (d_out (match_back ref_data trg st)) \<le> length (d_out st)"
proof (induction ref_data trg st rule: match_back.induct)
  case (1 ref_data trg st)
  then show ?case by (subst match_back.simps) (force simp: Let_def)
qed

lemma match_back_outsize: "d_outsize (match_back ref_data trg st) = d_outsize st"
proof (induction ref_data trg st rule: match_back.induct)
  case (1 ref_data trg st)
  then show ?case by (subst match_back.simps) (simp add: Let_def)
qed

lemma length_delta_flush:
  "length (d_out (delta_flush ref_data trg st)) \<le> length (d_out st)"
  "d_outsize (delta_flush ref_data trg st) = d_outsize st"
  by (simp_all add: delta_flush_def set_inscnt_def length_match_back match_back_outsize)

lemma length_emit_copy: "length (emit_copy moff msize) \<le> 7"
  by (simp add: emit_copy_eq opt_byte_def)

lemma delta_copy_frame:
  "length (d_out (delta_copy index trg st)) \<le> length (d_out st) + 7"
  "d_outsize (delta_copy index trg st) = d_outsize st"
  using length_emit_copy length_delta_flush
  by (auto simp: delta_copy_def Let_def intro: add_mono)

lemma length_put_hdr_size_le: "l < 2 ^ (7 * Suc k) \<Longrightarrow> length (put_hdr_size l) \<le> Suc k"
proof (induction k arbitrary: l)
  case 0
  then show ?case by (subst put_hdr_size.simps) simp
next
  case (Suc k)
  show ?case
  proof (cases "0x80 \<le> l")
    case True
    have "l div 128 < 2 ^ (7 * Suc k)" using Suc.prems by (simp add: less_mult_imp_div_less power_add)
    with Suc.IH True show ?thesis by (simp add: length_put_hdr_size_ge)
  next
    case False
    then show ?thesis by (subst put_hdr_size.simps) simp
  qed
qed

definition buffer_inv :: "nat \<Rightarrow> delta_state \<Rightarrow> bool" where
  "buffer_inv max_size st \<longleftrightarrow> length (d_out st) + 7 \<le> d_outsize st \<and>
     (8192 \<le> d_outsize st \<or> max_size \<noteq> 0 \<and> d_outsize st = max_size + MAX_OP_SIZE + 1)"

lemma buffer_inv_start:
  assumes "di_src_size index < 2 ^ 35" and "length trg < 2 ^ 35"
  shows "buffer_inv max_size (delta_start index trg max_size)"
proof -
  have "length (put_hdr_size (di_src_size index)) \<le> 5" "length (put_hdr_size (length trg)) \<le> 5"
    using assms length_put_hdr_size_le [of "di_src_size index" 4] length_put_hdr_size_le [of "length trg" 4]
    by simp_all
  then show ?thesis
    by (auto simp: buffer_inv_def delta_start_def Let_def MAX_OP_SIZE_def RABIN_WINDOW_def)
qed

lemma delta_step_fits:
  assumes "delta_step index trg max_size st = (st', brk)"
  shows "length (d_out st') \<le> length (d_out st) + 7"
    and "buffer_inv max_size st \<Longrightarrow> \<not> brk \<Longrightarrow> buffer_inv max_size st'"
proof -
  let ?s = "delta_search index trg st"
  from assms obtain st2 where
    st2: "st2 = (if d_msize ?s < 4 then delta_literal trg ?s else delta_copy index trg ?s)"
    and res: "delta_resize max_size st2 = (st', brk)"
    by (rule delta_step_cases) (simp add: Let_def)
  have len: "length (d_out st2) \<le> length (d_out st) + 7" "d_outsize st2 = d_outsize st"
    using delta_copy_frame [of index trg ?s] delta_literal_frame(3,4) [of trg ?s]
    by (auto simp: st2 delta_search_frame)
  show "length (d_out st') \<le> length (d_out st) + 7"
    using len res by (auto simp: delta_resize_def Let_def split: if_splits)
  show "buffer_inv max_size st'" if "buffer_inv max_size st" "\<not> brk"
    using that len res
    by (auto simp: buffer_inv_def delta_resize_def Let_def MAX_OP_SIZE_def split: if_splits)
qed

lemma delta_reach_buffer:
  "delta_reach index trg max_size st \<Longrightarrow> di_src_size index < 2 ^ 35 \<Longrightarrow> length trg < 2 ^ 35 \<Longrightarrow>
   buffer_inv max_size st"
  by (induction rule: delta_reach.induct) (auto simp: buffer_inv_start intro: delta_step_fits(2))

section \<open>Properties\<close>

text \<open>
  C1: deltas round-trip.  For every non-empty source and target \<open>diff_delta\<close> without a size
  limit returns a delta (the loop of \<open>create_delta\<close> ends), and \<open>patch_delta\<close> applied to the source
  and that delta returns the target.
\<close>

theorem diff_delta_roundtrip:
  assumes "src \<noteq> []" and "trg \<noteq> []" and "length src < 2 ^ 64" and "length trg < 2 ^ 64"
  shows "\<exists>delta. diff_delta src trg 0 = Some delta \<and> patch_delta src delta = Inr trg"
proof -
  from create_delta_index_spec [OF assms(1)] obtain index n where
    ix: "create_delta_index src = Some (index, n)" "di_src_buf index = src" and ok: "index_ok index"
    by (auto simp: index_ok_def)
  from create_delta_correct [OF ok assms(2,4), of 0] ix assms(3) show ?thesis
    by (auto simp: diff_delta_def split: option.splits)
qed

theorem diff_delta_roundtrip_witness:
  "\<exists>delta. diff_delta [1, 2, 3, 4] [1, 2, 3, 5] 0 = Some delta \<and> patch_delta [1, 2, 3, 4] delta = Inr [1, 2, 3, 5]"
  by (rule diff_delta_roundtrip) simp_all

text \<open>
  C24: \<open>diff_delta\<close> with a size limit never returns a delta longer than the limit, and every
  delta it returns rebuilds the target.
\<close>

theorem diff_delta_max_size:
  assumes "diff_delta src trg max_size = Some delta" and "max_size \<noteq> 0"
    and "length src < 2 ^ 64" and "length trg < 2 ^ 64"
  shows "length delta \<le> max_size \<and> patch_delta src delta = Inr trg"
proof -
  from assms(1) have ne: "src \<noteq> []" "trg \<noteq> []"
    by (auto simp: diff_delta_def create_delta_index_def create_delta_def split: option.splits)
  from create_delta_index_spec [OF ne(1)] obtain index n where
    ix: "create_delta_index src = Some (index, n)" "di_src_buf index = src" and ok: "index_ok index"
    by (auto simp: index_ok_def)
  from create_delta_correct [OF ok ne(2) assms(4), of max_size] ix assms show ?thesis
    by (simp add: diff_delta_def)
qed

theorem diff_delta_max_size_witness:
  "diff_delta [1] [9] 100 = Some [1, 1, 1, 9] \<and> patch_delta [1] [1, 1, 1, 9] = Inr [9]"
proof -
  obtain index n where ix: "create_delta_index [1] = Some (index, n)" "di_src_size index = 1"
    using create_delta_index_spec [of "[1]"] by auto
  have "create_delta index [9] 100 = Some [1, 1, 1, 9]"
    by (simp add: create_delta_def delta_loop.simps delta_start_def set_inscnt_def put_hdr_size.simps
        RABIN_WINDOW_def ix(2))
  then have "diff_delta [1] [9] 100 = Some [1, 1, 1, 9]" by (simp add: diff_delta_def ix(1))
  with diff_delta_max_size [OF this] show ?thesis by simp
qed

text \<open>
  C4: the index of \<open>create_delta_index\<close> is well formed for every non-empty buffer.  The culling
  loop never runs past the end of a bucket, the number of packed entries is the number that
  the final assertion of the code compares with, every entry points into the buffer below
  2^32, and every bucket that \<open>create_delta\<close> walks has at most \<open>HASH_LIMIT\<close> entries.
\<close>

theorem create_delta_index_well_formed:
  assumes "buf \<noteq> []"
  shows "\<exists>index n. create_delta_index buf = Some (index, n) \<and> di_src_buf index = buf \<and>
    length (di_packed index) = n \<and>
    (\<forall>e \<in> set (di_packed index). ent_ptr e < length buf \<and> ent_ptr e < 2 ^ 32) \<and>
    (\<forall>v. length (index_bucket index v) \<le> HASH_LIMIT)"
  using create_delta_index_spec [OF assms] by blast

theorem create_delta_index_well_formed_witness:
  "\<exists>index n. create_delta_index [7] = Some (index, n) \<and> di_src_buf index = [7]"
  using create_delta_index_well_formed [of "[7]"] by blast

text \<open>
  C5: the hash that \<open>create_delta\<close> looks up is the hash of the right bytes.  In every state that
  its loop reaches, the value obtained by rolling \<open>val\<close> with the tables \<open>U\<close> and \<open>T\<close> is the Rabin
  hash computed afresh over the \<open>RABIN_WINDOW\<close> bytes that end at the current byte, and the byte
  rolled out lies inside the target.
\<close>

theorem delta_loop_hash:
  assumes "create_delta_index src = Some (index, n)" and "delta_reach index trg max_size st"
    and "d_data st < length trg" and "d_msize st < 4096"
  shows "RABIN_WINDOW \<le> d_data st \<and>
    delta_roll trg st = rabin_hash trg (d_data st + 1 - RABIN_WINDOW)"
proof -
  have "src \<noteq> []" using assms(1) by (auto simp: create_delta_index_def)
  with create_delta_index_spec [of src] assms(1) have "index_ok index" by (auto simp: index_ok_def)
  then have "hash_inv trg st" using assms(2) by (simp add: delta_reach_hash)
  with assms(3,4) show ?thesis using delta_roll_hash [of trg st] by (simp add: hash_inv_def)
qed

theorem delta_loop_hash_witness:
  "\<exists>index n. create_delta_index [7] = Some (index, n) \<and>
     delta_roll (replicate 17 5) (delta_start index (replicate 17 5) 0) = rabin_hash (replicate 17 5) 1"
proof -
  obtain index n where ix: "create_delta_index [7] = Some (index, n)"
    using create_delta_index_spec [of "[7]"] by auto
  have "delta_reach index (replicate 17 5) 0 (delta_start index (replicate 17 5) 0)"
    by (rule delta_reach.start) simp
  from delta_loop_hash [OF ix this] ix show ?thesis by (simp add: delta_start_def RABIN_WINDOW_def)
qed

text \<open>
  C15: \<open>create_delta\<close> never writes past its output buffer.  For sources and targets below 2^35
  bytes, in every state that the loop reaches the buffer has room for one more instruction, so
  the bytes that the next iteration writes before it checks for reallocation fit the size
  allocated at its start.
\<close>

theorem create_delta_buffer_safe:
  assumes "delta_reach index trg max_size st" and "di_src_size index < 2 ^ 35" and "length trg < 2 ^ 35"
    and "delta_step index trg max_size st = (st', brk)"
  shows "length (d_out st') \<le> d_outsize st"
  using delta_reach_buffer [OF assms(1-3)] delta_step_fits(1) [OF assms(4)] by (simp add: buffer_inv_def)

theorem create_delta_buffer_safe_witness:
  "\<exists>index n. create_delta_index [7] = Some (index, n) \<and>
     length (d_out (fst (delta_step index (replicate 17 5) 1 (delta_start index (replicate 17 5) 1)))) \<le> 36"
proof -
  obtain index n where ix: "create_delta_index [7] = Some (index, n)" "di_src_size index = 1"
    using create_delta_index_spec [of "[7]"] by auto
  let ?st = "delta_start index (replicate 17 5) 1"
  have "delta_reach index (replicate 17 5) 1 ?st" by (rule delta_reach.start) simp
  from create_delta_buffer_safe [OF this _ _ surjective_pairing] ix show ?thesis
    by (simp add: delta_start_def MAX_OP_SIZE_def RABIN_WINDOW_def)
qed

end
