(* ===== verification/Stable_Sort.thy ===== *)
theory Stable_Sort
  imports Git_Prelude
begin

text \<open>
  The two merge sorts: \<open>git_stable_qsort\<close> of \<open>stable-qsort.c\<close> on arrays and the list sort
  that the macros of \<open>mergesort.h\<close> define on linked lists.  Arrays and linked lists are lists;
  the array of partial results \<open>ranks\<close> of the list sort has the 64 entries of the code.
  Both are equal to insertion sort with the comparison callback, for every callback that
  satisfies the contract \<open>comparison\<close>; so both are stable.
\<close>

section \<open>Array sort\<close>

fun msort_merge :: "('a \<Rightarrow> 'a \<Rightarrow> int) \<Rightarrow> 'a list \<Rightarrow> 'a list \<Rightarrow> 'a list" where
  "msort_merge cmp (x # b1) (y # b2) =
     (if cmp x y \<le> 0 then x # msort_merge cmp b1 (y # b2) else y # msort_merge cmp (x # b1) b2)"
| "msort_merge cmp b1 [] = b1"
| "msort_merge cmp [] b2 = b2"

function msort_with_tmp :: "('a \<Rightarrow> 'a \<Rightarrow> int) \<Rightarrow> 'a list \<Rightarrow> 'a list" where
  "msort_with_tmp cmp b =
     (if length b \<le> 1 then b
      else (let n1 = length b div 2 in
            msort_merge cmp (msort_with_tmp cmp (take n1 b)) (msort_with_tmp cmp (drop n1 b))))"
  by pat_completeness auto
termination by (relation "measure (\<lambda>(cmp, b). length b)") auto

declare msort_with_tmp.simps [simp del]

definition git_stable_qsort :: "('a \<Rightarrow> 'a \<Rightarrow> int) \<Rightarrow> 'a list \<Rightarrow> 'a list" where
  "git_stable_qsort cmp b = msort_with_tmp cmp b"

section \<open>List sort\<close>

function list_merge_loop :: "('a \<Rightarrow> 'a \<Rightarrow> int) \<Rightarrow> bool \<Rightarrow> 'a list \<Rightarrow> 'a list \<Rightarrow> 'a list" where
  "list_merge_loop cmp prefer_list [] other = other"
| "list_merge_loop cmp prefer_list (tail # list) other =
     tail # (case list of
               [] \<Rightarrow> other
             | x # _ \<Rightarrow>
                 (case other of
                    [] \<Rightarrow> list
                  | y # _ \<Rightarrow>
                      if cmp x y < of_bool prefer_list then list_merge_loop cmp prefer_list list other
                      else list_merge_loop cmp (\<not> prefer_list) other list))"
  by pat_completeness auto
termination by (relation "measure (\<lambda>(cmp, p, list, other). length list + length other)") auto

definition list_merge :: "('a \<Rightarrow> 'a \<Rightarrow> int) \<Rightarrow> 'a list \<Rightarrow> 'a list \<Rightarrow> 'a list" where
  "list_merge cmp list other =
     (if cmp (hd list) (hd other) \<le> 0 then list_merge_loop cmp True list other
      else list_merge_loop cmp False other list)"

function list_carry :: "('a \<Rightarrow> 'a \<Rightarrow> int) \<Rightarrow> 'a list list \<Rightarrow> nat \<Rightarrow> nat \<Rightarrow> 'a list \<Rightarrow> nat \<times> 'a list" where
  "list_carry cmp ranks i m list =
     (if odd m then list_carry cmp ranks (i + 1) (m div 2) (list_merge cmp (ranks ! i) list)
      else (i, list))"
  by pat_completeness auto
termination by (relation "measure (\<lambda>(cmp, ranks, i, m, list). m)") (auto elim: oddE)

declare list_carry.simps [simp del]

function list_collect :: "('a \<Rightarrow> 'a \<Rightarrow> int) \<Rightarrow> 'a list list \<Rightarrow> nat \<Rightarrow> nat \<Rightarrow> 'a list \<Rightarrow> 'a list" where
  "list_collect cmp ranks i m list =
     (if odd m then list_collect cmp ranks (i + 1) (m div 2) (list_merge cmp (ranks ! i) list)
      else if m = 0 then list
      else list_collect cmp ranks (i + 1) (m div 2) list)"
  by pat_completeness auto
termination by (relation "measure (\<lambda>(cmp, ranks, i, m, list). m)") (auto elim: oddE)

declare list_collect.simps [simp del]

fun list_sort_loop :: "('a \<Rightarrow> 'a \<Rightarrow> int) \<Rightarrow> 'a list list \<Rightarrow> nat \<Rightarrow> 'a list \<Rightarrow> 'a list" where
  "list_sort_loop cmp ranks n [] = []"
| "list_sort_loop cmp ranks n [x] = list_collect cmp ranks 0 n [x]"
| "list_sort_loop cmp ranks n (x # rest) =
     (let (i, list) = list_carry cmp ranks 0 n [x] in
      list_sort_loop cmp (ranks[i := list]) (n + 1) rest)"

definition list_sort :: "('a \<Rightarrow> 'a \<Rightarrow> int) \<Rightarrow> 'a list \<Rightarrow> 'a list" where
  "list_sort cmp list = (if list = [] then [] else list_sort_loop cmp (replicate 64 []) 0 list)"

section \<open>Reference: insertion sort\<close>

fun cinsort :: "('a \<Rightarrow> 'a \<Rightarrow> int) \<Rightarrow> 'a \<Rightarrow> 'a list \<Rightarrow> 'a list" where
  "cinsort cmp x [] = [x]"
| "cinsort cmp x (y # ys) = (if cmp x y \<le> 0 then x # y # ys else y # cinsort cmp x ys)"

definition cisort :: "('a \<Rightarrow> 'a \<Rightarrow> int) \<Rightarrow> 'a list \<Rightarrow> 'a list" where
  "cisort cmp xs = foldr (cinsort cmp) xs []"

lemma cisort_simps [simp]:
  "cisort cmp [] = []" "cisort cmp (x # xs) = cinsort cmp x (cisort cmp xs)"
  by (simp_all add: cisort_def)

lemma mset_cinsort [simp]: "mset (cinsort cmp x ys) = add_mset x (mset ys)"
  by (induction ys) auto

lemma mset_cisort [simp]: "mset (cisort cmp xs) = mset xs"
  by (induction xs) auto

lemma set_cinsort [simp]: "set (cinsort cmp x ys) = insert x (set ys)"
  by (induction ys) auto

lemma set_cisort [simp]: "set (cisort cmp xs) = set xs"
  by (induction xs) auto

lemma length_cisort [simp]: "length (cisort cmp xs) = length xs"
  by (metis mset_cisort size_mset)

lemma cisort_eq_Nil [simp]: "cisort cmp xs = [] \<longleftrightarrow> xs = []"
  by (metis length_cisort length_0_conv)

context comparison
begin

abbreviation csorted :: "'a list \<Rightarrow> bool" where
  "csorted \<equiv> sorted_wrt (\<lambda>x y. cmp x y \<le> 0)"

lemma csorted_cinsort: "csorted ys \<Longrightarrow> csorted (cinsort cmp x ys)"
proof (induction ys)
  case (Cons y ys)
  then show ?case using cmp_trans [of x y] cmp_le_total [of x y] by auto
qed simp

lemma csorted_cisort: "csorted (cisort cmp xs)"
  by (induction xs) (auto intro: csorted_cinsort)

lemma filter_cinsort:
  "filter (\<lambda>y. cmp z y = 0) (cinsort cmp x ys) = filter (\<lambda>y. cmp z y = 0) (x # ys)"
proof (induction ys)
  case (Cons y ys)
  then show ?case using cmp_zero_trans [of x z y] cmp_zero_sym [of x z] by auto
qed simp

lemma filter_cisort: "filter (\<lambda>y. cmp z y = 0) (cisort cmp xs) = filter (\<lambda>y. cmp z y = 0) xs"
  by (induction xs) (auto simp: filter_cinsort)

lemma cinsort_commute:
  assumes "0 < cmp x y"
  shows "cinsort cmp x (cinsort cmp y zs) = cinsort cmp y (cinsort cmp x zs)"
proof (induction zs)
  case Nil
  then show ?case using assms cmp_pos_iff [of x y] by auto
next
  case (Cons z zs)
  show ?case
    using Cons assms cmp_pos_iff [of x y] cmp_trans [of x z y] cmp_le_total [of y z] cmp_trans [of y x z] by auto
qed

lemma foldr_cinsort_cinsort:
  "foldr (cinsort cmp) (cinsort cmp x l) zs = cinsort cmp x (foldr (cinsort cmp) l zs)"
  by (induction l) (auto simp: cinsort_commute)

lemma foldr_cinsort_cisort: "foldr (cinsort cmp) (cisort cmp xs) zs = foldr (cinsort cmp) xs zs"
  by (induction xs) (auto simp: foldr_cinsort_cinsort)

lemma cinsort_le: "\<forall>y \<in> set ys. cmp x y \<le> 0 \<Longrightarrow> cinsort cmp x ys = x # ys"
  by (cases ys) auto

lemma set_foldr_cinsort: "set (foldr (cinsort cmp) xs ys) = set xs \<union> set ys"
  by (induction xs) auto

lemma foldr_cinsort_greater:
  "\<forall>x \<in> set xs. 0 < cmp x y \<Longrightarrow> foldr (cinsort cmp) xs (y # ys) = y # foldr (cinsort cmp) xs ys"
  by (induction xs) auto

lemma foldr_cinsort_sorted: "csorted xs \<Longrightarrow> foldr (cinsort cmp) xs [] = xs"
  by (induction xs) (auto simp: cinsort_le)

lemma msort_merge_eq:
  "csorted xs \<Longrightarrow> csorted ys \<Longrightarrow> msort_merge cmp xs ys = foldr (cinsort cmp) xs ys"
proof (induction xs arbitrary: ys)
  case Nil
  then show ?case by (cases ys) auto
next
  case (Cons x xs)
  note outer = Cons
  from Cons.prems(2) show ?case
  proof (induction ys)
    case Nil
    then show ?case using outer(2) foldr_cinsort_sorted [of "x # xs"] by simp
  next
    case (Cons y ys)
    show ?case
    proof (cases "cmp x y \<le> 0")
      case True
      with outer(2) Cons.prems have "\<forall>z \<in> set (foldr (cinsort cmp) xs (y # ys)). cmp x z \<le> 0"
        using cmp_trans [of x y] by (auto simp: set_foldr_cinsort)
      with True outer Cons.prems show ?thesis by (simp add: cinsort_le)
    next
      case False
      have "0 < cmp z y" if "z \<in> set (x # xs)" for z
        using that False outer(2) cmp_trans [of x z y] by fastforce
      with False Cons show ?thesis using foldr_cinsort_greater [of "x # xs" y ys] by simp
    qed
  qed
qed

lemma msort_merge_cisort: "msort_merge cmp (cisort cmp xs) (cisort cmp ys) = cisort cmp (xs @ ys)"
  by (simp add: msort_merge_eq csorted_cisort foldr_cinsort_cisort) (simp add: cisort_def)

lemma msort_with_tmp_cisort: "msort_with_tmp cmp b = cisort cmp b"
proof (induction "length b" arbitrary: b rule: less_induct)
  case less
  show ?case
  proof (cases "length b \<le> 1")
    case True
    then show ?thesis by (cases b) (auto simp: msort_with_tmp.simps)
  next
    case False
    then show ?thesis
      by (subst msort_with_tmp.simps) (simp add: Let_def less msort_merge_cisort)
  qed
qed

lemma list_merge_loop_eq:
  assumes "xs \<noteq> []" "ys \<noteq> []"
    and "if pl then cmp (hd xs) (hd ys) \<le> 0 else cmp (hd xs) (hd ys) < 0"
  shows "list_merge_loop cmp pl xs ys = (if pl then msort_merge cmp xs ys else msort_merge cmp ys xs)"
  using assms
proof (induction "length xs + length ys" arbitrary: pl xs ys rule: less_induct)
  case less
  then obtain x xs' y ys' where xy: "xs = x # xs'" "ys = y # ys'" by (auto simp: neq_Nil_conv)
  have flip: "cmp y z \<le> 0 \<longleftrightarrow> \<not> cmp z y < 0" "cmp y z < 0 \<longleftrightarrow> \<not> cmp z y \<le> 0" for z
    using cmp_pos_iff [of z y] cmp_not_less [of z y] by auto
  show ?case
  proof (cases xs')
    case Nil
    with less.prems xy flip [of x] show ?thesis by (cases pl) auto
  next
    case (Cons z zs)
    show ?thesis
    proof (cases "cmp z y < of_bool pl")
      case True
      with less.hyps [of xs' ys pl] less.prems xy Cons flip [of x] show ?thesis by (cases pl) auto
    next
      case False
      with less.hyps [of ys xs' "\<not> pl"] less.prems xy Cons flip [of z] flip [of x] show ?thesis
        by (cases pl) auto
    qed
  qed
qed

lemma list_merge_eq: "xs \<noteq> [] \<Longrightarrow> ys \<noteq> [] \<Longrightarrow> list_merge cmp xs ys = msort_merge cmp xs ys"
  using list_merge_loop_eq [of xs ys True] list_merge_loop_eq [of ys xs False] cmp_pos_iff [of "hd xs" "hd ys"]
  by (auto simp: list_merge_def)

lemma list_merge_cisort:
  "xs \<noteq> [] \<Longrightarrow> ys \<noteq> [] \<Longrightarrow> list_merge cmp (cisort cmp xs) (cisort cmp ys) = cisort cmp (xs @ ys)"
  by (simp add: list_merge_eq msort_merge_cisort)

end

section \<open>The partial results of the list sort\<close>

text \<open>
  \<open>ranks_repr cmp ranks i m xs\<close>: the entries of \<open>ranks\<close> from \<open>i\<close> on that belong to the set bits of
  \<open>m\<close> are the sorted pieces of \<open>xs\<close>, the highest entry holding the first piece.
\<close>

inductive ranks_repr :: "('a \<Rightarrow> 'a \<Rightarrow> int) \<Rightarrow> 'a list list \<Rightarrow> nat \<Rightarrow> nat \<Rightarrow> 'a list \<Rightarrow> bool"
  for cmp ranks where
  zero: "ranks_repr cmp ranks i 0 []"
| even: "ranks_repr cmp ranks (Suc i) m xs \<Longrightarrow> 0 < m \<Longrightarrow> ranks_repr cmp ranks i (2 * m) xs"
| odd: "ranks_repr cmp ranks (Suc i) m ys \<Longrightarrow> zs \<noteq> [] \<Longrightarrow> ranks ! i = cisort cmp zs \<Longrightarrow>
    ranks_repr cmp ranks i (Suc (2 * m)) (ys @ zs)"

lemma ranks_repr_frame:
  "ranks_repr cmp ranks i m xs \<Longrightarrow> j < i \<Longrightarrow> ranks_repr cmp (ranks[j := l]) i m xs"
  by (induction rule: ranks_repr.induct) (auto intro: ranks_repr.intros)

context comparison
begin

lemma list_collect_eq:
  "ranks_repr cmp ranks i m xs \<Longrightarrow> l \<noteq> [] \<Longrightarrow>
   list_collect cmp ranks i m (cisort cmp l) = cisort cmp (xs @ l)"
proof (induction arbitrary: l rule: ranks_repr.induct)
  case (zero i)
  then show ?case by (subst list_collect.simps) simp
next
  case (even i m xs)
  then show ?case by (subst list_collect.simps) simp
next
  case (odd i m ys zs)
  then show ?case by (subst list_collect.simps) (simp add: list_merge_cisort)
qed

lemma list_carry_repr:
  assumes "ranks_repr cmp ranks i m xs" and "l \<noteq> []" and "m + 1 < 2 ^ (length ranks - i)" and "i < length ranks"
  shows "\<exists>j zs. list_carry cmp ranks i m (cisort cmp l) = (j, cisort cmp zs) \<and> i \<le> j \<and> j < length ranks \<and>
    ranks_repr cmp (ranks[j := cisort cmp zs]) i (m + 1) (xs @ l)"
  using assms
proof (induction arbitrary: l rule: ranks_repr.induct)
  case (zero i)
  have "ranks_repr cmp (ranks[i := cisort cmp l]) i (Suc (2 * 0)) ([] @ l)"
    using zero by (intro ranks_repr.intros) auto
  then show ?case using zero by (subst list_carry.simps) auto
next
  case (even i m xs)
  have "ranks_repr cmp (ranks[i := cisort cmp l]) i (Suc (2 * m)) (xs @ l)"
    using even by (intro ranks_repr.intros) (auto intro: ranks_repr_frame)
  then show ?case using even by (subst list_carry.simps) auto
next
  case (odd i m ys zs)
  have "2 * m + 2 < 2 ^ (length ranks - i)" using odd.prems(2) by simp
  moreover have "length ranks - i = Suc (length ranks - Suc i)" using odd.prems(3) by simp
  ultimately have m: "m + 1 < 2 ^ (length ranks - Suc i)" by (simp only: power_Suc)
  then have "Suc i < length ranks" by (metis One_nat_def add_lessD1 diff_is_0_eq' less_one not_add_less2 not_le power_0)
  from odd.IH [OF _ m this, of "zs @ l"] odd.prems obtain j us where
    j: "list_carry cmp ranks (Suc i) m (cisort cmp (zs @ l)) = (j, cisort cmp us)" "Suc i \<le> j" "j < length ranks"
    "ranks_repr cmp (ranks[j := cisort cmp us]) (Suc i) (m + 1) (ys @ zs @ l)" by auto
  from j(4) have "ranks_repr cmp (ranks[j := cisort cmp us]) i (2 * (m + 1)) (ys @ zs @ l)"
    by (rule ranks_repr.even) simp
  moreover have "list_carry cmp ranks i (Suc (2 * m)) (cisort cmp l) = (j, cisort cmp us)"
    using odd.hyps odd.prems j(1) by (subst list_carry.simps) (simp add: list_merge_cisort)
  ultimately show ?case using j(2,3) by auto
qed

lemma list_sort_loop_eq:
  assumes "ranks_repr cmp ranks 0 n xs" and "ys \<noteq> []" and "n + length ys < 2 ^ length ranks" and "ranks \<noteq> []"
  shows "list_sort_loop cmp ranks n ys = cisort cmp (xs @ ys)"
  using assms
proof (induction ys arbitrary: ranks n xs)
  case (Cons y ys)
  show ?case
  proof (cases ys)
    case Nil
    then show ?thesis using list_collect_eq [OF Cons.prems(1), of "[y]"] by simp
  next
    case (Cons z zs)
    have "n + 1 < 2 ^ (length ranks - 0)" using Cons.prems Cons by simp
    from list_carry_repr [OF Cons.prems(1) _ this, of "[y]"] Cons.prems(4) obtain j us where
      j: "list_carry cmp ranks 0 n [y] = (j, cisort cmp us)"
      "ranks_repr cmp (ranks[j := cisort cmp us]) 0 (n + 1) (xs @ [y])" by auto
    from Cons.IH [OF j(2)] Cons Cons.prems j(1) show ?thesis by simp
  qed
qed simp

lemma list_sort_cisort: "length xs < 2 ^ 64 \<Longrightarrow> list_sort cmp xs = cisort cmp xs"
  using list_sort_loop_eq [of "replicate 64 []" 0 "[]" xs] by (simp add: list_sort_def ranks_repr.zero)

end

context comparison
begin

lemma csorted_unique_on:
  assumes "csorted xs" and "csorted ys" and "mset xs = mset ys"
    and "\<forall>x \<in> set xs. \<forall>y \<in> set xs. cmp x y = 0 \<longrightarrow> x = y"
  shows "xs = ys"
  using assms
proof (induction xs arbitrary: ys)
  case (Cons x xs)
  then obtain y ys' where ys: "ys = y # ys'" by (cases ys) auto
  have xy: "x \<in> set ys" "y \<in> set (x # xs)"
    using Cons.prems(3) ys by (metis list.set_intros(1) set_mset_mset)+
  with Cons.prems ys have "x = y \<or> cmp x y \<le> 0 \<and> cmp y x \<le> 0" by auto
  then have "cmp x y = 0" using cmp_pos_iff [of y x] by fastforce
  with Cons.prems(4) xy have "x = y" by auto
  with Cons ys show ?case by auto
qed simp

end

context strict_comparison
begin

lemma sorted_perm_cisort: "csorted xs \<Longrightarrow> mset xs = mset ys \<Longrightarrow> xs = cisort cmp ys"
  by (rule csorted_unique_on) (simp_all add: csorted_cisort)

end

section \<open>Properties\<close>

text \<open>
  C27: \<open>git_stable_qsort\<close> is a stable sort.  For every comparison callback that is a total
  preorder the result is ordered by the callback, is a permutation of the input, and keeps the
  input order among the elements that compare equal.
\<close>

theorem git_stable_qsort_stable:
  assumes "comparison cmp"
  shows "sorted_wrt (\<lambda>x y. cmp x y \<le> 0) (git_stable_qsort cmp b) \<and>
    mset (git_stable_qsort cmp b) = mset b \<and>
    (\<forall>z. filter (\<lambda>y. cmp z y = 0) (git_stable_qsort cmp b) = filter (\<lambda>y. cmp z y = 0) b)"
  using assms
  by (simp add: git_stable_qsort_def comparison.msort_with_tmp_cisort comparison.csorted_cisort
      comparison.filter_cisort)

theorem git_stable_qsort_stable_witness:
  "sorted_wrt (\<lambda>x y. strcmp x y \<le> 0) (git_stable_qsort strcmp [[2], [1, 3], [1]])"
  using git_stable_qsort_stable [OF strcmp.comparison_axioms, of "[[2], [1, 3], [1]]"] by blast

text \<open>
  the linked-list sort of \<open>mergesort.h\<close>, which keeps its partial results in 64 ranks that
  work like the bits of a counter, computes the same list as the array sort
  \<open>git_stable_qsort\<close>, for every list that fits the address space.
\<close>

theorem list_sort_eq_stable_qsort:
  assumes "comparison cmp" and "length xs < 2 ^ 64"
  shows "list_sort cmp xs = git_stable_qsort cmp xs"
  using assms
  by (simp add: git_stable_qsort_def comparison.msort_with_tmp_cisort comparison.list_sort_cisort)

theorem list_sort_eq_stable_qsort_witness:
  "list_sort strcmp [[2], [1, 3], [1]] = git_stable_qsort strcmp [[2], [1, 3], [1]]"
  using list_sort_eq_stable_qsort [OF strcmp.comparison_axioms, of "[[2], [1, 3], [1]]"] by simp

end
