(* ===== verification/Prio_Queue.thy ===== *)
theory Prio_Queue
  imports Stable_Sort
begin

text \<open>
  \<open>prio-queue.c\<close>: the binary heap behind the revision walk.  The array holds the \<open>nr\<close> entries in
  use; the insertion counter keeps its 64 bits.  A queue without a comparison function is a
  stack.  The heap refines an ordered list in which a new thing is placed behind all things
  that compare equal to it; so the queue is stable, and draining it is a stable sort.
\<close>

section \<open>The queue\<close>

record 'a prio_queue_entry =
  pe_ctr :: u64
  pe_data :: 'a

record 'a prio_queue =
  pq_compare :: "('a \<Rightarrow> 'a \<Rightarrow> int) option"
  pq_ctr :: u64
  pq_array :: "'a prio_queue_entry list"

definition entry_compare :: "('a \<Rightarrow> 'a \<Rightarrow> int) \<Rightarrow> 'a prio_queue_entry \<Rightarrow> 'a prio_queue_entry \<Rightarrow> int" where
  "entry_compare cmp a b =
     (let c = cmp (pe_data a) (pe_data b) in
      if c = 0 then of_bool (pe_ctr b < pe_ctr a) - of_bool (pe_ctr a < pe_ctr b) else c)"

definition swap_entries :: "nat \<Rightarrow> nat \<Rightarrow> 'a list \<Rightarrow> 'a list" where
  "swap_entries i j xs = xs[i := xs ! j, j := xs ! i]"

lemma length_swap_entries [simp]: "length (swap_entries i j xs) = length xs"
  by (simp add: swap_entries_def)

function reverse_loop :: "nat \<Rightarrow> 'a list \<Rightarrow> 'a list" where
  "reverse_loop i xs =
     (if i < length xs - 1 - i then reverse_loop (i + 1) (swap_entries i (length xs - 1 - i) xs) else xs)"
  by pat_completeness auto
termination by (relation "measure (\<lambda>(i, xs). length xs - i)") auto

declare reverse_loop.simps [simp del]

definition prio_queue_reverse :: "'a prio_queue \<Rightarrow> cfault + 'a prio_queue" where
  "prio_queue_reverse queue =
     (if pq_compare queue \<noteq> None then Inl Bug
      else if pq_array queue = [] then Inr queue
      else Inr (queue\<lparr>pq_array := reverse_loop 0 (pq_array queue)\<rparr>))"

definition clear_prio_queue :: "'a prio_queue \<Rightarrow> 'a prio_queue" where
  "clear_prio_queue queue = queue\<lparr>pq_array := [], pq_ctr := 0\<rparr>"

function bubble_up :: "('a \<Rightarrow> 'a \<Rightarrow> int) \<Rightarrow> nat \<Rightarrow> 'a list \<Rightarrow> 'a list" where
  "bubble_up cmp ix xs =
     (if ix = 0 then xs
      else (let parent = (ix - 1) div 2 in
            if cmp (xs ! parent) (xs ! ix) \<le> 0 then xs
            else bubble_up cmp parent (swap_entries parent ix xs)))"
  by pat_completeness auto
termination by (relation "measure (\<lambda>(cmp, ix, xs). ix)") auto

declare bubble_up.simps [simp del]

definition prio_queue_put :: "'a prio_queue \<Rightarrow> 'a \<Rightarrow> 'a prio_queue" where
  "prio_queue_put queue thing =
     (let array = pq_array queue @ [\<lparr>pe_ctr = pq_ctr queue, pe_data = thing\<rparr>];
          queue = queue\<lparr>pq_ctr := pq_ctr queue + 1, pq_array := array\<rparr>
      in case pq_compare queue of
           None \<Rightarrow> queue
         | Some cmp \<Rightarrow>
             queue\<lparr>pq_array := bubble_up (entry_compare cmp) (length array - 1) array\<rparr>)"

function push_down :: "('a \<Rightarrow> 'a \<Rightarrow> int) \<Rightarrow> nat \<Rightarrow> 'a list \<Rightarrow> 'a list" where
  "push_down cmp ix xs =
     (if ix * 2 + 1 < length xs then
        (let child = ix * 2 + 1;
             child = (if child + 1 < length xs \<and> 0 \<le> cmp (xs ! child) (xs ! (child + 1))
                      then child + 1 else child)
         in if cmp (xs ! ix) (xs ! child) \<le> 0 then xs
            else push_down cmp child (swap_entries child ix xs))
      else xs)"
  by pat_completeness auto
termination by (relation "measure (\<lambda>(cmp, ix, xs). length xs - ix)") (auto simp: Let_def)

declare push_down.simps [simp del]

definition prio_queue_get :: "'a prio_queue \<Rightarrow> 'a option \<times> 'a prio_queue" where
  "prio_queue_get queue =
     (let array = pq_array queue in
      if array = [] then (None, queue)
      else case pq_compare queue of
             None \<Rightarrow> (Some (pe_data (last array)), queue\<lparr>pq_array := butlast array\<rparr>)
           | Some cmp \<Rightarrow>
               (let result = pe_data (array ! 0);
                    nr = length array - 1
                in if nr = 0 then (Some result, queue\<lparr>pq_array := []\<rparr>)
                   else (Some result,
                         queue\<lparr>pq_array := push_down (entry_compare cmp) 0
                                            (take nr (array[0 := array ! nr]))\<rparr>)))"

definition prio_queue_peek :: "'a prio_queue \<Rightarrow> 'a option" where
  "prio_queue_peek queue =
     (let array = pq_array queue in
      if array = [] then None
      else case pq_compare queue of
             None \<Rightarrow> Some (pe_data (array ! (length array - 1)))
           | Some cmp \<Rightarrow> Some (pe_data (array ! 0)))"

section \<open>The interface\<close>

text \<open>
  The abstract queue is a list, smallest first.  \<open>abs_put\<close> places a thing behind everything
  that does not compare greater.
\<close>

fun abs_put :: "('a \<Rightarrow> 'a \<Rightarrow> int) \<Rightarrow> 'a \<Rightarrow> 'a list \<Rightarrow> 'a list" where
  "abs_put cmp x [] = [x]"
| "abs_put cmp x (y # ys) = (if cmp y x \<le> 0 then y # abs_put cmp x ys else x # y # ys)"

fun pq_drain :: "nat \<Rightarrow> ('q \<Rightarrow> 'a option \<times> 'q) \<Rightarrow> 'q \<Rightarrow> 'a list" where
  "pq_drain 0 get q = []"
| "pq_drain (Suc n) get q = (case get q of (None, q') \<Rightarrow> [] | (Some x, q') \<Rightarrow> x # pq_drain n get q')"

locale priority_queue = comparison cmp for cmp :: "'a \<Rightarrow> 'a \<Rightarrow> int" +
  fixes put :: "'q \<Rightarrow> 'a \<Rightarrow> 'q"
    and get :: "'q \<Rightarrow> 'a option \<times> 'q"
    and qabs :: "'q \<Rightarrow> 'a list"
    and room :: "'q \<Rightarrow> nat"
    and inv :: "'q \<Rightarrow> bool"
  assumes put_inv: "inv q \<Longrightarrow> 0 < room q \<Longrightarrow> inv (put q x)"
    and put_abs: "inv q \<Longrightarrow> 0 < room q \<Longrightarrow> qabs (put q x) = abs_put cmp x (qabs q)"
    and put_room: "inv q \<Longrightarrow> 0 < room q \<Longrightarrow> room (put q x) = room q - 1"
    and get_empty: "inv q \<Longrightarrow> qabs q = [] \<Longrightarrow> get q = (None, q)"
    and get_some: "inv q \<Longrightarrow> qabs q = x # xs \<Longrightarrow>
      \<exists>q'. get q = (Some x, q') \<and> inv q' \<and> qabs q' = xs \<and> room q' = room q"
begin

lemma put_all:
  "inv q \<Longrightarrow> length xs \<le> room q \<Longrightarrow>
   inv (foldl put q xs) \<and> qabs (foldl put q xs) = fold (abs_put cmp) xs (qabs q)"
  by (induction xs arbitrary: q) (auto simp: put_inv put_abs put_room)

lemma drain: "inv q \<Longrightarrow> length (qabs q) \<le> n \<Longrightarrow> pq_drain n get q = qabs q"
proof (induction n arbitrary: q)
  case (Suc n)
  show ?case
  proof (cases "qabs q")
    case Nil
    with Suc.prems show ?thesis by (simp add: get_empty)
  next
    case (Cons x xs)
    from get_some [OF Suc.prems(1) Cons] obtain q' where "get q = (Some x, q')" "inv q'" "qabs q' = xs" by blast
    with Suc Cons show ?thesis by simp
  qed
qed simp

end

text \<open>What a client that does not depend on the order relies on: the queue is a bag.\<close>

locale bag_queue =
  fixes put :: "'q \<Rightarrow> 'a \<Rightarrow> 'q"
    and get :: "'q \<Rightarrow> 'a option \<times> 'q"
    and bag :: "'q \<Rightarrow> 'a multiset"
    and room :: "'q \<Rightarrow> nat"
    and inv :: "'q \<Rightarrow> bool"
  assumes put_bag: "inv q \<Longrightarrow> 0 < room q \<Longrightarrow>
      inv (put q x) \<and> bag (put q x) = add_mset x (bag q) \<and> room (put q x) = room q - 1"
    and get_none: "inv q \<Longrightarrow> bag q = {#} \<Longrightarrow> get q = (None, q)"
    and get_one: "inv q \<Longrightarrow> bag q \<noteq> {#} \<Longrightarrow>
      \<exists>x q'. get q = (Some x, q') \<and> inv q' \<and> bag q = add_mset x (bag q') \<and> room q' = room q"

lemma mset_abs_put: "mset (abs_put cmp x ys) = add_mset x (mset ys)"
  by (induction ys) auto

context priority_queue
begin

sublocale bag: bag_queue put get "\<lambda>q. mset (qabs q)" room inv
proof
  show "\<exists>x q'. get q = (Some x, q') \<and> inv q' \<and> mset (qabs q) = add_mset x (mset (qabs q')) \<and> room q' = room q"
    if "inv q" "mset (qabs q) \<noteq> {#}" for q
    using get_some [OF that(1)] that(2) by (cases "qabs q") auto
qed (auto simp: put_inv put_abs put_room mset_abs_put get_empty)

end

context comparison
begin

lemma csorted_abs_put: "csorted ys \<Longrightarrow> csorted (abs_put cmp x ys)"
proof (induction ys)
  case (Cons y ys)
  have "set (abs_put cmp x ys) = insert x (set ys)" by (induction ys) auto
  with Cons show ?case using cmp_trans [of x y] cmp_le_total [of x y] by auto
qed simp

lemma abs_put_cinsort_commute:
  "csorted zs \<Longrightarrow> abs_put cmp x (cinsort cmp y zs) = cinsort cmp y (abs_put cmp x zs)"
proof (induction zs)
  case Nil
  then show ?case using cmp_pos_iff [of y x] by (auto simp: not_le)
next
  case (Cons z zs)
  then show ?case
    using cmp_trans [of y z x] cmp_trans [of z x y] cmp_le_total [of y x] cmp_le_total [of z x]
      cmp_le_total [of z y] cmp_trans [of y x z] cmp_trans [of z y x]
    by auto
qed

lemma fold_abs_put: "fold (abs_put cmp) xs (cisort cmp ys) = cisort cmp (ys @ xs)"
proof (induction xs arbitrary: ys)
  case (Cons x xs)
  have "abs_put cmp x (cisort cmp ys) = cisort cmp (ys @ [x])"
    by (induction ys) (simp_all add: abs_put_cinsort_commute csorted_cisort)
  with Cons.IH [of "ys @ [x]"] show ?case by simp
qed simp

end

section \<open>The heap\<close>

definition parent_ix :: "nat \<Rightarrow> nat" where
  "parent_ix i = (i - 1) div 2"

definition smaller_child :: "('a \<Rightarrow> 'a \<Rightarrow> int) \<Rightarrow> 'a list \<Rightarrow> nat \<Rightarrow> nat" where
  "smaller_child cmp xs k =
     (let c = k * 2 + 1 in
      if c + 1 < length xs \<and> 0 \<le> cmp (xs ! c) (xs ! (c + 1)) then c + 1 else c)"

lemma bubble_up_unfold:
  "bubble_up cmp k xs =
     (if k = 0 \<or> cmp (xs ! parent_ix k) (xs ! k) \<le> 0 then xs
      else bubble_up cmp (parent_ix k) (swap_entries (parent_ix k) k xs))"
  by (subst bubble_up.simps) (simp add: Let_def parent_ix_def)

lemma push_down_unfold:
  "push_down cmp k xs =
     (if k * 2 + 1 < length xs \<and> 0 < cmp (xs ! k) (xs ! smaller_child cmp xs k)
      then push_down cmp (smaller_child cmp xs k) (swap_entries (smaller_child cmp xs k) k xs)
      else xs)"
  unfolding push_down.simps [of cmp k xs] Let_def smaller_child_def by (simp add: not_le)

lemma smaller_child_bounds:
  "k * 2 + 1 < length xs \<Longrightarrow> smaller_child cmp xs k < length xs \<and> k < smaller_child cmp xs k \<and>
   parent_ix (smaller_child cmp xs k) = k"
  by (simp add: smaller_child_def Let_def parent_ix_def)

definition heap_at :: "('a \<Rightarrow> 'a \<Rightarrow> int) \<Rightarrow> 'a list \<Rightarrow> nat \<Rightarrow> bool" where
  "heap_at cmp xs i \<longleftrightarrow> 0 < i \<and> i < length xs \<longrightarrow> cmp (xs ! (parent_ix i)) (xs ! i) \<le> 0"

definition is_heap :: "('a \<Rightarrow> 'a \<Rightarrow> int) \<Rightarrow> 'a list \<Rightarrow> bool" where
  "is_heap cmp xs \<longleftrightarrow> (\<forall>i. heap_at cmp xs i)"

text \<open>The order holds except between \<open>k\<close> and its parent (\<open>heap_up\<close>) or its children (\<open>heap_down\<close>).\<close>

definition heap_skip :: "('a \<Rightarrow> 'a \<Rightarrow> int) \<Rightarrow> 'a list \<Rightarrow> nat \<Rightarrow> bool" where
  "heap_skip cmp xs k \<longleftrightarrow>
     (\<forall>i. 0 < i \<and> i < length xs \<and> parent_ix i = k \<and> 0 < k \<longrightarrow> cmp (xs ! (parent_ix k)) (xs ! i) \<le> 0)"

definition heap_up :: "('a \<Rightarrow> 'a \<Rightarrow> int) \<Rightarrow> 'a list \<Rightarrow> nat \<Rightarrow> bool" where
  "heap_up cmp xs k \<longleftrightarrow> (\<forall>i. i \<noteq> k \<longrightarrow> heap_at cmp xs i) \<and> heap_skip cmp xs k"

definition heap_down :: "('a \<Rightarrow> 'a \<Rightarrow> int) \<Rightarrow> 'a list \<Rightarrow> nat \<Rightarrow> bool" where
  "heap_down cmp xs k \<longleftrightarrow> (\<forall>i. parent_ix i \<noteq> k \<longrightarrow> heap_at cmp xs i) \<and> heap_skip cmp xs k"

lemmas heap_defs = heap_at_def is_heap_def heap_skip_def heap_up_def heap_down_def

lemma mset_swap_entries: "i < length xs \<Longrightarrow> j < length xs \<Longrightarrow> mset (swap_entries i j xs) = mset xs"
  by (simp add: swap_entries_def mset_swap)

lemma nth_swap_entries:
  "i < length xs \<Longrightarrow> j < length xs \<Longrightarrow>
   swap_entries i j xs ! k = (if k = i then xs ! j else if k = j then xs ! i else xs ! k)"
  by (auto simp: swap_entries_def nth_list_update)

lemma parent_less: "0 < i \<Longrightarrow> parent_ix i < i"
  unfolding parent_ix_def by linarith

lemma parent_cases: "0 < i \<Longrightarrow> parent_ix i = ix \<Longrightarrow> i = ix * 2 + 1 \<or> i = ix * 2 + 2"
  unfolding parent_ix_def by linarith

context comparison
begin

lemma heap_up_step:
  assumes "heap_up cmp xs k" and "k < length xs" and "0 < k" and "0 < cmp (xs ! (parent_ix k)) (xs ! k)"
  shows "heap_up cmp (swap_entries (parent_ix k) k xs) (parent_ix k)"
proof -
  let ?p = "parent_ix k" let ?ys = "swap_entries ?p k xs"
  have p: "?p < k" "?p < length xs" using assms(2) parent_less [OF assms(3)] by linarith+
  have nth: "?ys ! j = (if j = ?p then xs ! k else if j = k then xs ! ?p else xs ! j)" for j
    using nth_swap_entries [of ?p xs k j] p assms(2) by simp
  have kp: "cmp (xs ! k) (xs ! ?p) \<le> 0" using assms(4) cmp_pos_iff by fastforce
  have old: "cmp (xs ! (parent_ix i)) (xs ! i) \<le> 0" if "0 < i" "i < length xs" "i \<noteq> k" for i
    using assms(1) that by (auto simp: heap_defs)
  have skip: "cmp (xs ! ?p) (xs ! i) \<le> 0" if "0 < i" "i < length xs" "parent_ix i = k" for i
    using assms(1,3) that by (auto simp: heap_defs)
  have "heap_at cmp ?ys i" if "i \<noteq> ?p" for i
    unfolding heap_at_def
  proof (intro impI, elim conjE)
    assume i: "0 < i" "i < length ?ys"
    consider "i = k" | "i \<noteq> k" "parent_ix i = k" | "i \<noteq> k" "parent_ix i = ?p" | "i \<noteq> k" "parent_ix i \<noteq> k" "parent_ix i \<noteq> ?p"
      by blast
    then show "cmp (?ys ! (parent_ix i)) (?ys ! i) \<le> 0"
    proof cases
      case 1
      then show ?thesis using kp p by (simp add: nth)
    next
      case 2
      then show ?thesis using skip [of i] i p that by (simp add: nth)
    next
      case 3
      then show ?thesis using old [of i] cmp_trans [OF kp] i that by (simp add: nth)
    next
      case 4
      then show ?thesis using old [of i] i that by (simp add: nth)
    qed
  qed
  moreover have "heap_skip cmp ?ys ?p"
    unfolding heap_skip_def
  proof (intro allI impI, elim conjE)
    fix i assume i: "0 < i" "i < length ?ys" "parent_ix i = ?p" "0 < ?p"
    let ?pp = "parent_ix ?p"
    have pp: "?pp < ?p" using parent_less [OF i(4)] .
    have up: "cmp (xs ! ?pp) (xs ! ?p) \<le> 0" using old [of ?p] i p by simp
    have "i \<noteq> ?p" using i parent_less [of i] by linarith
    then show "cmp (?ys ! ?pp) (?ys ! i) \<le> 0"
      using up old [of i] cmp_trans [OF up] i pp p by (cases "i = k") (simp_all add: nth)
  qed
  ultimately show ?thesis by (simp add: heap_up_def)
qed

lemma bubble_up_heap: "heap_up cmp xs k \<Longrightarrow> k < length xs \<Longrightarrow> is_heap cmp (bubble_up cmp k xs)"
proof (induction k arbitrary: xs rule: less_induct)
  case (less k)
  show ?case
  proof (cases "k = 0 \<or> cmp (xs ! (parent_ix k)) (xs ! k) \<le> 0")
    case True
    then have "bubble_up cmp k xs = xs" by (subst bubble_up_unfold) auto
    moreover have "heap_at cmp xs i" for i using True less.prems(1) by (cases "i = k") (auto simp: heap_defs)
    ultimately show ?thesis by (simp add: is_heap_def)
  next
    case False
    then have "bubble_up cmp k xs = bubble_up cmp (parent_ix k) (swap_entries (parent_ix k) k xs)"
      by (subst bubble_up_unfold) simp
    then show ?thesis
      using less.IH [OF _ heap_up_step] less.prems False parent_less [of k] by simp
  qed
qed

lemma heap_down_step:
  assumes "heap_down cmp xs k" and "c < length xs" and "0 < c" and "parent_ix c = k"
    and small: "\<And>i. 0 < i \<Longrightarrow> i < length xs \<Longrightarrow> parent_ix i = k \<Longrightarrow> cmp (xs ! c) (xs ! i) \<le> 0"
    and "0 < cmp (xs ! k) (xs ! c)"
  shows "heap_down cmp (swap_entries c k xs) c"
proof -
  let ?ys = "swap_entries c k xs"
  have k: "k < c" "k < length xs" using assms(2-4) parent_less [of c] by linarith+
  have nth: "?ys ! j = (if j = c then xs ! k else if j = k then xs ! c else xs ! j)" for j
    using nth_swap_entries [of c xs k j] k assms(2) by simp
  have old: "cmp (xs ! (parent_ix i)) (xs ! i) \<le> 0" if "0 < i" "i < length xs" "parent_ix i \<noteq> k" for i
    using assms(1) that by (auto simp: heap_defs)
  have skip: "cmp (xs ! (parent_ix k)) (xs ! i) \<le> 0" if "0 < i" "i < length xs" "parent_ix i = k" "0 < k" for i
    using assms(1,3) that by (auto simp: heap_defs)
  have ck: "cmp (xs ! c) (xs ! k) \<le> 0" using assms(6) cmp_pos_iff by fastforce
  have "heap_at cmp ?ys i" if "parent_ix i \<noteq> c" for i
    unfolding heap_at_def
  proof (intro impI, elim conjE)
    assume i: "0 < i" "i < length ?ys"
    consider "i = c" | "i \<noteq> c" "parent_ix i = k" | "i = k" | "i \<noteq> c" "parent_ix i \<noteq> k" "i \<noteq> k"
      by blast
    then show "cmp (?ys ! (parent_ix i)) (?ys ! i) \<le> 0"
    proof cases
      case 1
      then show ?thesis using ck k assms(4) by (simp add: nth)
    next
      case 2
      then have "i \<noteq> k" using parent_less [OF i(1)] by linarith
      with 2 show ?thesis using small [of i] i k by (simp add: nth)
    next
      case 3
      then have "parent_ix i \<noteq> k" using parent_less [OF i(1)] by linarith
      with 3 that show ?thesis using skip [of c] i assms(2-4) k by (simp add: nth)
    next
      case 4
      then show ?thesis using old [of i] i that by (simp add: nth)
    qed
  qed
  moreover have "heap_skip cmp ?ys c"
    unfolding heap_skip_def
  proof (intro allI impI, elim conjE)
    fix i assume i: "0 < i" "i < length ?ys" "parent_ix i = c" "0 < c"
    then have "i \<noteq> c" "i \<noteq> k" "parent_ix c \<noteq> c" using parent_less [OF i(1)] parent_less [OF i(4)] k by linarith+
    then show "cmp (?ys ! (parent_ix c)) (?ys ! i) \<le> 0"
      using old [of i] i k assms(4) by (simp add: nth)
  qed
  ultimately show ?thesis by (simp add: heap_down_def)
qed

lemma smaller_child_le:
  assumes "0 < i" "i < length xs" "parent_ix i = k"
  shows "cmp (xs ! smaller_child cmp xs k) (xs ! i) \<le> 0"
  using parent_cases [OF assms(1,3)] assms(2) cmp_not_less [of "xs ! (k * 2 + 1)" "xs ! (k * 2 + 1 + 1)"]
  by (auto simp: smaller_child_def Let_def)

lemma push_down_heap: "heap_down cmp xs k \<Longrightarrow> is_heap cmp (push_down cmp k xs)"
proof (induction "length xs - k" arbitrary: k xs rule: less_induct)
  case less
  let ?c = "smaller_child cmp xs k"
  show ?case
  proof (cases "k * 2 + 1 < length xs \<and> 0 < cmp (xs ! k) (xs ! ?c)")
    case False
    have "heap_at cmp xs i" for i
    proof (cases "parent_ix i = k \<and> 0 < i \<and> i < length xs")
      case i: True
      with parent_cases [of i k] False have "cmp (xs ! k) (xs ! ?c) \<le> 0" by auto
      with i cmp_trans [OF this] smaller_child_le [of i xs k] show ?thesis by (simp add: heap_at_def)
    qed (use less.prems in \<open>auto simp: heap_at_def heap_down_def\<close>)
    with False show ?thesis by (subst push_down_unfold) (auto simp: is_heap_def)
  next
    case True
    then have c: "?c < length xs" "k < ?c" "parent_ix ?c = k" using smaller_child_bounds [of k xs cmp] by auto
    have "heap_down cmp (swap_entries ?c k xs) ?c"
      using True c by (intro heap_down_step [OF less.prems] smaller_child_le) auto
    then have "is_heap cmp (push_down cmp ?c (swap_entries ?c k xs))"
      using less.hyps [of "swap_entries ?c k xs" ?c] c by simp
    then show ?thesis using True by (subst push_down_unfold) simp
  qed
qed

lemma heap_min: "is_heap cmp xs \<Longrightarrow> i < length xs \<Longrightarrow> cmp (xs ! 0) (xs ! i) \<le> 0"
proof (induction i rule: less_induct)
  case (less i)
  show ?case
  proof (cases "i = 0")
    case False
    then have p: "parent_ix i < i" using parent_less [of i] by simp
    then have "cmp (xs ! 0) (xs ! (parent_ix i)) \<le> 0" using less by simp
    moreover have "cmp (xs ! (parent_ix i)) (xs ! i) \<le> 0" using less.prems False by (auto simp: heap_defs)
    ultimately show ?thesis by (rule cmp_trans)
  qed simp
qed

lemma mset_bubble_up: "k < length xs \<Longrightarrow> mset (bubble_up cmp k xs) = mset xs"
proof (induction k arbitrary: xs rule: less_induct)
  case (less k)
  show ?case
    using less.IH [of "parent_ix k" "swap_entries (parent_ix k) k xs"] less.prems parent_less [of k]
    by (subst bubble_up_unfold) (auto simp: mset_swap_entries)
qed

lemma mset_push_down: "mset (push_down cmp k xs) = mset xs"
proof (induction "length xs - k" arbitrary: k xs rule: less_induct)
  case less
  show ?case
    using less [of "swap_entries (smaller_child cmp xs k) k xs" "smaller_child cmp xs k"]
      smaller_child_bounds [of k xs cmp]
    by (subst push_down_unfold) (auto simp: mset_swap_entries)
qed

end

section \<open>The heap refines the ordered list\<close>

lemma entry_compare_0: "entry_compare cmp a b = 0 \<Longrightarrow> pe_ctr a = pe_ctr b"
  by (auto simp: entry_compare_def Let_def of_bool_def split: if_splits)

definition pq_inv :: "('a \<Rightarrow> 'a \<Rightarrow> int) \<Rightarrow> 'a prio_queue \<Rightarrow> bool" where
  "pq_inv cmp q \<longleftrightarrow> pq_compare q = Some cmp \<and> is_heap (entry_compare cmp) (pq_array q) \<and>
     distinct (map pe_ctr (pq_array q)) \<and> (\<forall>e \<in> set (pq_array q). pe_ctr e < pq_ctr q)"

definition pq_abs :: "('a \<Rightarrow> 'a \<Rightarrow> int) \<Rightarrow> 'a prio_queue \<Rightarrow> 'a list" where
  "pq_abs cmp q = map pe_data (cisort (entry_compare cmp) (pq_array q))"

definition pq_room :: "'a prio_queue \<Rightarrow> nat" where
  "pq_room q = 2 ^ 64 - 1 - unat (pq_ctr q)"

lemma pq_room_put:
  assumes "0 < pq_room q"
  shows "unat (pq_ctr q + 1) = Suc (unat (pq_ctr q))"
  using assms unat_u64_less [of "pq_ctr q"]
  by (simp add: pq_room_def unat_plus_if' del: unat_u64_less)

lemma distinct_ctr_strict:
  "distinct (map pe_ctr xs) \<Longrightarrow>
   \<forall>x \<in> set xs. \<forall>y \<in> set xs. entry_compare cmp x y = 0 \<longrightarrow> x = y"
  by (meson entry_compare_0 distinct_map inj_onD)

lemma map_cinsort_abs_put:
  assumes "comparison cmp" and "\<forall>s \<in> set S. pe_ctr s < pe_ctr e"
  shows "map pe_data (cinsort (entry_compare cmp) e S) = abs_put cmp (pe_data e) (map pe_data S)"
  using assms(2)
proof (induction S)
  case (Cons s S)
  have "entry_compare cmp e s \<le> 0 \<longleftrightarrow> \<not> cmp (pe_data s) (pe_data e) \<le> 0"
    using Cons.prems comparison.cmp_pos_iff [OF assms(1), of "pe_data s" "pe_data e"]
      comparison.cmp_zero_sym [OF assms(1), of "pe_data s" "pe_data e"]
    by (auto simp: entry_compare_def Let_def not_le)
  with Cons show ?case by simp
qed simp

lemma mset_map_distinct: "mset xs = mset ys \<Longrightarrow> distinct (map f xs) = distinct (map f ys)"
  by (metis mset_map mset_eq_imp_distinct_iff)

text \<open>A callback used to order a queue; it induces the order of the entries.\<close>

locale queue_order = comparison cmp for cmp :: "'a \<Rightarrow> 'a \<Rightarrow> int"
begin

sublocale entry: comparison "entry_compare cmp"
proof
  show "sgn (entry_compare cmp a b) = - sgn (entry_compare cmp b a)" for a b
    using cmp_sgn [of "pe_data a" "pe_data b"] cmp_zero_sym [of "pe_data a" "pe_data b"]
    by (auto simp: entry_compare_def Let_def)
  show "entry_compare cmp a c \<le> 0" if "entry_compare cmp a b \<le> 0" "entry_compare cmp b c \<le> 0" for a b c
  proof -
    have c1: "cmp (pe_data x) (pe_data y) \<le> 0" if "entry_compare cmp x y \<le> 0" for x y
      using that by (auto simp: entry_compare_def Let_def split: if_splits)
    have ac: "cmp (pe_data a) (pe_data c) \<le> 0" using cmp_trans c1 that by blast
    show ?thesis
    proof (cases "cmp (pe_data a) (pe_data c) = 0")
      case True
      then have "cmp (pe_data a) (pe_data b) = 0" "cmp (pe_data b) (pe_data c) = 0"
        using c1 [OF that(1)] c1 [OF that(2)] cmp_less_le_trans [of "pe_data a" "pe_data b" "pe_data c"]
          cmp_le_less_trans [of "pe_data a" "pe_data b" "pe_data c"] by linarith+
      with True that show ?thesis by (auto simp: entry_compare_def Let_def of_bool_def split: if_splits)
    qed (use ac in \<open>simp add: entry_compare_def Let_def\<close>)
  qed
qed

lemma put_array:
  assumes "pq_inv cmp q" and "0 < pq_room q"
  shows "pq_inv cmp (prio_queue_put q x) \<and>
    mset (pq_array (prio_queue_put q x)) = add_mset \<lparr>pe_ctr = pq_ctr q, pe_data = x\<rparr> (mset (pq_array q)) \<and>
    pq_ctr (prio_queue_put q x) = pq_ctr q + 1"
proof -
  let ?e = "\<lparr>pe_ctr = pq_ctr q, pe_data = x\<rparr>" let ?a = "pq_array q @ [?e]"
  let ?b = "bubble_up (entry_compare cmp) (length (pq_array q)) ?a"
  have put: "prio_queue_put q x = q\<lparr>pq_ctr := pq_ctr q + 1, pq_array := ?b\<rparr>"
    using assms(1) by (simp add: prio_queue_put_def pq_inv_def Let_def)
  have ms: "mset ?b = add_mset ?e (mset (pq_array q))" by (simp add: entry.mset_bubble_up)
  have lt: "pe_ctr e < pq_ctr q + 1" if "e \<in> set ?a" for e
    using that assms pq_room_put [OF assms(2)] by (auto simp: pq_inv_def word_less_nat_alt)
  have "heap_at (entry_compare cmp) ?a i" if "i \<noteq> length (pq_array q)" for i
    using that assms(1) parent_less [of i] by (auto simp: heap_at_def pq_inv_def is_heap_def nth_append)
  moreover have "heap_skip (entry_compare cmp) ?a (length (pq_array q))"
    unfolding heap_skip_def
  proof (intro allI impI, elim conjE)
    fix i assume "0 < i" "i < length ?a" "parent_ix i = length (pq_array q)"
    with parent_less [of i] have False by simp
    then show "entry_compare cmp (?a ! parent_ix (length (pq_array q))) (?a ! i) \<le> 0" ..
  qed
  ultimately have "is_heap (entry_compare cmp) ?b"
    by (intro entry.bubble_up_heap) (simp_all add: heap_up_def)
  moreover have "set ?b = set ?a" by (simp flip: set_mset_mset add: ms)
  moreover have "distinct (map pe_ctr ?b) = distinct (map pe_ctr ?a)" by (rule mset_map_distinct) (simp add: ms)
  ultimately show ?thesis using assms(1) lt ms by (auto simp: put pq_inv_def)
qed

lemma put_refines:
  assumes "pq_inv cmp q" and "0 < pq_room q"
  shows "pq_abs cmp (prio_queue_put q x) = abs_put cmp x (pq_abs cmp q)"
proof -
  let ?e = "\<lparr>pe_ctr = pq_ctr q, pe_data = x\<rparr>" let ?S = "cisort (entry_compare cmp) (pq_array q)"
  from put_array [OF assms] have inv: "pq_inv cmp (prio_queue_put q x)"
    and ms: "mset (pq_array (prio_queue_put q x)) = add_mset ?e (mset (pq_array q))" by auto
  have "cisort (entry_compare cmp) (pq_array (prio_queue_put q x)) = cinsort (entry_compare cmp) ?e ?S"
  proof (rule entry.csorted_unique_on)
    show "\<forall>a\<in>set (cisort (entry_compare cmp) (pq_array (prio_queue_put q x))).
       \<forall>b\<in>set (cisort (entry_compare cmp) (pq_array (prio_queue_put q x))). entry_compare cmp a b = 0 \<longrightarrow> a = b"
      using distinct_ctr_strict [of "pq_array (prio_queue_put q x)" cmp] inv by (simp add: pq_inv_def)
  qed (simp_all add: entry.csorted_cisort entry.csorted_cinsort ms)
  moreover have "map pe_data (cinsort (entry_compare cmp) ?e ?S) = abs_put cmp x (map pe_data ?S)"
    using assms(1) by (subst map_cinsort_abs_put [OF comparison_axioms]) (simp_all add: pq_inv_def)
  ultimately show ?thesis by (simp add: pq_abs_def)
qed

lemma cisort_min:
  assumes "distinct (map pe_ctr xs)" and "mset xs = add_mset e (mset ys)"
    and "\<forall>x \<in> set xs. entry_compare cmp e x \<le> 0"
  shows "cisort (entry_compare cmp) xs = e # cisort (entry_compare cmp) ys"
proof (rule entry.csorted_unique_on)
  show "\<forall>x\<in>set (cisort (entry_compare cmp) xs). \<forall>y\<in>set (cisort (entry_compare cmp) xs).
      entry_compare cmp x y = 0 \<longrightarrow> x = y"
    using distinct_ctr_strict [OF assms(1)] by simp
  have "set ys \<subseteq> set xs" using arg_cong [OF assms(2), of set_mset] by auto
  then show "entry.csorted (e # cisort (entry_compare cmp) ys)"
    using assms(3) by (auto simp: entry.csorted_cisort)
qed (simp_all add: entry.csorted_cisort assms(2))

lemma get_array:
  assumes "pq_inv cmp q" and "pq_array q = e # es"
  shows "\<exists>q'. prio_queue_get q = (Some (pe_data e), q') \<and> pq_inv cmp q' \<and> pq_ctr q' = pq_ctr q \<and>
    mset (pq_array q) = add_mset e (mset (pq_array q'))"
proof (cases "es = []")
  case True
  with assms show ?thesis by (simp add: prio_queue_get_def pq_inv_def Let_def heap_defs)
next
  case False
  then obtain mid l where es: "es = mid @ [l]" using rev_exhaust by blast
  let ?b = "push_down (entry_compare cmp) 0 (l # mid)" let ?q' = "q\<lparr>pq_array := ?b\<rparr>"
  have get: "prio_queue_get q = (Some (pe_data e), ?q')"
    using assms es by (simp add: prio_queue_get_def pq_inv_def Let_def nth_append)
  have ms: "mset ?b = add_mset l (mset mid)" by (simp add: entry.mset_push_down)
  have "heap_at (entry_compare cmp) (l # mid) i" if "parent_ix i \<noteq> 0" for i
  proof -
    have "heap_at (entry_compare cmp) (e # mid @ [l]) i" using assms es by (simp add: pq_inv_def is_heap_def)
    moreover have "i < Suc (length mid) \<Longrightarrow> i < length (e # mid @ [l]) \<and> parent_ix i < Suc (length mid)"
      using parent_less [of i] by (cases "i = 0") (auto simp: parent_ix_def)
    ultimately show ?thesis
      using that by (cases i; cases "parent_ix i") (auto simp: heap_at_def nth_append)
  qed
  then have "heap_down (entry_compare cmp) (l # mid) 0" by (auto simp: heap_down_def heap_skip_def)
  then have "is_heap (entry_compare cmp) ?b" by (rule entry.push_down_heap)
  moreover have "set ?b = insert l (set mid)" by (simp flip: set_mset_mset add: ms)
  moreover have "distinct (map pe_ctr ?b) = distinct (map pe_ctr (l # mid))"
    by (rule mset_map_distinct) (simp add: ms)
  ultimately have "pq_inv cmp ?q'" using assms es by (auto simp: pq_inv_def)
  with get ms show ?thesis using assms(2) es by auto
qed

lemma front_min:
  assumes "pq_inv cmp q" and "pq_array q = e # es" and "y \<in> set (pq_array q)"
  shows "entry_compare cmp e y \<le> 0"
proof -
  from assms(3) obtain i where "i < length (pq_array q)" "y = pq_array q ! i" by (metis in_set_conv_nth)
  with assms(1,2) entry.heap_min [of "pq_array q" i] show ?thesis by (simp add: pq_inv_def)
qed

lemma get_refines:
  assumes "pq_inv cmp q" and "pq_abs cmp q = x # xs"
  shows "\<exists>q'. prio_queue_get q = (Some x, q') \<and> pq_inv cmp q' \<and> pq_abs cmp q' = xs \<and> pq_room q' = pq_room q"
proof -
  from assms(2) obtain e es where arr: "pq_array q = e # es"
    by (cases "pq_array q") (auto simp: pq_abs_def)
  from get_array [OF assms(1) this] obtain q' where q': "prio_queue_get q = (Some (pe_data e), q')"
    "pq_inv cmp q'" "pq_ctr q' = pq_ctr q" "mset (pq_array q) = add_mset e (mset (pq_array q'))" by blast
  have "\<forall>y \<in> set (pq_array q). entry_compare cmp e y \<le> 0" using front_min [OF assms(1) arr] by blast
  with assms(1) q'(4) have "cisort (entry_compare cmp) (pq_array q) = e # cisort (entry_compare cmp) (pq_array q')"
    by (intro cisort_min) (auto simp: pq_inv_def)
  with assms(2) have "x = pe_data e" "pq_abs cmp q' = xs" by (auto simp: pq_abs_def)
  with q' show ?thesis by (auto simp: pq_room_def)
qed

sublocale pq: priority_queue cmp prio_queue_put prio_queue_get "pq_abs cmp" pq_room "pq_inv cmp"
proof
  show "prio_queue_get q = (None, q)" if "pq_inv cmp q" "pq_abs cmp q = []" for q
    using that by (simp add: prio_queue_get_def pq_abs_def)
  show "pq_room (prio_queue_put q x) = pq_room q - 1" if "pq_inv cmp q" "0 < pq_room q" for q x
    using that put_array [OF that] pq_room_put [OF that(2)] by (simp add: pq_room_def)
qed (auto simp: put_array put_refines get_refines)

lemma drain_put_all:
  assumes "pq_inv cmp q" and "pq_array q = []" and "length xs \<le> pq_room q" and "length xs \<le> n"
  shows "pq_drain n prio_queue_get (foldl prio_queue_put q xs) = cisort cmp xs"
proof -
  have "pq_abs cmp q = cisort cmp []" using assms(2) by (simp add: pq_abs_def)
  with pq.put_all [OF assms(1,3)] fold_abs_put [of xs "[]"]
  have "pq_inv cmp (foldl prio_queue_put q xs)" "pq_abs cmp (foldl prio_queue_put q xs) = cisort cmp xs" by simp_all
  with pq.drain [of _ n] assms(4) show ?thesis by simp
qed

lemma peek_get:
  assumes "pq_inv cmp q"
  shows "prio_queue_peek q = fst (prio_queue_get q)"
  using assms by (cases "pq_array q") (auto simp: prio_queue_peek_def prio_queue_get_def pq_inv_def Let_def)

end

section \<open>Stacks\<close>

lemma reverse_loop_nth:
  assumes "j < length xs"
  shows "reverse_loop i xs ! j = (if i \<le> j \<and> j < length xs - i then xs ! (length xs - 1 - j) else xs ! j)"
  using assms
proof (induction "length xs - i" arbitrary: i xs rule: less_induct)
  case less
  show ?case
  proof (cases "i < length xs - 1 - i")
    case False
    then have "i \<le> j \<and> j < length xs - i \<Longrightarrow> length xs - 1 - j = j" by linarith
    with False show ?thesis by (subst reverse_loop.simps) auto
  next
    case True
    let ?ys = "swap_entries i (length xs - 1 - i) xs"
    have "reverse_loop i xs ! j = reverse_loop (i + 1) ?ys ! j" using True by (subst reverse_loop.simps) simp
    also have "\<dots> = (if i + 1 \<le> j \<and> j < length ?ys - (i + 1) then ?ys ! (length ?ys - 1 - j) else ?ys ! j)"
      using less.hyps [of ?ys "i + 1"] True less.prems by simp
    finally show ?thesis using True less.prems by (auto simp: nth_swap_entries)
  qed
qed

lemma length_reverse_loop: "length (reverse_loop i xs) = length xs"
proof (induction "length xs - i" arbitrary: i xs rule: less_induct)
  case less
  then show ?case by (subst reverse_loop.simps) auto
qed

lemma reverse_loop_rev: "reverse_loop 0 xs = rev xs"
  by (rule nth_equalityI) (simp_all add: length_reverse_loop reverse_loop_nth rev_nth)

lemma stack_room: "0 < pq_room q \<Longrightarrow> pq_room (prio_queue_put q x) = pq_room q - 1"
  using pq_room_put [of q] by (simp add: pq_room_def prio_queue_put_def Let_def split: option.splits)

definition pq_bag :: "'a prio_queue \<Rightarrow> 'a multiset" where
  "pq_bag q = mset (map pe_data (pq_array q))"

interpretation stack: bag_queue prio_queue_put prio_queue_get pq_bag pq_room "\<lambda>q. pq_compare q = None"
proof
  show "\<exists>x q'. prio_queue_get q = (Some x, q') \<and> pq_compare q' = None \<and>
      pq_bag q = add_mset x (pq_bag q') \<and> pq_room q' = pq_room q"
    if "pq_compare q = None" "pq_bag q \<noteq> {#}" for q :: "'a prio_queue"
    using that by (cases "pq_array q" rule: rev_cases) (auto simp: prio_queue_get_def pq_bag_def pq_room_def Let_def)
  show "pq_compare (prio_queue_put q x) = None \<and> pq_bag (prio_queue_put q x) = add_mset x (pq_bag q) \<and>
      pq_room (prio_queue_put q x) = pq_room q - 1"
    if "pq_compare q = None" "0 < pq_room q" for q :: "'a prio_queue" and x
    using that stack_room [OF that(2), of x] by (simp add: prio_queue_put_def pq_bag_def Let_def)
qed (simp add: prio_queue_get_def pq_bag_def)

lemma pq_abs_bag: "mset (pq_abs cmp q) = pq_bag q"
  by (simp add: pq_abs_def pq_bag_def)

section \<open>Properties\<close>

text \<open>
  C17: draining a priority queue is a stable sort.  For every comparison callback, putting the
  things \<open>xs\<close> into an empty queue and getting until it is empty yields exactly the list that
  \<open>git_stable_qsort\<close> makes of \<open>xs\<close>; things that compare equal leave in the order they entered.
\<close>

theorem prio_queue_drains_sorted:
  assumes "comparison cmp" and "length xs < 2 ^ 64"
  shows "pq_drain (length xs) prio_queue_get
      (foldl prio_queue_put \<lparr>pq_compare = Some cmp, pq_ctr = 0, pq_array = []\<rparr> xs) = git_stable_qsort cmp xs"
proof -
  have "queue_order cmp" using assms(1) by (simp add: queue_order_def)
  then show ?thesis
    using assms
    by (simp add: queue_order.drain_put_all pq_inv_def heap_defs pq_room_def git_stable_qsort_def
        comparison.msort_with_tmp_cisort)
qed

theorem prio_queue_drains_sorted_witness:
  "pq_drain (length [[2 :: byte], [1], [3]]) prio_queue_get (foldl prio_queue_put \<lparr>pq_compare = Some strcmp, pq_ctr = 0, pq_array = []\<rparr> [[2], [1], [3]])
   = git_stable_qsort strcmp [[2], [1], [3]]"
  by (rule prio_queue_drains_sorted [OF strcmp.comparison_axioms]) simp

text \<open>
  \<open>prio_queue_get\<close> and \<open>prio_queue_peek\<close> keep the heap.  From every heap-ordered queue with
  distinct counters \<open>prio_queue_get\<close> removes exactly the thing that \<open>prio_queue_peek\<close> shows, that
  thing does not compare greater than any other, and the rest is heap-ordered again;
  \<open>prio_queue_put\<close> keeps the order as long as the 64-bit counter has not run out.
\<close>

theorem prio_queue_invariant:
  assumes "comparison cmp" and "pq_inv cmp q" and "pq_array q \<noteq> []"
  shows "\<exists>x q'. prio_queue_get q = (Some x, q') \<and> prio_queue_peek q = Some x \<and> pq_inv cmp q' \<and>
    mset (map pe_data (pq_array q)) = add_mset x (mset (map pe_data (pq_array q'))) \<and>
    (\<forall>e \<in> set (pq_array q). cmp x (pe_data e) \<le> 0) \<and>
    (0 < pq_room q \<longrightarrow> (\<forall>y. pq_inv cmp (prio_queue_put q y)))"
proof -
  have qo: "queue_order cmp" using assms(1) by (simp add: queue_order_def)
  obtain e es where arr: "pq_array q = e # es" using assms(3) by (auto simp: neq_Nil_conv)
  from queue_order.get_array [OF qo assms(2) arr] obtain q' where
    q': "prio_queue_get q = (Some (pe_data e), q')" "pq_inv cmp q'"
    "mset (pq_array q) = add_mset e (mset (pq_array q'))" by blast
  have "cmp (pe_data e) (pe_data y) \<le> 0" if y: "y \<in> set (pq_array q)" for y
    using queue_order.front_min [OF qo assms(2) arr y] by (simp add: entry_compare_def Let_def split: if_splits)
  moreover have "mset (map pe_data (pq_array q)) = add_mset (pe_data e) (mset (map pe_data (pq_array q')))"
    using arg_cong [OF q'(3), of "image_mset pe_data"] by simp
  ultimately show ?thesis
    using q' queue_order.peek_get [OF qo assms(2)] queue_order.put_array [OF qo assms(2)] by simp
qed

theorem prio_queue_invariant_witness:
  "\<exists>x q'. prio_queue_get \<lparr>pq_compare = Some strcmp, pq_ctr = 2, pq_array = [\<lparr>pe_ctr = 1, pe_data = [1]\<rparr>, \<lparr>pe_ctr = 0, pe_data = [2]\<rparr>]\<rparr>
     = (Some x, q') \<and> pq_inv strcmp q'"
proof -
  let ?q = "\<lparr>pq_compare = Some strcmp, pq_ctr = 2, pq_array = [\<lparr>pe_ctr = 1, pe_data = [1]\<rparr>, \<lparr>pe_ctr = 0, pe_data = [2]\<rparr>]\<rparr>"
  have "pq_inv strcmp ?q"
    by (auto simp: pq_inv_def heap_defs parent_ix_def less_Suc_eq entry_compare_def)
  from prio_queue_invariant [OF strcmp.comparison_axioms this] show ?thesis by auto
qed

end
