(* ===== verification/Commit_Order.thy ===== *)
theory Commit_Order
  imports Prio_Queue
begin

text \<open>
  \<open>commit.c\<close>: the comparison functions of commits, lists of commits, and
  \<open>sort_in_topological_order\<close>.  A commit is an identifier into a store of parsed commits, the
  function \<open>cs\<close>; \<open>c_author_date\<close> is what \<open>record_author_date\<close> stores for the commit, and
  \<open>c_generation\<close> what \<open>commit_graph_generation\<close> returns.  The slab of in-degrees is a function
  with the slab's default 0; the code counts in an \<open>int\<close>, the model without bound, so a commit has fewer
  than 2^31 - 1 children in the list.  The loop takes the length of the list as its fuel, one unit for each commit
  it takes from the queue, and the claims show that this is enough.
\<close>

section \<open>Commits\<close>

type_synonym commit_id = nat

record commit =
  c_date :: u64
  c_author_date :: u64
  c_generation :: u64
  c_parents :: "commit_id list"

definition compare_commits_by_author_date :: "(commit_id \<Rightarrow> commit) \<Rightarrow> commit_id \<Rightarrow> commit_id \<Rightarrow> int" where
  "compare_commits_by_author_date cs a b =
     (let a_date = c_author_date (cs a); b_date = c_author_date (cs b) in
      if a_date < b_date then 1 else if b_date < a_date then - 1 else 0)"

definition compare_commits_by_gen_then_commit_date :: "(commit_id \<Rightarrow> commit) \<Rightarrow> commit_id \<Rightarrow> commit_id \<Rightarrow> int" where
  "compare_commits_by_gen_then_commit_date cs a b =
     (let generation_a = c_generation (cs a); generation_b = c_generation (cs b) in
      if generation_a < generation_b then 1
      else if generation_b < generation_a then - 1
      else if c_date (cs a) < c_date (cs b) then 1
      else if c_date (cs b) < c_date (cs a) then - 1
      else 0)"

definition compare_commits_by_commit_date :: "(commit_id \<Rightarrow> commit) \<Rightarrow> commit_id \<Rightarrow> commit_id \<Rightarrow> int" where
  "compare_commits_by_commit_date cs a b =
     (if c_date (cs a) < c_date (cs b) then 1
      else if c_date (cs b) < c_date (cs a) then - 1
      else 0)"

section \<open>Lists of commits\<close>

fun commit_list_contains :: "commit_id \<Rightarrow> commit_id list \<Rightarrow> bool" where
  "commit_list_contains item [] = False"
| "commit_list_contains item (c # list) = (if c = item then True else commit_list_contains item list)"

fun reverse_commit_list_loop :: "commit_id list \<Rightarrow> commit_id list \<Rightarrow> commit_id list" where
  "reverse_commit_list_loop [] nxt = nxt"
| "reverse_commit_list_loop (current # backup) nxt = reverse_commit_list_loop backup (current # nxt)"

definition reverse_commit_list :: "commit_id list \<Rightarrow> commit_id list" where
  "reverse_commit_list list = reverse_commit_list_loop list []"

fun commit_list_insert_by_date :: "(commit_id \<Rightarrow> commit) \<Rightarrow> commit_id \<Rightarrow> commit_id list \<Rightarrow> commit_id list" where
  "commit_list_insert_by_date cs item [] = [item]"
| "commit_list_insert_by_date cs item (p # list) =
     (if c_date (cs p) < c_date (cs item) then item # p # list
      else p # commit_list_insert_by_date cs item list)"

definition commit_list_compare_by_date :: "(commit_id \<Rightarrow> commit) \<Rightarrow> commit_id \<Rightarrow> commit_id \<Rightarrow> int" where
  "commit_list_compare_by_date cs a b =
     (let a_date = c_date (cs a); b_date = c_date (cs b) in
      if a_date < b_date then 1 else if b_date < a_date then - 1 else 0)"

definition commit_list_sort_by_date :: "(commit_id \<Rightarrow> commit) \<Rightarrow> commit_id list \<Rightarrow> commit_id list" where
  "commit_list_sort_by_date cs list = list_sort (commit_list_compare_by_date cs) list"

section \<open>Topological sort\<close>

datatype rev_sort_order = REV_SORT_IN_GRAPH_ORDER | REV_SORT_BY_COMMIT_DATE | REV_SORT_BY_AUTHOR_DATE

type_synonym indegree = "commit_id \<Rightarrow> int"

definition topo_compare :: "(commit_id \<Rightarrow> commit) \<Rightarrow> rev_sort_order \<Rightarrow> (commit_id \<Rightarrow> commit_id \<Rightarrow> int) option" where
  "topo_compare cs sort_order =
     (case sort_order of
        REV_SORT_IN_GRAPH_ORDER \<Rightarrow> None
      | REV_SORT_BY_COMMIT_DATE \<Rightarrow> Some (compare_commits_by_commit_date cs)
      | REV_SORT_BY_AUTHOR_DATE \<Rightarrow> Some (compare_commits_by_author_date cs))"

definition topo_mark :: "commit_id list \<Rightarrow> indegree" where
  "topo_mark orig = fold (\<lambda>c d. d(c := 1)) orig (\<lambda>_. 0)"

definition topo_count_parent :: "commit_id \<Rightarrow> indegree \<Rightarrow> indegree" where
  "topo_count_parent p d = (if d p \<noteq> 0 then d(p := d p + 1) else d)"

definition topo_count :: "(commit_id \<Rightarrow> commit) \<Rightarrow> commit_id list \<Rightarrow> indegree \<Rightarrow> indegree" where
  "topo_count cs orig d = fold (\<lambda>c. fold topo_count_parent (c_parents (cs c))) orig d"

definition topo_tips :: "indegree \<Rightarrow> commit_id list \<Rightarrow> commit_id prio_queue \<Rightarrow> commit_id prio_queue" where
  "topo_tips d orig queue = foldl (\<lambda>q c. if d c = 1 then prio_queue_put q c else q) queue orig"

definition topo_visit_parent :: "commit_id \<Rightarrow> indegree \<times> commit_id prio_queue \<Rightarrow> indegree \<times> commit_id prio_queue" where
  "topo_visit_parent p = (\<lambda>(d, q).
     if d p = 0 then (d, q)
     else (let d = d(p := d p - 1) in if d p = 1 then (d, prio_queue_put q p) else (d, q)))"

fun topo_loop :: "nat \<Rightarrow> (commit_id \<Rightarrow> commit) \<Rightarrow> indegree \<Rightarrow> commit_id prio_queue \<Rightarrow> commit_id list option" where
  "topo_loop fuel cs d q =
     (case prio_queue_get q of
        (None, _) \<Rightarrow> Some []
      | (Some commit, q) \<Rightarrow>
          (case fuel of
             0 \<Rightarrow> None
           | Suc fuel \<Rightarrow>
               (let (d, q) = fold topo_visit_parent (c_parents (cs commit)) (d, q) in
                map_option (Cons commit) (topo_loop fuel cs (d(commit := 0)) q))))"

declare topo_loop.simps [simp del]

definition sort_in_topological_order ::
  "(commit_id \<Rightarrow> commit) \<Rightarrow> rev_sort_order \<Rightarrow> commit_id list \<Rightarrow> cfault + commit_id list option" where
  "sort_in_topological_order cs sort_order orig =
     (if orig = [] then Inr (Some [])
      else
        (let queue = \<lparr>pq_compare = topo_compare cs sort_order, pq_ctr = 0, pq_array = []\<rparr>;
             indegree = topo_count cs orig (topo_mark orig);
             queue = topo_tips indegree orig queue
         in case (if sort_order = REV_SORT_IN_GRAPH_ORDER then prio_queue_reverse queue else Inr queue) of
              Inl e \<Rightarrow> Inl e
            | Inr queue \<Rightarrow> Inr (topo_loop (length orig) cs indegree queue)))"

section \<open>The comparison functions are orders\<close>

interpretation by_author: queue_order "compare_commits_by_author_date cs"
  by unfold_locales (auto simp: compare_commits_by_author_date_def Let_def split: if_splits)

interpretation by_gen: queue_order "compare_commits_by_gen_then_commit_date cs"
  by unfold_locales (auto simp: compare_commits_by_gen_then_commit_date_def Let_def split: if_splits)

interpretation by_date: queue_order "compare_commits_by_commit_date cs"
  by unfold_locales (auto simp: compare_commits_by_commit_date_def split: if_splits)

interpretation list_by_date: comparison "commit_list_compare_by_date cs"
  by unfold_locales (auto simp: commit_list_compare_by_date_def Let_def split: if_splits)

section \<open>Lists ordered by date\<close>

lemma insert_by_date_abs_put: "commit_list_insert_by_date cs item list = abs_put (commit_list_compare_by_date cs) item list"
  by (induction list) (auto simp: commit_list_compare_by_date_def Let_def)

abbreviation by_date_sorted :: "(commit_id \<Rightarrow> commit) \<Rightarrow> commit_id list \<Rightarrow> bool" where
  "by_date_sorted cs \<equiv> sorted_wrt (\<lambda>a b. c_date (cs b) \<le> c_date (cs a))"

lemma commit_list_compare_le: "commit_list_compare_by_date cs a b \<le> 0 \<longleftrightarrow> c_date (cs b) \<le> c_date (cs a)"
  by (auto simp: commit_list_compare_by_date_def Let_def)

lemma insert_by_date_sorted: "by_date_sorted cs list \<Longrightarrow> by_date_sorted cs (commit_list_insert_by_date cs item list)"
  using list_by_date.csorted_abs_put [of cs list item] by (simp add: insert_by_date_abs_put commit_list_compare_le)

lemma mset_insert_by_date: "mset (commit_list_insert_by_date cs item list) = add_mset item (mset list)"
  by (simp add: insert_by_date_abs_put mset_abs_put)

lemma reverse_commit_list_rev: "reverse_commit_list list = rev list"
proof -
  have "reverse_commit_list_loop xs ys = rev xs @ ys" for xs ys
    by (induction xs ys rule: reverse_commit_list_loop.induct) auto
  then show ?thesis by (simp add: reverse_commit_list_def)
qed

section \<open>Topological order\<close>

text \<open>
  \<open>open_children cs orig E p\<close>: how many parent links from commits of \<open>orig\<close> that are not in \<open>E\<close>
  (not yet emitted) lead to \<open>p\<close>.
\<close>

definition open_children :: "(commit_id \<Rightarrow> commit) \<Rightarrow> commit_id list \<Rightarrow> commit_id set \<Rightarrow> commit_id \<Rightarrow> nat" where
  "open_children cs orig E p = (\<Sum>c \<leftarrow> filter (\<lambda>c. c \<notin> E) orig. count_list (c_parents (cs c)) p)"

lemma open_children_insert:
  "distinct orig \<Longrightarrow> c \<in> set orig \<Longrightarrow> c \<notin> E \<Longrightarrow>
   open_children cs orig E p = open_children cs orig (insert c E) p + count_list (c_parents (cs c)) p"
proof (induction orig)
  case (Cons a orig)
  show ?case
  proof (cases "a = c")
    case True
    with Cons.prems have "filter (\<lambda>x. x \<notin> insert c E) orig = filter (\<lambda>x. x \<notin> E) orig"
      by (intro filter_cong) auto
    with True Cons.prems show ?thesis by (simp add: open_children_def)
  next
    case False
    with Cons show ?thesis by (auto simp: open_children_def)
  qed
qed simp

lemma open_children_0: "open_children cs orig E p = 0 \<longleftrightarrow> (\<forall>c \<in> set orig - E. p \<notin> set (c_parents (cs c)))"
  by (auto simp: open_children_def count_list_0_iff)

lemma filter_add_one:
  assumes "distinct xs" and "p \<in> set xs" and "\<not> P p" and "Q p" and "\<And>x. x \<noteq> p \<Longrightarrow> Q x = P x"
  shows "mset (filter Q xs) = add_mset p (mset (filter P xs))"
  using assms(1,2)
proof (induction xs)
  case (Cons x xs)
  show ?case
  proof (cases "x = p")
    case True
    with Cons.prems have "filter Q xs = filter P xs" by (intro filter_cong refl assms(5)) auto
    with True assms(3,4) show ?thesis by simp
  next
    case False
    with Cons assms(5) show ?thesis by auto
  qed
qed simp

lemma topo_mark_eq: "topo_mark orig p = of_bool (p \<in> set orig)"
proof -
  have "fold (\<lambda>c d. d(c := 1)) orig d p = (if p \<in> set orig then 1 else d p)" for d :: indegree
    by (induction orig arbitrary: d) auto
  then show ?thesis by (simp add: topo_mark_def)
qed

lemma topo_count_parents_eq:
  "\<forall>p. d p = (if p \<in> S then 1 + int (w p) else 0) \<Longrightarrow>
   fold topo_count_parent ps d p = (if p \<in> S then 1 + int (w p + count_list ps p) else 0)"
proof (induction ps arbitrary: d w)
  case (Cons q ps)
  have "\<forall>p. topo_count_parent q d p = (if p \<in> S then 1 + int ((w(q := w q + 1)) p) else 0)"
    using Cons.prems by (auto simp: topo_count_parent_def)
  from Cons.IH [OF this] show ?case by simp
qed simp

lemma topo_count_eq:
  "\<forall>p. d p = (if p \<in> S then 1 + int (w p) else 0) \<Longrightarrow>
   topo_count cs orig d p = (if p \<in> S then 1 + int (w p + open_children cs orig {} p) else 0)"
proof (induction orig arbitrary: d w)
  case Nil
  then show ?case by (simp add: topo_count_def open_children_def)
next
  case (Cons c orig)
  have "\<forall>p. fold topo_count_parent (c_parents (cs c)) d p = (if p \<in> S then 1 + int (w p + count_list (c_parents (cs c)) p) else 0)"
    using topo_count_parents_eq [OF Cons.prems] by blast
  from Cons.IH [OF this] show ?case by (simp add: topo_count_def open_children_def add.assoc)
qed

lemma indegree_eq:
  "topo_count cs orig (topo_mark orig) p = (if p \<in> set orig then 1 + int (open_children cs orig {} p) else 0)"
  using topo_count_eq [of "topo_mark orig" "set orig" "\<lambda>_. 0" cs orig p] by (simp add: topo_mark_eq)

locale topo_queue = bag_queue prio_queue_put prio_queue_get pq_bag pq_room inv
  for inv :: "commit_id prio_queue \<Rightarrow> bool"
begin

text \<open>
  The state of the loop: \<open>E\<close> is emitted; \<open>w p\<close> counts the links to \<open>p\<close> that are still to be
  visited; the in-degrees of the commits outside \<open>D\<close> are \<open>1 + w\<close>, and the queue holds the commits
  outside \<open>E\<close> with none left.
\<close>

definition topo_state :: "commit_id list \<Rightarrow> commit_id set \<Rightarrow> commit_id set \<Rightarrow> (commit_id \<Rightarrow> nat) \<Rightarrow> indegree \<times> commit_id prio_queue \<Rightarrow> bool" where
  "topo_state orig D E w = (\<lambda>(d, q).
     (\<forall>p. d p = (if p \<in> set orig - D then 1 + int (w p) else 0)) \<and>
     inv q \<and> pq_bag q = mset (filter (\<lambda>p. p \<notin> E \<and> w p = 0) orig) \<and>
     length orig \<le> pq_room q + card E + size (pq_bag q))"

lemma topo_stateD:
  assumes "topo_state orig D E w (d, q)"
  shows "d p = (if p \<in> set orig - D then 1 + int (w p) else 0)" and "inv q"
    and "pq_bag q = mset (filter (\<lambda>p. p \<notin> E \<and> w p = 0) orig)"
    and "length orig \<le> pq_room q + card E + size (pq_bag q)"
  using assms unfolding topo_state_def prod.case by blast+

lemma topo_stateI:
  assumes "\<And>p. d p = (if p \<in> set orig - D then 1 + int (w p) else 0)" and "inv q"
    and "pq_bag q = mset (filter (\<lambda>p. p \<notin> E \<and> w p = 0) orig)"
    and "length orig \<le> pq_room q + card E + size (pq_bag q)"
  shows "topo_state orig D E w (d, q)"
  using assms unfolding topo_state_def prod.case by blast

lemma topo_room:
  assumes distinct_orig: "distinct orig" and "finite E" and "E \<subseteq> set orig" and "p \<in> set orig" and "p \<notin> E" and "0 < (w p :: nat)"
  shows "card E + size (mset (filter (\<lambda>p. p \<notin> E \<and> w p = 0) orig)) < length orig"
proof -
  let ?F = "set (filter (\<lambda>p. p \<notin> E \<and> w p = 0) orig)"
  have "card E + card ?F = card (E \<union> ?F)" using assms(2) by (intro card_Un_disjoint [symmetric]) auto
  also have "E \<union> ?F \<subset> set orig"
  proof
    show "E \<union> ?F \<subseteq> set orig" using assms(3) by auto
    have "p \<notin> E \<union> ?F" using assms(5,6) by auto
    then show "E \<union> ?F \<noteq> set orig" using assms(4) by blast
  qed
  then have "card (E \<union> ?F) < card (set orig)" by (rule psubset_card_mono [OF List.finite_set])
  finally show ?thesis using distinct_orig by (simp only: distinct_card distinct_filter size_mset)
qed

lemma topo_visit_parent_state:
  assumes "topo_state orig D E (\<lambda>x. w x + count_list (p # ps) x) (d, q)" and "D \<subseteq> E" and "E \<subseteq> set orig"
    and "p \<in> E \<Longrightarrow> p \<in> D" and distinct_orig: "distinct orig"
  shows "topo_state orig D E (\<lambda>x. w x + count_list ps x) (topo_visit_parent p (d, q))"
proof -
  let ?P = "\<lambda>x. x \<notin> E \<and> w x + count_list (p # ps) x = 0"
  let ?Q = "\<lambda>x. x \<notin> E \<and> w x + count_list ps x = 0"
  note st = topo_stateD [OF assms(1)]
  show ?thesis
  proof (cases "p \<in> set orig - D")
    case False
    have "topo_visit_parent p (d, q) = (d, q)" using False st(1) [of p] by (auto simp: topo_visit_parent_def)
    moreover have "filter ?P orig = filter ?Q orig" using False assms(2) by (intro filter_cong) auto
    moreover have "d x = (if x \<in> set orig - D then 1 + int (w x + count_list ps x) else 0)" for x
      using st(1) [of x] False by auto
    ultimately show ?thesis using st(2-4) by (auto intro!: topo_stateI)
  next
    case True
    have pE: "p \<notin> E" using True assms(4) by auto
    have dp: "d p = 2 + int (w p + count_list ps p)" using st(1) [of p] True by simp
    have d: "(d(p := d p - 1)) x = (if x \<in> set orig - D then 1 + int (w x + count_list ps x) else 0)" for x
      using st(1) [of x] dp True by auto
    show ?thesis
    proof (cases "w p + count_list ps p = 0")
      case zero: True
      have "card E + size (mset (filter ?P orig)) < length orig"
        using assms(3) True pE by (intro topo_room [OF distinct_orig, where p = p]) (auto intro: finite_subset)
      then have "card E + size (pq_bag q) < length orig" by (simp only: st(3))
      with st(4) have room: "0 < pq_room q" by linarith
      have v: "topo_visit_parent p (d, q) = (d(p := d p - 1), prio_queue_put q p)"
        using dp zero by (simp add: topo_visit_parent_def Let_def)
      have "mset (filter ?Q orig) = add_mset p (mset (filter ?P orig))"
        using True pE zero by (intro filter_add_one distinct_orig) auto
      with put_bag [OF st(2) room, of p] st(3,4) room show ?thesis
        unfolding v by (intro topo_stateI d) simp_all
    next
      case False
      have v: "topo_visit_parent p (d, q) = (d(p := d p - 1), q)"
        using dp False by (auto simp: topo_visit_parent_def Let_def)
      have "filter ?P orig = filter ?Q orig" using False by (intro filter_cong) auto
      with st(3) have "pq_bag q = mset (filter ?Q orig)" by (simp only:)
      with st(2,4) show ?thesis unfolding v by (intro topo_stateI d)
    qed
  qed
qed

lemma topo_visit_parents_state:
  "topo_state orig D E (\<lambda>x. w x + count_list ps x) (d, q) \<Longrightarrow> D \<subseteq> E \<Longrightarrow> E \<subseteq> set orig \<Longrightarrow>
   \<forall>p \<in> set ps. p \<in> E \<longrightarrow> p \<in> D \<Longrightarrow> distinct orig \<Longrightarrow> topo_state orig D E w (fold topo_visit_parent ps (d, q))"
proof (induction ps arbitrary: d q)
  case (Cons p ps)
  have "topo_state orig D E (\<lambda>x. w x + count_list ps x) (topo_visit_parent p (d, q))"
    using Cons.prems by (intro topo_visit_parent_state) auto
  with Cons show ?case by (cases "topo_visit_parent p (d, q)") auto
qed simp

lemma topo_get_state:
  assumes "topo_state orig E E (open_children cs orig E) (d, q)" and "E \<subseteq> set orig" and "prio_queue_get q = (Some c, q')"
    and distinct_orig: "distinct orig"
  shows "c \<in> set orig" and "c \<notin> E" and "open_children cs orig E c = 0"
    and "case fold topo_visit_parent (c_parents (cs c)) (d, q') of (d', q'') \<Rightarrow>
      topo_state orig (insert c E) (insert c E) (open_children cs orig (insert c E)) (d'(c := 0), q'')"
proof -
  let ?w = "open_children cs orig E" let ?w' = "open_children cs orig (insert c E)"
  have st: "\<forall>p. d p = (if p \<in> set orig - E then 1 + int (?w p) else 0)" "inv q"
    "pq_bag q = mset (filter (\<lambda>p. p \<notin> E \<and> ?w p = 0) orig)" "length orig \<le> pq_room q + card E + size (pq_bag q)"
    using topo_stateD [OF assms(1)] by blast+
  have "pq_bag q \<noteq> {#}" using get_none [OF st(2)] assms(3) by auto
  with get_one [OF st(2)] assms(3) have q': "inv q'" "pq_bag q = add_mset c (pq_bag q')" "pq_room q' = pq_room q" by auto
  have "c \<in># pq_bag q" using q'(2) by simp
  then show c: "c \<in> set orig" "c \<notin> E" "?w c = 0" by (simp_all add: st(3))
  have w: "?w p = ?w' p + count_list (c_parents (cs c)) p" for p
    by (rule open_children_insert [OF distinct_orig c(1,2)])
  have "pq_bag q = add_mset c (mset (filter (\<lambda>p. p \<notin> insert c E \<and> ?w p = 0) orig))"
    unfolding st(3) using c by (intro filter_add_one distinct_orig) auto
  then have bag': "pq_bag q' = mset (filter (\<lambda>p. p \<notin> insert c E \<and> ?w p = 0) orig)" using q'(2) by simp
  have fin: "finite E" using assms(2) finite_subset by blast
  have "topo_state orig E (insert c E) (\<lambda>p. ?w' p + count_list (c_parents (cs c)) p) (d, q')"
    using st(1,4) q' bag' c(2) fin unfolding topo_state_def w [symmetric] by simp
  moreover have "c \<notin> set (c_parents (cs c))" using w [of c] c(3) by (metis add_is_0 count_list_0_iff)
  ultimately have "topo_state orig E (insert c E) ?w' (fold topo_visit_parent (c_parents (cs c)) (d, q'))"
    using assms(2) c(1) distinct_orig by (intro topo_visit_parents_state) auto
  then show "case fold topo_visit_parent (c_parents (cs c)) (d, q') of (d', q'') \<Rightarrow>
      topo_state orig (insert c E) (insert c E) ?w' (d'(c := 0), q'')"
    by (auto simp: topo_state_def split: prod.splits)
qed

lemma topo_loop_result:
  assumes "topo_state orig E E (open_children cs orig E) (d, q)" and "E \<subseteq> set orig" and "length orig \<le> fuel + card E"
    and distinct_orig: "distinct orig"
  shows "\<exists>out. topo_loop fuel cs d q = Some out \<and> distinct out \<and> set out \<subseteq> set orig - E \<and>
    (\<forall>i j. i \<le> j \<and> j < length out \<longrightarrow> out ! i \<notin> set (c_parents (cs (out ! j)))) \<and>
    (\<forall>p \<in> set orig - E - set out. \<exists>c \<in> set orig - E - set out. p \<in> set (c_parents (cs c)))"
  using assms(1-3)
proof (induction fuel arbitrary: E d q)
  case 0
  have "card E = length orig" using "0.prems"(2,3) distinct_orig by (metis add_0 card_mono distinct_card List.finite_set le_antisym)
  then have E: "E = set orig" using "0.prems"(2) distinct_orig by (simp add: card_subset_eq distinct_card)
  have "pq_bag q = {#}" "inv q" using "0.prems"(1) E by (auto simp: topo_state_def)
  then have "topo_loop 0 cs d q = Some []" using get_none [of q] by (subst topo_loop.simps) simp
  with E show ?case by auto
next
  case (Suc fuel)
  show ?case
  proof (cases "prio_queue_get q")
    case (Pair r q')
    show ?thesis
    proof (cases r)
      case None
      have bag: "pq_bag q = {#}" using Suc.prems(1) get_one [of q] Pair None by (auto simp: topo_state_def)
      then have "open_children cs orig E p \<noteq> 0" if "p \<in> set orig - E" for p
        using that Suc.prems(1) by (auto simp: topo_state_def filter_empty_conv)
      then have "\<forall>p \<in> set orig - E. \<exists>c \<in> set orig - E. p \<in> set (c_parents (cs c))"
        by (simp add: open_children_0)
      with Pair None show ?thesis by (subst topo_loop.simps) simp
    next
      case (Some c)
      note get = topo_get_state [OF Suc.prems(1,2) _ distinct_orig, of c q'] 
      obtain d' q'' where f: "fold topo_visit_parent (c_parents (cs c)) (d, q') = (d', q'')" by fastforce
      have c: "c \<in> set orig" "c \<notin> E" "open_children cs orig E c = 0" using get Pair Some by simp_all
      have "topo_state orig (insert c E) (insert c E) (open_children cs orig (insert c E)) (d'(c := 0), q'')"
        using get(4) Pair Some f by simp
      moreover have "finite E" using Suc.prems(2) finite_subset by blast
      then have "length orig \<le> fuel + card (insert c E)" using Suc.prems(3) c by simp
      moreover have "insert c E \<subseteq> set orig" using Suc.prems(2) c by simp
      ultimately obtain out where out: "topo_loop fuel cs (d'(c := 0)) q'' = Some out" "distinct out"
        "set out \<subseteq> set orig - insert c E"
        "\<forall>i j. i \<le> j \<and> j < length out \<longrightarrow> out ! i \<notin> set (c_parents (cs (out ! j)))"
        "\<forall>p \<in> set orig - insert c E - set out. \<exists>x \<in> set orig - insert c E - set out. p \<in> set (c_parents (cs x))"
        using Suc.IH [of "insert c E" "d'(c := 0)" q''] by blast
      have run: "topo_loop (Suc fuel) cs d q = Some (c # out)"
        using Pair Some f out(1) by (subst topo_loop.simps) simp
      have first: "c \<notin> set (c_parents (cs x))" if "x \<in> set orig - E" for x
        using c(3) that by (simp add: open_children_0)
      have "(c # out) ! i \<notin> set (c_parents (cs ((c # out) ! j)))" if "i \<le> j" "j < length (c # out)" for i j
      proof (cases i)
        case 0
        have "(c # out) ! j \<in> set (c # out)" using that(2) by (rule nth_mem)
        with out(3) c have "(c # out) ! j \<in> set orig - E" by auto
        with 0 first show ?thesis by simp
      next
        case (Suc i')
        with that out(4) show ?thesis by (cases j) auto
      qed
      moreover have "set orig - E - set (c # out) = set orig - insert c E - set out" by auto
      ultimately show ?thesis using run out c by (intro exI [of _ "c # out"]) auto
    qed
  qed
qed

lemma topo_tips_state:
  assumes "inv q" and "pq_bag q = {#}" and "length orig \<le> pq_room q"
  shows "inv (topo_tips d orig q) \<and> pq_bag (topo_tips d orig q) = mset (filter (\<lambda>c. d c = 1) orig) \<and>
    pq_room (topo_tips d orig q) = pq_room q - length (filter (\<lambda>c. d c = 1) orig)"
proof -
  have "inv (foldl (\<lambda>q c. if d c = 1 then prio_queue_put q c else q) q xs) \<and>
      pq_bag (foldl (\<lambda>q c. if d c = 1 then prio_queue_put q c else q) q xs) = pq_bag q + mset (filter (\<lambda>c. d c = 1) xs) \<and>
      pq_room (foldl (\<lambda>q c. if d c = 1 then prio_queue_put q c else q) q xs) = pq_room q - length (filter (\<lambda>c. d c = 1) xs)"
    if "inv q" "length xs \<le> pq_room q" for xs q
    using that
  proof (induction xs arbitrary: q)
    case (Cons x xs)
    then show ?case using put_bag [of q x] by auto
  qed simp
  from this [OF assms(1,3)] assms(2) show ?thesis by (simp add: topo_tips_def)
qed

lemma topo_init_state:
  assumes "inv q" and "pq_bag q = {#}" and "length orig \<le> pq_room q"
  shows "topo_state orig {} {} (open_children cs orig {})
    (topo_count cs orig (topo_mark orig), topo_tips (topo_count cs orig (topo_mark orig)) orig q)"
proof -
  let ?d = "topo_count cs orig (topo_mark orig)"
  let ?F = "filter (\<lambda>c. c \<notin> {} \<and> open_children cs orig {} c = 0) orig"
  have "filter (\<lambda>c. ?d c = 1) orig = ?F" by (intro filter_cong) (auto simp: indegree_eq)
  with topo_tips_state [OF assms, of ?d] have tips: "inv (topo_tips ?d orig q)"
    "pq_bag (topo_tips ?d orig q) = mset ?F" "pq_room (topo_tips ?d orig q) = pq_room q - length ?F"
    by (simp_all only:)
  have "length ?F \<le> length orig" by (rule length_filter_le)
  then have "length orig \<le> pq_room (topo_tips ?d orig q) + card ({} :: nat set) + size (pq_bag (topo_tips ?d orig q))"
    using assms(3) unfolding tips size_mset by simp
  with tips show ?thesis by (intro topo_stateI) (auto simp: indegree_eq)
qed

end

context queue_order
begin

lemma heap_bag: "bag_queue prio_queue_put prio_queue_get pq_bag pq_room (pq_inv cmp)"
  using pq.bag.bag_queue_axioms by (simp only: pq_abs_bag)

end

interpretation topo_stack: topo_queue "\<lambda>q. pq_compare q = None"
  by (rule topo_queue.intro) (rule stack.bag_queue_axioms)

interpretation topo_date: topo_queue "pq_inv (compare_commits_by_commit_date cs)"
  by (rule topo_queue.intro) (rule by_date.heap_bag)

interpretation topo_author: topo_queue "pq_inv (compare_commits_by_author_date cs)"
  by (rule topo_queue.intro) (rule by_author.heap_bag)

text \<open>A reversed stack holds the same things.\<close>

lemma prio_queue_reverse_bag:
  assumes "pq_compare q = None"
  shows "\<exists>q'. prio_queue_reverse q = Inr q' \<and> pq_compare q' = None \<and> pq_bag q' = pq_bag q \<and> pq_room q' = pq_room q"
  using assms by (simp add: prio_queue_reverse_def reverse_loop_rev pq_bag_def pq_room_def)

definition topo_ordered :: "(commit_id \<Rightarrow> commit) \<Rightarrow> commit_id list \<Rightarrow> bool" where
  "topo_ordered cs out \<longleftrightarrow>
     (\<forall>i j. i \<le> j \<and> j < length out \<longrightarrow> out ! i \<notin> set (c_parents (cs (out ! j))))"

lemma topo_sort_result:
  assumes "distinct orig" and "length orig < 2 ^ 64"
  shows "\<exists>out. sort_in_topological_order cs sort_order orig = Inr (Some out) \<and> distinct out \<and>
    set out \<subseteq> set orig \<and> topo_ordered cs out \<and>
    (\<forall>p \<in> set orig - set out. \<exists>c \<in> set orig - set out. p \<in> set (c_parents (cs c)))"
proof (cases "orig = []")
  case True
  then show ?thesis by (simp add: sort_in_topological_order_def topo_ordered_def)
next
  case False
  let ?q = "\<lparr>pq_compare = topo_compare cs sort_order, pq_ctr = 0, pq_array = []\<rparr>"
  let ?d = "topo_count cs orig (topo_mark orig)"
  have bag: "pq_bag ?q = {#}" by (simp add: pq_bag_def)
  have room: "length orig \<le> pq_room ?q" using assms(2) by (simp add: pq_room_def)
  have fuel: "length orig \<le> length orig + card {}" by simp
  show ?thesis
  proof (cases sort_order)
    case REV_SORT_IN_GRAPH_ORDER
    then have inv: "pq_compare ?q = None" by (simp add: topo_compare_def)
    note st = topo_stack.topo_init_state [OF inv bag room, of cs]
    let ?t = "topo_tips ?d orig ?q"
    obtain q' where q': "prio_queue_reverse ?t = Inr q'" "pq_compare q' = None" "pq_bag q' = pq_bag ?t" "pq_room q' = pq_room ?t"
      using prio_queue_reverse_bag [OF topo_stack.topo_stateD(2) [OF st]] by blast
    have "topo_stack.topo_state orig {} {} (open_children cs orig {}) (?d, q')"
      using topo_stack.topo_stateD [OF st] q'(2-4) by (intro topo_stack.topo_stateI) (simp_all only:)
    from topo_stack.topo_loop_result [OF this _ fuel assms(1)] False REV_SORT_IN_GRAPH_ORDER q'(1)
    show ?thesis by (simp add: sort_in_topological_order_def topo_ordered_def Let_def)
  next
    case REV_SORT_BY_COMMIT_DATE
    then have "pq_inv (compare_commits_by_commit_date cs) ?q" by (simp add: topo_compare_def pq_inv_def heap_defs)
    from topo_date.topo_loop_result [OF topo_date.topo_init_state [OF this bag room, of cs] _ fuel assms(1)]
      False REV_SORT_BY_COMMIT_DATE
    show ?thesis by (simp add: sort_in_topological_order_def topo_ordered_def Let_def)
  next
    case REV_SORT_BY_AUTHOR_DATE
    then have "pq_inv (compare_commits_by_author_date cs) ?q" by (simp add: topo_compare_def pq_inv_def heap_defs)
    from topo_author.topo_loop_result [OF topo_author.topo_init_state [OF this bag room, of cs] _ fuel assms(1)]
      False REV_SORT_BY_AUTHOR_DATE
    show ?thesis by (simp add: sort_in_topological_order_def topo_ordered_def Let_def)
  qed
qed

lemma acyclic_no_cycle_rest:
  assumes "acyclic {(c, p). c \<in> A \<and> p \<in> A \<and> p \<in> set (c_parents (cs c))}" and "finite A" and "R \<subseteq> A"
    and "\<forall>p \<in> R. \<exists>c \<in> R. p \<in> set (c_parents (cs c))"
  shows "R = {}"
proof -
  let ?r = "{(c, p). c \<in> A \<and> p \<in> A \<and> p \<in> set (c_parents (cs c))}"
  have "finite ?r" by (rule finite_subset [of _ "A \<times> A"]) (use assms(2) in auto)
  then have wf: "wf ?r" using assms(1) by (rule finite_acyclic_wf)
  show ?thesis
  proof (rule ccontr)
    assume "R \<noteq> {}"
    with wf obtain z where "z \<in> R" "\<forall>y. (y, z) \<in> ?r \<longrightarrow> y \<notin> R" by (metis (no_types, lifting) wfE_min ex_in_conv)
    with assms(3,4) show False by blast
  qed
qed

section \<open>Properties\<close>

text \<open>
  C7: \<open>sort_in_topological_order\<close> sorts topologically, for all three sort orders.  On a list of
  distinct commits whose parent links form no cycle the loop ends, the result is a
  permutation of the list, and no commit stands before one of its children.
\<close>

theorem topological_sort_correct:
  assumes "distinct orig" and "length orig < 2 ^ 64"
    and "acyclic {(c, p). c \<in> set orig \<and> p \<in> set orig \<and> p \<in> set (c_parents (cs c))}"
  shows "\<exists>out. sort_in_topological_order cs sort_order orig = Inr (Some out) \<and> mset out = mset orig \<and>
    topo_ordered cs out"
proof -
  from topo_sort_result [OF assms(1,2), of cs sort_order] obtain out where
    out: "sort_in_topological_order cs sort_order orig = Inr (Some out)" "distinct out" "set out \<subseteq> set orig"
    "topo_ordered cs out" "\<forall>p \<in> set orig - set out. \<exists>c \<in> set orig - set out. p \<in> set (c_parents (cs c))" by blast
  have "set orig - set out = {}"
    by (rule acyclic_no_cycle_rest [OF assms(3)]) (use out(5) in auto)
  with out(3) have "set out = set orig" by auto
  with out assms(1) show ?thesis by (metis set_eq_iff_mset_eq_distinct)
qed

theorem topological_sort_correct_witness:
  "\<exists>out. sort_in_topological_order (\<lambda>c. \<lparr>c_date = of_nat c, c_author_date = 0, c_generation = 0, c_parents = [c - 1]\<rparr>)
      REV_SORT_BY_COMMIT_DATE [3, 5, 4] = Inr (Some out) \<and> mset out = mset [3, 5, 4]"
proof -
  let ?cs = "\<lambda>c. \<lparr>c_date = of_nat c, c_author_date = 0, c_generation = 0, c_parents = [c - 1]\<rparr> :: commit"
  let ?r = "{(c, p). c \<in> set [3, 5, 4] \<and> p \<in> set [3, 5, 4] \<and> p \<in> set (c_parents (?cs c))}"
  have "wf (?r\<inverse>)" by (rule wf_subset [OF wf_less_than]) auto
  then have "acyclic (?r\<inverse>)" by (rule wf_acyclic)
  then have "acyclic ?r" by (simp only: acyclic_converse)
  from topological_sort_correct [OF _ _ this, of REV_SORT_BY_COMMIT_DATE] show ?thesis by auto
qed

text \<open>
  C22: without the assumption on cycles \<open>sort_in_topological_order\<close> still ends and emits distinct
  commits of the list in topological order; what it leaves out is a set of commits each of
  which is a parent of another one that is left out.
\<close>

theorem topological_sort_total:
  assumes "distinct orig" and "length orig < 2 ^ 64"
  shows "\<exists>out. sort_in_topological_order cs sort_order orig = Inr (Some out) \<and> distinct out \<and>
    set out \<subseteq> set orig \<and> topo_ordered cs out \<and>
    (\<forall>p \<in> set orig - set out. \<exists>c \<in> set orig - set out. p \<in> set (c_parents (cs c)))"
  using assms by (rule topo_sort_result)

theorem topological_sort_total_witness:
  "\<exists>out. sort_in_topological_order (\<lambda>c. \<lparr>c_date = 0, c_author_date = 0, c_generation = 0, c_parents = [1 - c]\<rparr>)
      REV_SORT_IN_GRAPH_ORDER [0, 1] = Inr (Some out) \<and> set out \<subseteq> {0, 1}"
  using topological_sort_total [of "[0, 1]" "\<lambda>c. \<lparr>c_date = 0, c_author_date = 0, c_generation = 0, c_parents = [1 - c]\<rparr>"
      REV_SORT_IN_GRAPH_ORDER] by auto

text \<open>
  sorting a commit list by date with the linked-list merge sort gives the same list as
  inserting its commits one by one with \<open>commit_list_insert_by_date\<close>, and that list has the
  newest commits first.
\<close>

theorem commit_list_sort_is_insertion:
  assumes "length list < 2 ^ 64"
  shows "commit_list_sort_by_date cs list = fold (commit_list_insert_by_date cs) list [] \<and>
    by_date_sorted cs (commit_list_sort_by_date cs list)"
proof -
  have "commit_list_insert_by_date cs = abs_put (commit_list_compare_by_date cs)"
    by (intro ext) (rule insert_by_date_abs_put)
  then show ?thesis
    using list_by_date.list_sort_cisort [OF assms, of cs] list_by_date.fold_abs_put [of cs list "[]"]
      list_by_date.csorted_cisort [of cs list]
    by (simp add: commit_list_sort_by_date_def commit_list_compare_le)
qed

theorem commit_list_sort_is_insertion_witness:
  "commit_list_sort_by_date (\<lambda>c. \<lparr>c_date = of_nat c, c_author_date = 0, c_generation = 0, c_parents = []\<rparr>) [2, 7, 5]
   = fold (commit_list_insert_by_date (\<lambda>c. \<lparr>c_date = of_nat c, c_author_date = 0, c_generation = 0, c_parents = []\<rparr>)) [2, 7, 5] []"
  using commit_list_sort_is_insertion [of "[2, 7, 5]"
      "\<lambda>c. \<lparr>c_date = of_nat c, c_author_date = 0, c_generation = 0, c_parents = []\<rparr>"] by simp

end
