(* ===== verification/Commit_Marks.thy ===== *)
theory Commit_Marks
  imports Commit_Order
begin

text \<open>
  Walks over the commit graph that leave marks in the flag words of commits: \<open>pop_most_recent_commit\<close> and
  \<open>clear_commit_marks\<close> of \<open>commit.c\<close>, and the search for a commit by its message, \<open>get_oid_oneline\<close> of
  \<open>object-name.c\<close>.  The flags of all commits are a function to 32-bit words.  The store \<open>cs\<close> of commits
  is the one after parsing; \<open>parse_ok\<close> says for which commits parsing succeeds.
\<close>

type_synonym flags = "commit_id \<Rightarrow> u32"

section \<open>Operations of commit.c\<close>

fun pop_parents ::
  "(commit_id \<Rightarrow> commit) \<Rightarrow> (commit_id \<Rightarrow> bool) \<Rightarrow> u32 \<Rightarrow> commit_id list \<Rightarrow> commit_id list \<times> flags \<Rightarrow> commit_id list \<times> flags" where
  "pop_parents cs parse_ok mark [] st = st"
| "pop_parents cs parse_ok mark (p # parents) (list, fl) =
     pop_parents cs parse_ok mark parents
       (if parse_ok p \<and> fl p AND mark = 0 then (commit_list_insert_by_date cs p list, fl(p := fl p OR mark))
        else (list, fl))"

fun pop_most_recent_commit ::
  "(commit_id \<Rightarrow> commit) \<Rightarrow> (commit_id \<Rightarrow> bool) \<Rightarrow> u32 \<Rightarrow> commit_id list \<times> flags \<Rightarrow> (commit_id \<times> commit_id list \<times> flags) option" where
  "pop_most_recent_commit cs parse_ok mark ([], fl) = None"
| "pop_most_recent_commit cs parse_ok mark (ret # list, fl) =
     Some (ret, pop_parents cs parse_ok mark (c_parents (cs ret)) (list, fl))"

text \<open>
  Clearing marks follows the first parents and puts the marked other ones on a stack.  On an
  infinite store it need not end.
\<close>

partial_function (option) clear_commit_marks_1 ::
  "(commit_id \<Rightarrow> commit) \<Rightarrow> u32 \<Rightarrow> commit_id list \<Rightarrow> commit_id \<Rightarrow> flags \<Rightarrow> (commit_id list \<times> flags) option" where
  "clear_commit_marks_1 cs mark plist commit fl =
     (if mark AND fl commit = 0 then Some (plist, fl)
      else let fl = fl(commit := fl commit AND NOT mark) in
        case c_parents (cs commit) of
          [] \<Rightarrow> Some (plist, fl)
        | first # rest \<Rightarrow>
            clear_commit_marks_1 cs mark (fold (\<lambda>p plist. if fl p AND mark \<noteq> 0 then p # plist else plist) rest plist) first fl)"

partial_function (option) clear_marks_loop :: "(commit_id \<Rightarrow> commit) \<Rightarrow> u32 \<Rightarrow> commit_id list \<Rightarrow> flags \<Rightarrow> flags option" where
  "clear_marks_loop cs mark list fl =
     (case list of
        [] \<Rightarrow> Some fl
      | c # list \<Rightarrow> Option.bind (clear_commit_marks_1 cs mark list c fl) (\<lambda>(list, fl). clear_marks_loop cs mark list fl))"

fun clear_commit_marks_many :: "(commit_id \<Rightarrow> commit) \<Rightarrow> commit_id list \<Rightarrow> u32 \<Rightarrow> flags \<Rightarrow> flags option" where
  "clear_commit_marks_many cs [] mark fl = Some fl"
| "clear_commit_marks_many cs (commit # commits) mark fl =
     Option.bind (clear_commit_marks_1 cs mark [] commit fl) (\<lambda>(list, fl).
     Option.bind (clear_marks_loop cs mark list fl) (\<lambda>fl.
     clear_commit_marks_many cs commits mark fl))"

definition clear_commit_marks :: "(commit_id \<Rightarrow> commit) \<Rightarrow> commit_id \<Rightarrow> u32 \<Rightarrow> flags \<Rightarrow> flags option" where
  "clear_commit_marks cs commit mark fl = clear_commit_marks_many cs [commit] mark fl"

section \<open>Reachability\<close>

text \<open>
  The commits reached from \<open>S\<close> along parent links without leaving \<open>M\<close>.
\<close>

inductive_set reach_in :: "(commit_id \<Rightarrow> commit) \<Rightarrow> commit_id set \<Rightarrow> commit_id set \<Rightarrow> commit_id set"
  for cs :: "commit_id \<Rightarrow> commit" and M :: "commit_id set" and S :: "commit_id set" where
  start: "s \<in> S \<Longrightarrow> s \<in> M \<Longrightarrow> s \<in> reach_in cs M S"
| parent: "c \<in> reach_in cs M S \<Longrightarrow> p \<in> set (c_parents (cs c)) \<Longrightarrow> p \<in> M \<Longrightarrow> p \<in> reach_in cs M S"

lemma reach_in_subset: "reach_in cs M S \<subseteq> M"
  by (auto elim: reach_in.cases)

lemma reach_in_mono:
  assumes "M \<subseteq> M'" "S \<inter> M \<subseteq> reach_in cs M' S'"
  shows "reach_in cs M S \<subseteq> reach_in cs M' S'"
proof
  show "c \<in> reach_in cs M' S'" if "c \<in> reach_in cs M S" for c
    using that assms by induction (auto intro: reach_in.intros)
qed

lemma reach_in_empty: "S \<inter> M = {} \<Longrightarrow> reach_in cs M S = {}"
  using reach_in_mono [of M M S cs "{}"] reach_in_mono [of M M "{}" cs S] by (auto elim: reach_in.induct)

lemma reach_in_marked: "reach_in cs M (S \<inter> M) = reach_in cs M S"
  by (intro subset_antisym reach_in_mono) (auto intro: reach_in.start)

lemma reach_in_Un: "reach_in cs M (S \<union> T) = reach_in cs M S \<union> reach_in cs (M - reach_in cs M S) T"
proof
  show "reach_in cs M (S \<union> T) \<subseteq> reach_in cs M S \<union> reach_in cs (M - reach_in cs M S) T"
  proof
    show "c \<in> reach_in cs M S \<union> reach_in cs (M - reach_in cs M S) T" if "c \<in> reach_in cs M (S \<union> T)" for c
      using that by induction (auto intro: reach_in.intros)
  qed
  show "reach_in cs M S \<union> reach_in cs (M - reach_in cs M S) T \<subseteq> reach_in cs M (S \<union> T)"
    by (intro Un_least reach_in_mono) (auto intro: reach_in.start)
qed

text \<open>One step of a search: the commit is left out and its parents take its place.\<close>

lemma reach_in_step:
  assumes "c \<in> M"
  shows "reach_in cs M (insert c S) = insert c (reach_in cs (M - {c}) (set (c_parents (cs c)) \<union> S))"
proof
  show "reach_in cs M (insert c S) \<subseteq> insert c (reach_in cs (M - {c}) (set (c_parents (cs c)) \<union> S))"
  proof
    show "x \<in> insert c (reach_in cs (M - {c}) (set (c_parents (cs c)) \<union> S))" if "x \<in> reach_in cs M (insert c S)" for x
      using that by induction (auto intro: reach_in.intros)
  qed
  have "reach_in cs (M - {c}) (set (c_parents (cs c)) \<union> S) \<subseteq> reach_in cs M (insert c S)"
    using assms by (intro reach_in_mono) (auto intro: reach_in.intros)
  with assms show "insert c (reach_in cs (M - {c}) (set (c_parents (cs c)) \<union> S)) \<subseteq> reach_in cs M (insert c S)"
    by (auto intro: reach_in.start)
qed

lemma reach_in_skip: "c \<notin> M \<Longrightarrow> reach_in cs M (insert c S) = reach_in cs M S"
  using reach_in_marked [of cs M "insert c S"] reach_in_marked [of cs M S] by simp

section \<open>Clearing marks\<close>

definition marked :: "u32 \<Rightarrow> flags \<Rightarrow> commit_id set" where
  "marked mark fl = {c. mark AND fl c \<noteq> 0}"

definition unmark :: "u32 \<Rightarrow> commit_id set \<Rightarrow> flags \<Rightarrow> flags" where
  "unmark mark R fl = (\<lambda>c. if c \<in> R then fl c AND NOT mark else fl c)"

lemma marked_unmark: "marked mark (unmark mark R fl) = marked mark fl - R"
proof -
  have "mark AND (w AND NOT mark) = 0" for w :: u32 by (rule bit_word_eqI) (simp add: bit_simps)
  then show ?thesis by (auto simp: marked_def unmark_def)
qed

lemma unmark_unmark: "unmark mark S (unmark mark R fl) = unmark mark (R \<union> S) fl"
  by (auto simp: unmark_def fun_eq_iff and.assoc)

lemma unmark_one: "fl(c := fl c AND NOT mark) = unmark mark {c} fl"
  by (auto simp: unmark_def)

lemma unmark_empty [simp]: "unmark mark {} fl = fl"
  by (simp add: unmark_def)

lemma push_marked: "set (fold (\<lambda>p plist. if fl p AND mark \<noteq> 0 then p # plist else plist) ps plist) = set plist \<union> (set ps \<inter> marked mark fl)"
  by (induction ps arbitrary: plist) (auto simp: marked_def and.commute)

lemma clear_commit_marks_1_ok:
  assumes "finite (marked mark fl)"
  shows "\<exists>plist' R. clear_commit_marks_1 cs mark plist commit fl = Some (plist', unmark mark R fl) \<and>
    reach_in cs (marked mark fl) (insert commit (set plist)) = R \<union> reach_in cs (marked mark fl - R) (set plist') \<and>
    R \<subseteq> marked mark fl \<and> (if commit \<in> marked mark fl then R \<noteq> {} else R = {} \<and> plist' = plist)"
  using assms
proof (induction "card (marked mark fl)" arbitrary: fl commit plist rule: less_induct)
  case less
  show ?case
  proof (cases "commit \<in> marked mark fl")
    case False
    then have "clear_commit_marks_1 cs mark plist commit fl = Some (plist, unmark mark {} fl)"
      by (subst clear_commit_marks_1.simps) (simp add: marked_def)
    with False show ?thesis by (intro exI [of _ plist] exI [of _ "{}"]) (simp add: reach_in_skip)
  next
    case True
    define fl' where "fl' = unmark mark {commit} fl"
    have m': "marked mark fl' = marked mark fl - {commit}" by (simp add: fl'_def marked_unmark)
    show ?thesis
    proof (cases "c_parents (cs commit)")
      case Nil
      then have "clear_commit_marks_1 cs mark plist commit fl = Some (plist, fl')"
        using True by (subst clear_commit_marks_1.simps) (simp add: marked_def Let_def unmark_one fl'_def)
      with True Nil show ?thesis by (intro exI [of _ plist] exI [of _ "{commit}"]) (simp add: reach_in_step fl'_def)
    next
      case (Cons first rest)
      define plist1 where "plist1 = fold (\<lambda>p plist. if fl' p AND mark \<noteq> 0 then p # plist else plist) rest plist"
      have run: "clear_commit_marks_1 cs mark plist commit fl = clear_commit_marks_1 cs mark plist1 first fl'"
        using True Cons by (subst clear_commit_marks_1.simps) (simp add: marked_def Let_def unmark_one fl'_def plist1_def)
      have "card (marked mark fl') < card (marked mark fl)" "finite (marked mark fl')"
        unfolding m' using less.prems True by (simp_all only: card_Diff1_less finite_Diff)
      from less.hyps [OF this, of plist1 first] obtain plist' R where R:
        "clear_commit_marks_1 cs mark plist1 first fl' = Some (plist', unmark mark R fl')"
        "reach_in cs (marked mark fl') (insert first (set plist1)) = R \<union> reach_in cs (marked mark fl' - R) (set plist')"
        "R \<subseteq> marked mark fl'" by blast
      have "insert first (set plist1) \<inter> marked mark fl' = (set (first # rest) \<union> set plist) \<inter> marked mark fl'"
        by (auto simp: plist1_def push_marked)
      then have "reach_in cs (marked mark fl') (insert first (set plist1)) = reach_in cs (marked mark fl') (set (first # rest) \<union> set plist)"
        by (metis reach_in_marked)
      with R(2) have "reach_in cs (marked mark fl) (insert commit (set plist)) =
        insert commit R \<union> reach_in cs (marked mark fl - insert commit R) (set plist')"
        unfolding reach_in_step [OF True] Cons m' Diff_insert2 [of _ commit R, symmetric] by simp
      with R True show ?thesis unfolding run
        by (intro exI [of _ plist'] exI [of _ "insert commit R"]) (auto simp: fl'_def unmark_unmark marked_unmark)
    qed
  qed
qed

lemma clear_marks_loop_ok:
  assumes "finite (marked mark fl)"
  shows "clear_marks_loop cs mark list fl = Some (unmark mark (reach_in cs (marked mark fl) (set list)) fl)"
  using assms
proof (induction "card (marked mark fl)" arbitrary: fl list rule: less_induct)
  case less
  note outer = less.hyps and fin = less.prems
  show ?case
  proof (induction list)
    case Nil
    then show ?case by (subst clear_marks_loop.simps) (simp add: reach_in_empty)
  next
    case (Cons c list)
    obtain list' R where R: "clear_commit_marks_1 cs mark list c fl = Some (list', unmark mark R fl)"
      "reach_in cs (marked mark fl) (insert c (set list)) = R \<union> reach_in cs (marked mark fl - R) (set list')"
      "R \<subseteq> marked mark fl" "if c \<in> marked mark fl then R \<noteq> {} else R = {} \<and> list' = list"
      using clear_commit_marks_1_ok [OF fin, of cs list c] by blast
    have "clear_marks_loop cs mark (c # list) fl = clear_marks_loop cs mark list' (unmark mark R fl)"
      using R(1) by (subst clear_marks_loop.simps) simp
    also have "\<dots> = Some (unmark mark (reach_in cs (marked mark fl) (insert c (set list))) fl)"
    proof (cases "c \<in> marked mark fl")
      case True
      then have "card (marked mark fl - R) < card (marked mark fl)" using R(3,4) fin by (intro psubset_card_mono) auto
      from outer [of "unmark mark R fl" list'] this fin show ?thesis by (simp add: marked_unmark unmark_unmark R(2))
    next
      case False
      with R(4) Cons.IH show ?thesis by (simp add: reach_in_skip)
    qed
    finally show ?case by simp
  qed
qed

text \<open>
  The marks that are cleared are those on commits reached through marked ones.
\<close>

lemma clear_commit_marks_many_ok:
  assumes "finite (marked mark fl)"
  shows "clear_commit_marks_many cs commits mark fl = Some (unmark mark (reach_in cs (marked mark fl) (set commits)) fl)"
  using assms
proof (induction commits arbitrary: fl)
  case Nil
  then show ?case by (simp add: reach_in_empty)
next
  case (Cons c commits)
  define A where "A = reach_in cs (marked mark fl) {c}"
  obtain list' R where R: "clear_commit_marks_1 cs mark [] c fl = Some (list', unmark mark R fl)"
    "A = R \<union> reach_in cs (marked mark fl - R) (set list')"
    using clear_commit_marks_1_ok [OF Cons.prems, of cs "[]" c] by (auto simp: A_def)
  have "clear_marks_loop cs mark list' (unmark mark R fl) = Some (unmark mark A fl)"
    using Cons.prems by (simp add: clear_marks_loop_ok marked_unmark unmark_unmark R(2))
  moreover have "reach_in cs (marked mark fl) (insert c (set commits)) = A \<union> reach_in cs (marked mark fl - A) (set commits)"
    using reach_in_Un [of cs "marked mark fl" "{c}" "set commits"] by (simp add: A_def)
  ultimately show ?case using R(1) Cons.IH [of "unmark mark A fl"] Cons.prems by (simp add: marked_unmark unmark_unmark)
qed

lemma clear_commit_marks_ok:
  "finite (marked mark fl) \<Longrightarrow> clear_commit_marks cs commit mark fl = Some (unmark mark (reach_in cs (marked mark fl) {commit}) fl)"
  using clear_commit_marks_many_ok [of mark fl cs "[commit]"] unfolding clear_commit_marks_def by simp

section \<open>Taking commits by date\<close>

lemma marked_mark:
  assumes "mark \<noteq> 0"
  shows "marked mark (\<lambda>c. if c \<in> R then fl c OR mark else fl c) = marked mark fl \<union> R"
proof -
  have "mark AND (w OR mark) = mark" for w :: u32 by (rule bit_word_eqI) (auto simp: bit_simps)
  with assms show ?thesis by (auto simp: marked_def)
qed

lemma pop_parents_ok:
  assumes "mark \<noteq> 0" "by_date_sorted cs list"
  shows "\<exists>new list'. pop_parents cs parse_ok mark ps (list, fl) = (list', \<lambda>c. if c \<in> set new then fl c OR mark else fl c) \<and>
    by_date_sorted cs list' \<and> mset list' = mset list + mset new \<and> distinct new \<and>
    set new = {p \<in> set ps. parse_ok p} - marked mark fl"
  using assms(2)
proof (induction ps arbitrary: list fl)
  case Nil
  then show ?case by (intro exI [of _ "[]"] exI [of _ list]) simp
next
  case (Cons p ps)
  show ?case
  proof (cases "parse_ok p \<and> p \<notin> marked mark fl")
    case True
    let ?fl = "\<lambda>c. if c \<in> {p} then fl c OR mark else fl c"
    have m: "marked mark ?fl = insert p (marked mark fl)" using marked_mark [OF assms(1), of "{p}" fl] by simp
    have "fl(p := fl p OR mark) = ?fl" by auto
    then have run: "pop_parents cs parse_ok mark (p # ps) (list, fl) =
      pop_parents cs parse_ok mark ps (commit_list_insert_by_date cs p list, ?fl)"
      using True by (simp add: marked_def and.commute)
    obtain new list' where new: "pop_parents cs parse_ok mark ps (commit_list_insert_by_date cs p list, ?fl) =
        (list', \<lambda>c. if c \<in> set new then ?fl c OR mark else ?fl c)" "by_date_sorted cs list'"
      "mset list' = mset (commit_list_insert_by_date cs p list) + mset new" "distinct new"
      "set new = {p \<in> set ps. parse_ok p} - insert p (marked mark fl)"
      using Cons.IH [OF insert_by_date_sorted [OF Cons.prems, of p], of ?fl] unfolding m by blast
    have p: "p \<notin> set new" using new(5) by simp
    then have "(\<lambda>c. if c \<in> set new then ?fl c OR mark else ?fl c) = (\<lambda>c. if c \<in> set (p # new) then fl c OR mark else fl c)"
      by (intro ext) simp
    with run new(1) have "pop_parents cs parse_ok mark (p # ps) (list, fl) = (list', \<lambda>c. if c \<in> set (p # new) then fl c OR mark else fl c)"
      by (simp only:)
    moreover have "set (p # new) = {x \<in> set (p # ps). parse_ok x} - marked mark fl" using True new(5) by auto
    moreover have "distinct (p # new)" "mset list' = mset list + mset (p # new)" using p new(3,4) by (simp_all add: mset_insert_by_date)
    ultimately show ?thesis using new(2) by blast
  next
    case False
    then have "pop_parents cs parse_ok mark (p # ps) (list, fl) = pop_parents cs parse_ok mark ps (list, fl)"
      by (auto simp: marked_def and.commute)
    moreover have "{x \<in> set (p # ps). parse_ok x} - marked mark fl = {x \<in> set ps. parse_ok x} - marked mark fl" using False by auto
    ultimately show ?thesis using Cons by simp
  qed
qed

section \<open>Finding a commit by its message\<close>

definition ONELINE_SEEN :: u32 where "ONELINE_SEEN = push_bit 20 1"

text \<open>
  The leading \<open>!\<close> of the pattern: \<open>!-\<close> negates, \<open>!!\<close> is a literal exclamation mark, and all others are
  reserved.
\<close>

fun oneline_prefix :: "bytes \<Rightarrow> (bool \<times> bytes) option" where
  "oneline_prefix prefix =
     (case prefix of
        c # prefix' \<Rightarrow>
          if c = 33 then
            (case prefix' of
               d # prefix'' \<Rightarrow> if d = 45 then Some (True, prefix'') else if d = 33 then Some (False, prefix') else None
             | [] \<Rightarrow> None)
          else Some (False, prefix)
      | [] \<Rightarrow> Some (False, prefix))"

text \<open>What follows the first empty line: \<open>strstr(buf, "\n\n")\<close> plus two.\<close>

fun after_empty_line :: "bytes \<Rightarrow> bytes option" where
  "after_empty_line (a # b # rest) = (if a = 10 \<and> b = 10 then Some rest else after_empty_line (b # rest))"
| "after_empty_line _ = None"

definition oneline_matches :: "bool \<Rightarrow> (bytes \<Rightarrow> bool) \<Rightarrow> bytes \<Rightarrow> bool" where
  "oneline_matches negative regexec buf \<longleftrightarrow>
     negative \<noteq> (case after_empty_line buf of None \<Rightarrow> False | Some body \<Rightarrow> regexec body)"

partial_function (option) oneline_loop ::
  "(commit_id \<Rightarrow> commit) \<Rightarrow> (commit_id \<Rightarrow> bool) \<Rightarrow> (commit_id \<Rightarrow> bool) \<Rightarrow> (commit_id \<Rightarrow> bool) \<Rightarrow> commit_id list \<Rightarrow> flags \<Rightarrow>
   (commit_id option \<times> flags) option" where
  "oneline_loop cs parse_ok parse_object matches copy fl =
     (case pop_most_recent_commit cs parse_ok ONELINE_SEEN (copy, fl) of
        None \<Rightarrow> Some (None, fl)
      | Some (commit, copy, fl) \<Rightarrow>
          if \<not> parse_object commit then oneline_loop cs parse_ok parse_object matches copy fl
          else if matches commit then Some (Some commit, fl)
          else oneline_loop cs parse_ok parse_object matches copy fl)"

fun clear_each :: "(commit_id \<Rightarrow> commit) \<Rightarrow> u32 \<Rightarrow> commit_id list \<Rightarrow> flags \<Rightarrow> flags option" where
  "clear_each cs mark [] fl = Some fl"
| "clear_each cs mark (l # list) fl = Option.bind (clear_commit_marks cs l mark fl) (clear_each cs mark list)"

text \<open>
  The regular expression library, the object store and the messages of the commits are
  parameters: \<open>regcomp\<close> compiles a pattern to a test, if it can; \<open>buf\<close> is the text of a commit object.
\<close>

definition get_oid_oneline ::
  "(commit_id \<Rightarrow> commit) \<Rightarrow> (commit_id \<Rightarrow> bool) \<Rightarrow> (commit_id \<Rightarrow> bool) \<Rightarrow> (commit_id \<Rightarrow> bytes) \<Rightarrow> (bytes \<Rightarrow> (bytes \<Rightarrow> bool) option) \<Rightarrow>
   bytes \<Rightarrow> commit_id list \<Rightarrow> flags \<Rightarrow> (commit_id option \<times> flags) option" where
  "get_oid_oneline cs parse_ok parse_object buf regcomp prefix list fl =
     (case oneline_prefix prefix of
        None \<Rightarrow> Some (None, fl)
      | Some (negative, prefix) \<Rightarrow>
          (case regcomp prefix of
             None \<Rightarrow> Some (None, fl)
           | Some regexec \<Rightarrow>
               let fl = fold (\<lambda>l fl. fl(l := fl l OR ONELINE_SEEN)) list fl in
               Option.bind (oneline_loop cs parse_ok parse_object (\<lambda>c. oneline_matches negative regexec (buf c)) list fl)
                 (\<lambda>(found, fl). Option.bind (clear_each cs ONELINE_SEEN list fl) (\<lambda>fl. Some (found, fl)))))"

definition mark_set :: "u32 \<Rightarrow> commit_id set \<Rightarrow> flags \<Rightarrow> flags" where
  "mark_set mark V fl = (\<lambda>c. if c \<in> V then fl c OR mark else fl c)"

lemma mark_set_Un: "mark_set mark W (mark_set mark V fl) = mark_set mark (V \<union> W) fl"
  by (auto simp: mark_set_def fun_eq_iff or.assoc)

lemma fold_mark: "fold (\<lambda>l fl. fl(l := fl l OR mark)) list fl = mark_set mark (set list) fl"
proof (induction list arbitrary: fl)
  case (Cons l list)
  have "fl(l := fl l OR mark) = mark_set mark {l} fl" by (auto simp: mark_set_def)
  then show ?case unfolding fold_Cons comp_apply by (simp only: Cons.IH mark_set_Un list.set(2) insert_is_Un [of l "set list"])
qed (simp add: mark_set_def)

lemma marked_mark_set: "mark \<noteq> 0 \<Longrightarrow> marked mark fl = {} \<Longrightarrow> marked mark (mark_set mark V fl) = V"
  using marked_mark [of mark V fl] by (simp add: mark_set_def)

lemma unmark_mark_set:
  assumes "marked mark fl = {}"
  shows "unmark mark V (mark_set mark V fl) = fl"
proof -
  have "(w OR mark) AND NOT mark = w" if "mark AND w = 0" for w :: u32
  proof (rule bit_word_eqI)
    show "bit ((w OR mark) AND NOT mark) n = bit w n" if "n < LENGTH(32)" for n
      using that arg_cong [OF \<open>mark AND w = 0\<close>, of "\<lambda>w. bit w n"] by (auto simp: bit_simps)
  qed
  with assms show ?thesis by (auto simp: unmark_def mark_set_def marked_def fun_eq_iff)
qed

lemma pop_most_recent_commit_ok:
  assumes "mark \<noteq> 0" "marked mark fl = {}" "by_date_sorted cs (ret # list)"
  shows "\<exists>new list'. pop_most_recent_commit cs parse_ok mark (ret # list, mark_set mark V fl) = Some (ret, list', mark_set mark (V \<union> set new) fl) \<and>
    by_date_sorted cs list' \<and> mset list' = mset list + mset new \<and> distinct new \<and>
    set new = {p \<in> set (c_parents (cs ret)). parse_ok p} - V"
proof -
  have "by_date_sorted cs list" using assms(3) by simp
  from pop_parents_ok [OF assms(1) this, of parse_ok "c_parents (cs ret)" "mark_set mark V fl"] obtain new list' where
    new: "pop_parents cs parse_ok mark (c_parents (cs ret)) (list, mark_set mark V fl) = (list', mark_set mark (set new) (mark_set mark V fl))"
    "by_date_sorted cs list'" "mset list' = mset list + mset new" "distinct new"
    "set new = {p \<in> set (c_parents (cs ret)). parse_ok p} - V"
    unfolding mark_set_def [symmetric] marked_mark_set [OF assms(1,2)] by blast
  then show ?thesis by (intro exI [of _ new] exI [of _ list']) (simp add: mark_set_Un)
qed

lemma clear_each_ok:
  assumes "finite (marked mark fl)"
  shows "clear_each cs mark list fl = Some (unmark mark (reach_in cs (marked mark fl) (set list)) fl)"
  using assms
proof (induction list arbitrary: fl)
  case Nil
  then show ?case by (simp add: reach_in_empty)
next
  case (Cons l list)
  have "reach_in cs (marked mark fl) (insert l (set list)) =
    reach_in cs (marked mark fl) {l} \<union> reach_in cs (marked mark fl - reach_in cs (marked mark fl) {l}) (set list)"
    using reach_in_Un [of cs "marked mark fl" "{l}" "set list"] by simp
  with Cons show ?case by (simp add: clear_commit_marks_ok marked_unmark unmark_unmark)
qed

lemma ONELINE_SEEN_nonzero: "ONELINE_SEEN \<noteq> 0"
  by (simp add: ONELINE_SEEN_def)

text \<open>
  The loop.  \<open>D\<close> are the commits taken off the list without a match; the marked commits are those and
  the ones on the list.
\<close>

definition oneline_answer :: "(commit_id \<Rightarrow> commit) \<Rightarrow> commit_id set \<Rightarrow> (commit_id \<Rightarrow> bool) \<Rightarrow> commit_id option \<Rightarrow> bool" where
  "oneline_answer cs A ok r =
     (case r of
        None \<Rightarrow> \<forall>d \<in> A. \<not> ok d
      | Some c \<Rightarrow> c \<in> A \<and> ok c \<and>
          ((\<forall>c \<in> A. \<forall>p \<in> set (c_parents (cs c)). c_date (cs p) \<le> c_date (cs c)) \<longrightarrow>
            (\<forall>d \<in> A. ok d \<longrightarrow> c_date (cs d) \<le> c_date (cs c))))"

definition walk_set :: "(commit_id \<Rightarrow> commit) \<Rightarrow> (commit_id \<Rightarrow> bool) \<Rightarrow> commit_id list \<Rightarrow> commit_id set" where
  "walk_set cs parse_ok list = reach_in cs (set list \<union> Collect parse_ok) (set list)"

lemma oneline_frontier:
  assumes "set list \<subseteq> D \<union> set copy" "\<forall>c \<in> D. {p \<in> set (c_parents (cs c)). parse_ok p} \<subseteq> D \<union> set copy"
    and "d \<in> reach_in cs (set list \<union> Collect parse_ok) (set list)"
  shows "d \<in> D \<or> (\<exists>e \<in> set copy.
    (\<forall>c \<in> reach_in cs (set list \<union> Collect parse_ok) (set list). \<forall>p \<in> set (c_parents (cs c)). c_date (cs p) \<le> c_date (cs c)) \<longrightarrow>
    c_date (cs d) \<le> c_date (cs e))"
  using assms(3)
proof induction
  case (start s)
  then show ?case using assms(1) by auto
next
  case (parent c p)
  show ?case
  proof (cases "c \<in> D")
    case True
    then have "p \<in> D \<union> set copy" using assms(1,2) parent(2,3) by auto
    then show ?thesis by auto
  next
    case False
    with parent show ?thesis by (meson order_trans)
  qed
qed

lemma oneline_loop_ok:
  assumes A_def: "A = walk_set cs parse_ok list" and fin: "finite A" and fl: "marked ONELINE_SEEN fl = {}"
    and "by_date_sorted cs copy" "D \<union> set copy \<subseteq> A" "set list \<subseteq> D \<union> set copy"
    and "\<forall>c \<in> D. {p \<in> set (c_parents (cs c)). parse_ok p} \<subseteq> D \<union> set copy" "\<forall>c \<in> D. \<not> (parse_object c \<and> matches c)"
    and "D \<union> set copy \<subseteq> reach_in cs (D \<union> set copy) (set list)"
  shows "\<exists>r V. oneline_loop cs parse_ok parse_object matches copy (mark_set ONELINE_SEEN (D \<union> set copy) fl) = Some (r, mark_set ONELINE_SEEN V fl) \<and>
    V \<subseteq> A \<and> V \<subseteq> reach_in cs V (set list) \<and> oneline_answer cs A (\<lambda>c. parse_object c \<and> matches c) r"
  using assms(4-9)
proof (induction "length copy + card (A - (D \<union> set copy))" arbitrary: copy D rule: less_induct)
  case less
  let ?V = "D \<union> set copy" and ?ok = "\<lambda>c. parse_object c \<and> matches c"
  note front = oneline_frontier [OF less.prems(3,4), folded walk_set_def, folded A_def]
  show ?case
  proof (cases copy)
    case Nil
    then have "oneline_loop cs parse_ok parse_object matches copy (mark_set ONELINE_SEEN ?V fl) = Some (None, mark_set ONELINE_SEEN ?V fl)"
      by (subst oneline_loop.simps) simp
    moreover have "oneline_answer cs A ?ok None" using front less.prems(5) Nil by (auto simp: oneline_answer_def)
    ultimately show ?thesis using less.prems(2,6) by (intro exI [of _ None] exI [of _ ?V]) simp
  next
    case (Cons c rest)
    obtain new copy' where new: "pop_most_recent_commit cs parse_ok ONELINE_SEEN (copy, mark_set ONELINE_SEEN ?V fl) =
        Some (c, copy', mark_set ONELINE_SEEN (?V \<union> set new) fl)" "by_date_sorted cs copy'" "mset copy' = mset rest + mset new"
      "distinct new" "set new = {p \<in> set (c_parents (cs c)). parse_ok p} - ?V"
      using pop_most_recent_commit_ok [OF ONELINE_SEEN_nonzero fl, of cs c rest parse_ok ?V, folded Cons, OF less.prems(1)] by blast
    have set': "set copy' = set rest \<union> set new" using arg_cong [OF new(3), of set_mset] by simp
    have len': "length copy' = length rest + length new" using arg_cong [OF new(3), of size] by simp
    have V': "insert c D \<union> set copy' = ?V \<union> set new" using set' Cons by auto
    have c: "c \<in> A" using less.prems(2) Cons by auto
    then have newA: "set new \<subseteq> A" unfolding new(5) A_def walk_set_def by (auto intro: reach_in.parent)
    have conn: "?V \<union> set new \<subseteq> reach_in cs (?V \<union> set new) (set list)"
    proof -
      have "?V \<subseteq> reach_in cs (?V \<union> set new) (set list)"
        using less.prems(6) reach_in_mono [of ?V "?V \<union> set new" "set list" cs "set list"] by (auto intro: reach_in.start)
      moreover from this have "set new \<subseteq> reach_in cs (?V \<union> set new) (set list)"
        using Cons new(5) by (auto intro: reach_in.parent [of c])
      ultimately show ?thesis by blast
    qed
    show ?thesis
    proof (cases "?ok c")
      case True
      then have "oneline_loop cs parse_ok parse_object matches copy (mark_set ONELINE_SEEN ?V fl) =
        Some (Some c, mark_set ONELINE_SEEN (?V \<union> set new) fl)"
        using new(1) by (subst oneline_loop.simps) simp
      moreover have "oneline_answer cs A ?ok (Some c)"
      proof -
        have "c_date (cs e) \<le> c_date (cs c)" if "e \<in> set copy" for e using less.prems(1) that Cons by auto
        with front less.prems(5) c True show ?thesis unfolding oneline_answer_def option.case by (meson order_trans)
      qed
      ultimately show ?thesis using conn newA less.prems(2) by (intro exI [of _ "Some c"] exI [of _ "?V \<union> set new"]) simp
    next
      case False
      then have run: "oneline_loop cs parse_ok parse_object matches copy (mark_set ONELINE_SEEN ?V fl) =
        oneline_loop cs parse_ok parse_object matches copy' (mark_set ONELINE_SEEN (insert c D \<union> set copy') fl)"
        using new(1) unfolding V' by (subst oneline_loop.simps) simp
      have "length copy' + card (A - (insert c D \<union> set copy')) < length copy + card (A - ?V)"
      proof -
        have "A - (?V \<union> set new) = (A - ?V) - set new" by auto
        moreover have "set new \<subseteq> A - ?V" using newA new(5) by auto
        then have "card ((A - ?V) - set new) + length new = card (A - ?V)"
          using fin new(4) card_mono [of "A - ?V" "set new"] by (simp add: card_Diff_subset distinct_card)
        ultimately show ?thesis unfolding V' len' Cons by simp
      qed
      moreover have "insert c D \<union> set copy' \<subseteq> A" unfolding V' using newA less.prems(2) by blast
      moreover have "set list \<subseteq> insert c D \<union> set copy'" unfolding V' using less.prems(3) by blast
      moreover have "\<forall>d \<in> insert c D. {p \<in> set (c_parents (cs d)). parse_ok p} \<subseteq> insert c D \<union> set copy'"
        unfolding V' using less.prems(4) new(5) by blast
      moreover have "\<forall>d \<in> insert c D. \<not> ?ok d" using less.prems(5) False by blast
      moreover have "insert c D \<union> set copy' \<subseteq> reach_in cs (insert c D \<union> set copy') (set list)" unfolding V' by (rule conn)
      ultimately show ?thesis unfolding run using less.hyps [of copy' "insert c D"] new(2) by blast
    qed
  qed
qed

text \<open>
  C13: Searching for a commit by its message.  From a list that is ordered by date and free of marks, the
  walk ends; it returns a commit whenever some commit reachable from the list can be parsed and
  has a message that matches the pattern, and none otherwise.  If no commit is newer than its
  children, the returned one is a newest.  All flags are as before: no mark is left behind.
\<close>

theorem get_oid_oneline_finds:
  assumes "finite (walk_set cs parse_ok list)" "marked ONELINE_SEEN fl = {}" "by_date_sorted cs list"
    and "oneline_prefix prefix = Some (negative, pattern)" "regcomp pattern = Some regexec"
  shows "\<exists>r. get_oid_oneline cs parse_ok parse_object buf regcomp prefix list fl = Some (r, fl) \<and>
    oneline_answer cs (walk_set cs parse_ok list) (\<lambda>c. parse_object c \<and> oneline_matches negative regexec (buf c)) r"
proof -
  let ?ok = "\<lambda>c. parse_object c \<and> oneline_matches negative regexec (buf c)"
  define A where "A = walk_set cs parse_ok list"
  have "set list \<subseteq> A" unfolding A_def walk_set_def by (auto intro: reach_in.start)
  then obtain r V where loop: "oneline_loop cs parse_ok parse_object (\<lambda>c. oneline_matches negative regexec (buf c)) list
      (mark_set ONELINE_SEEN (set list) fl) = Some (r, mark_set ONELINE_SEEN V fl)"
    and V: "V \<subseteq> A" "V \<subseteq> reach_in cs V (set list)" and r: "oneline_answer cs A ?ok r"
    using oneline_loop_ok [OF A_def assms(1) [folded A_def] assms(2,3), of "{}" parse_object "\<lambda>c. oneline_matches negative regexec (buf c)"]
    by (auto intro: reach_in.start)
  have m: "marked ONELINE_SEEN (mark_set ONELINE_SEEN V fl) = V" by (rule marked_mark_set [OF ONELINE_SEEN_nonzero assms(2)])
  have "finite V" using V(1) assms(1) finite_subset A_def by blast
  moreover have "reach_in cs V (set list) = V" using V(2) reach_in_subset by blast
  ultimately have "clear_each cs ONELINE_SEEN list (mark_set ONELINE_SEEN V fl) = Some fl"
    using clear_each_ok [of ONELINE_SEEN "mark_set ONELINE_SEEN V fl" cs list] assms(2) by (simp add: m unmark_mark_set)
  with loop r assms(4,5) show ?thesis by (simp add: A_def get_oid_oneline_def fold_mark)
qed

theorem get_oid_oneline_finds_witness:
  "\<exists>r. get_oid_oneline (\<lambda>c. \<lparr>c_date = of_nat c, c_author_date = 0, c_generation = 0, c_parents = (if c = 2 then [1] else [])\<rparr>)
      (\<lambda>_. True) (\<lambda>_. True) (\<lambda>c. [10, 10, of_nat c]) (\<lambda>p. Some (\<lambda>b. b = p)) [1] [2] (\<lambda>_. 0) = Some (r, \<lambda>_. 0) \<and>
    oneline_answer (\<lambda>c. \<lparr>c_date = of_nat c, c_author_date = 0, c_generation = 0, c_parents = (if c = 2 then [1] else [])\<rparr>) {1, 2}
      (\<lambda>c. True \<and> oneline_matches False (\<lambda>b. b = [1]) [10, 10, of_nat c]) r"
proof -
  let ?cs = "\<lambda>c. \<lparr>c_date = of_nat c, c_author_date = 0, c_generation = 0, c_parents = (if c = 2 then [1] else [])\<rparr> :: commit"
  have "reach_in ?cs UNIV {2} = {1, 2}"
    using reach_in_step [of 2 UNIV ?cs "{}"] reach_in_step [of 1 "UNIV - {2}" ?cs "{}"] by (auto simp: reach_in_empty)
  then show ?thesis
    using get_oid_oneline_finds [of ?cs "\<lambda>_. True" "[2]" "\<lambda>_. 0" "[1]" False "[1]" "\<lambda>p. Some (\<lambda>b. b = p)" "\<lambda>b. b = [1]" "\<lambda>_. True" "\<lambda>c. [10, 10, of_nat c]"]
    by (simp add: marked_def walk_set_def)
qed

end
