(* ===== verification/Merge_Base.thy ===== *)
theory Merge_Base
  imports Commit_Marks
begin

text \<open>
  \<open>paint_down_to_common\<close> of \<open>commit-reach.c\<close>, the walk behind merge bases.  Two colours are
  painted down the history from the two sides; a commit that has both is a candidate, and its
  ancestors are stale.  \<open>None\<close> stands for a walk that does not end, and a fault for a call of \<open>BUG\<close>.
\<close>

section \<open>Flags and generations\<close>

definition PARENT1 :: u32 where "PARENT1 = push_bit 16 1"
definition PARENT2 :: u32 where "PARENT2 = push_bit 17 1"
definition STALE :: u32 where "STALE = push_bit 18 1"
definition RESULT :: u32 where "RESULT = push_bit 19 1"

definition all_flags :: u32 where "all_flags = PARENT1 OR PARENT2 OR STALE OR RESULT"

definition GENERATION_NUMBER_INFINITY :: u64 where "GENERATION_NUMBER_INFINITY = push_bit 63 1 - 1"

definition queue_has_nonstale :: "commit_id prio_queue \<Rightarrow> flags \<Rightarrow> bool" where
  "queue_has_nonstale queue fl = list_ex (\<lambda>e. fl (pe_data e) AND STALE = 0) (pq_array queue)"

section \<open>Painting\<close>

text \<open>The parents of a commit; \<open>Inl\<close> if one cannot be parsed.\<close>

fun paint_parents ::
  "(commit_id \<Rightarrow> bool) \<Rightarrow> u32 \<Rightarrow> commit_id list \<Rightarrow> commit_id prio_queue \<times> flags \<Rightarrow> flags + commit_id prio_queue \<times> flags" where
  "paint_parents parse_ok flags [] (queue, fl) = Inr (queue, fl)"
| "paint_parents parse_ok flags (p # parents) (queue, fl) =
     (if fl p AND flags = flags then paint_parents parse_ok flags parents (queue, fl)
      else if \<not> parse_ok p then Inl fl
      else paint_parents parse_ok flags parents (prio_queue_put queue p, fl(p := fl p OR flags)))"

text \<open>What is painted on the parents of a commit, and the candidate it may become.\<close>

definition paint_flags :: "u32 \<Rightarrow> u32" where
  "paint_flags w =
     (let flags = w AND (PARENT1 OR PARENT2 OR STALE) in
      if flags = PARENT1 OR PARENT2 then flags OR STALE else flags)"

definition paint_candidate :: "(commit_id \<Rightarrow> commit) \<Rightarrow> commit_id \<Rightarrow> flags \<Rightarrow> commit_id list \<Rightarrow> flags \<times> commit_id list" where
  "paint_candidate cs commit fl result =
     (if fl commit AND (PARENT1 OR PARENT2 OR STALE) = PARENT1 OR PARENT2 \<and> fl commit AND RESULT = 0 then
        (fl(commit := fl commit OR RESULT), commit_list_insert_by_date cs commit result)
      else (fl, result))"

partial_function (option) paint_loop ::
  "(commit_id \<Rightarrow> commit) \<Rightarrow> (commit_id \<Rightarrow> bool) \<Rightarrow> u64 \<Rightarrow> bool \<Rightarrow> u64 \<Rightarrow> commit_id prio_queue \<Rightarrow> flags \<Rightarrow> commit_id list \<Rightarrow>
   (cfault + int \<times> commit_id list \<times> flags) option" where
  "paint_loop cs parse_ok min_generation ignore_missing_commits last_gen queue fl result =
     (if \<not> queue_has_nonstale queue fl then Some (Inr (0, result, fl))
      else case prio_queue_get queue of
        (None, queue) \<Rightarrow> Some (Inl Undef)
      | (Some commit, queue) \<Rightarrow>
          let generation = c_generation (cs commit) in
          if min_generation \<noteq> 0 \<and> generation > last_gen then Some (Inl Bug)
          else if generation < min_generation then Some (Inr (0, result, fl))
          else
            let flags = paint_flags (fl commit); (fl, result) = paint_candidate cs commit fl result in
            case paint_parents parse_ok flags (c_parents (cs commit)) (queue, fl) of
              Inl fl \<Rightarrow> Some (Inr (if ignore_missing_commits then 0 else - 1, [], fl))
            | Inr (queue, fl) \<Rightarrow>
                paint_loop cs parse_ok min_generation ignore_missing_commits generation queue fl result)"

text \<open>\<open>corrected\<close> is \<open>corrected_commit_dates_enabled\<close>; all callers pass an empty list for the result.\<close>

definition paint_down_to_common ::
  "(commit_id \<Rightarrow> commit) \<Rightarrow> (commit_id \<Rightarrow> bool) \<Rightarrow> bool \<Rightarrow> commit_id \<Rightarrow> commit_id list \<Rightarrow> u64 \<Rightarrow> bool \<Rightarrow> flags \<Rightarrow>
   (cfault + int \<times> commit_id list \<times> flags) option" where
  "paint_down_to_common cs parse_ok corrected one twos min_generation ignore_missing_commits fl =
     (let compare = (if min_generation = 0 \<and> \<not> corrected then compare_commits_by_commit_date cs
                     else compare_commits_by_gen_then_commit_date cs);
          queue = \<lparr>pq_compare = Some compare, pq_ctr = 0, pq_array = []\<rparr>;
          fl = fl(one := fl one OR PARENT1) in
      if twos = [] then Some (Inr (0, [one], fl))
      else
        let queue = prio_queue_put queue one;
            (queue, fl) = fold (\<lambda>two (queue, fl). (prio_queue_put queue two, fl(two := fl two OR PARENT2))) twos (queue, fl) in
        paint_loop cs parse_ok min_generation ignore_missing_commits GENERATION_NUMBER_INFINITY queue fl [])"

section \<open>Ancestors\<close>

definition anc :: "(commit_id \<Rightarrow> commit) \<Rightarrow> commit_id set \<Rightarrow> commit_id set" where
  "anc cs S = reach_in cs UNIV S"

definition panc :: "(commit_id \<Rightarrow> commit) \<Rightarrow> commit_id set \<Rightarrow> commit_id set" where
  "panc cs S = anc cs (\<Union>c \<in> S. set (c_parents (cs c)))"

lemma anc_self: "S \<subseteq> anc cs S"
  by (auto simp: anc_def intro: reach_in.start)

lemma anc_parent: "c \<in> anc cs S \<Longrightarrow> p \<in> set (c_parents (cs c)) \<Longrightarrow> p \<in> anc cs S"
  by (auto simp: anc_def intro: reach_in.parent)

lemma anc_induct [consumes 1, case_names start parent]:
  assumes "c \<in> anc cs S" "\<And>s. s \<in> S \<Longrightarrow> P s" "\<And>c p. c \<in> anc cs S \<Longrightarrow> P c \<Longrightarrow> p \<in> set (c_parents (cs c)) \<Longrightarrow> P p"
  shows "P c"
  using assms(1) unfolding anc_def by induction (auto simp: anc_def intro: assms(2,3))

lemma anc_least: "S \<subseteq> anc cs T \<Longrightarrow> anc cs S \<subseteq> anc cs T"
  unfolding anc_def by (intro reach_in_mono) auto

lemma anc_mono: "S \<subseteq> T \<Longrightarrow> anc cs S \<subseteq> anc cs T"
  using anc_least [of S cs T] anc_self [of T cs] by blast

lemma anc_Un: "anc cs (S \<union> T) = anc cs S \<union> anc cs T"
proof
  show "anc cs (S \<union> T) \<subseteq> anc cs S \<union> anc cs T"
  proof
    show "c \<in> anc cs S \<union> anc cs T" if "c \<in> anc cs (S \<union> T)" for c
      using that by (induction rule: anc_induct) (auto dest: anc_parent subsetD [OF anc_self])
  qed
qed (auto intro: subsetD [OF anc_mono])

lemma panc_subset_anc: "panc cs S \<subseteq> anc cs S"
  unfolding panc_def by (intro anc_least) (auto intro: anc_parent subsetD [OF anc_self])

lemma panc_parent: "c \<in> panc cs S \<Longrightarrow> p \<in> set (c_parents (cs c)) \<Longrightarrow> p \<in> panc cs S"
  unfolding panc_def by (rule anc_parent)

lemma anc_parents_panc: "c \<in> anc cs S \<Longrightarrow> set (c_parents (cs c)) \<subseteq> panc cs S"
proof (induction rule: anc_induct)
  case (start s)
  then show ?case unfolding panc_def by (auto intro: subsetD [OF anc_self])
next
  case (parent c p)
  then show ?case by (auto intro: panc_parent)
qed

lemma anc_parent_panc: "c \<in> anc cs S \<Longrightarrow> p \<in> set (c_parents (cs c)) \<Longrightarrow> p \<in> panc cs S"
  using anc_parents_panc by blast

lemma anc_cases: "c \<in> anc cs S \<Longrightarrow> c \<in> S \<or> c \<in> panc cs S"
  by (induction rule: anc_induct) (auto intro: anc_parent_panc)

lemma panc_mono: "S \<subseteq> anc cs T \<Longrightarrow> panc cs S \<subseteq> panc cs T"
  unfolding panc_def [of cs S] using anc_least [of "\<Union>c \<in> S. set (c_parents (cs c))" cs "\<Union>c \<in> T. set (c_parents (cs c))"]
    anc_parents_panc [of _ cs T] by (fold panc_def) blast

lemma panc_trans: "c \<in> anc cs {d} \<Longrightarrow> d \<in> panc cs S \<Longrightarrow> c \<in> panc cs S"
  unfolding panc_def using anc_least [of "{d}" cs] by blast

lemma panc_anc: "c \<in> panc cs {d} \<Longrightarrow> d \<in> anc cs S \<Longrightarrow> c \<in> panc cs S"
  using panc_mono [of "{d}" cs S] by blast

section \<open>The bits\<close>

lemma u32_eq_iff: "a = b \<longleftrightarrow> (\<forall>n. bit a n \<longleftrightarrow> bit b n)" for a b :: u32
  by (auto intro: bit_word_eqI)

lemma bit_flag [simp]:
  "bit PARENT1 n \<longleftrightarrow> n = 16" "bit PARENT2 n \<longleftrightarrow> n = 17" "bit STALE n \<longleftrightarrow> n = 18" "bit RESULT n \<longleftrightarrow> n = 19"
  unfolding PARENT1_def PARENT2_def STALE_def RESULT_def bit_push_bit_iff bit_1_iff by auto

lemma flag_clear:
  "w AND PARENT1 = 0 \<longleftrightarrow> \<not> bit w 16" "w AND PARENT2 = 0 \<longleftrightarrow> \<not> bit w 17" "w AND STALE = 0 \<longleftrightarrow> \<not> bit w 18" "w AND RESULT = 0 \<longleftrightarrow> \<not> bit w 19"
  by (auto simp: u32_eq_iff bit_simps)

lemma all_flags_clear: "all_flags AND w = 0 \<longleftrightarrow> \<not> bit w 16 \<and> \<not> bit w 17 \<and> \<not> bit w 18 \<and> \<not> bit w 19"
  by (auto simp: all_flags_def u32_eq_iff bit_simps)

lemma both_colours: "w AND (PARENT1 OR PARENT2 OR STALE) = PARENT1 OR PARENT2 \<longleftrightarrow> bit w 16 \<and> bit w 17 \<and> \<not> bit w 18"
  by (auto simp: u32_eq_iff bit_simps dest: spec [of _ 18])

lemma bit_paint_flags:
  "bit (paint_flags w) n \<longleftrightarrow> n = 16 \<and> bit w 16 \<or> n = 17 \<and> bit w 17 \<or> n = 18 \<and> (bit w 18 \<or> bit w 16 \<and> bit w 17)"
  unfolding paint_flags_def Let_def both_colours by (auto simp: bit_simps)

lemma subset_bits: "w AND m = m \<longleftrightarrow> (\<forall>n. bit m n \<longrightarrow> bit w n)" for w m :: u32
  by (auto simp: u32_eq_iff bit_simps)

definition missing :: "flags \<Rightarrow> commit_id \<Rightarrow> nat" where
  "missing fl c = card {n \<in> {16, 17, 18}. \<not> bit (fl c) n}"

lemma missing_mono: "(\<And>n. bit (fl c) n \<Longrightarrow> bit (fl' c) n) \<Longrightarrow> missing fl' c \<le> missing fl c"
  unfolding missing_def by (intro card_mono) auto

lemma missing_less:
  assumes "\<And>n. bit (fl c) n \<Longrightarrow> bit (fl' c) n" "n \<in> {16, 17, 18}" "bit (fl' c) n" "\<not> bit (fl c) n"
  shows "missing fl' c < missing fl c"
  unfolding missing_def by (rule psubset_card_mono) (use assms in auto)

section \<open>The queue\<close>

text \<open>
  What painting needs of its queue: it is a bag, and what it gives has the greatest rank.
\<close>

locale paint_queue = bag_queue prio_queue_put prio_queue_get pq_bag pq_room inv
  for inv :: "commit_id prio_queue \<Rightarrow> bool" +
  fixes rank :: "commit_id \<Rightarrow> u64"
  assumes get_rank: "inv q \<Longrightarrow> prio_queue_get q = (Some x, q') \<Longrightarrow> y \<in># pq_bag q \<Longrightarrow> rank y \<le> rank x"
begin

lemma paint_parents_ok:
  assumes "\<forall>p \<in> set ps. parse_ok p" "inv q" "finite A" "set ps \<subseteq> A" "\<forall>n. bit flags n \<longrightarrow> n \<in> {16, 17, 18}"
    and "(\<Sum>c \<in> A. missing fl c) \<le> pq_room q"
  shows "\<exists>q' new. paint_parents parse_ok flags ps (q, fl) = Inr (q', mark_set flags (set ps) fl) \<and>
    inv q' \<and> pq_bag q' = pq_bag q + mset new \<and> set new = {p \<in> set ps. fl p AND flags \<noteq> flags} \<and>
    (\<Sum>c \<in> A. missing (mark_set flags (set ps) fl) c) \<le> pq_room q' \<and>
    length new + (\<Sum>c \<in> A. missing (mark_set flags (set ps) fl) c) \<le> (\<Sum>c \<in> A. missing fl c)"
  using assms(1,2,4,6)
proof (induction ps arbitrary: q fl)
  case Nil
  then show ?case by (intro exI [of _ q] exI [of _ "[]"]) (simp add: mark_set_def)
next
  case (Cons p ps)
  define fl1 where "fl1 = mark_set flags {p} fl"
  have twice: "mark_set flags (set ps) fl1 = mark_set flags (set (p # ps)) fl" by (simp add: fl1_def mark_set_Un)
  show ?case
  proof (cases "fl p AND flags = flags")
    case True
    have "fl p OR flags = fl p" using True by (auto simp: u32_eq_iff bit_simps)
    then have same: "fl1 = fl" by (simp add: fl1_def mark_set_def fun_eq_iff)
    have "paint_parents parse_ok flags (p # ps) (q, fl) = paint_parents parse_ok flags ps (q, fl)" using True by simp
    moreover have "{x \<in> set (p # ps). fl x AND flags \<noteq> flags} = {x \<in> set ps. fl x AND flags \<noteq> flags}" using True by auto
    ultimately show ?thesis using Cons.IH [of q fl] Cons.prems unfolding twice [symmetric] same by simp
  next
    case False
    then obtain n where n: "bit flags n" "\<not> bit (fl p) n" by (auto simp: subset_bits)
    have run: "paint_parents parse_ok flags (p # ps) (q, fl) = paint_parents parse_ok flags ps (prio_queue_put q p, fl1)"
    proof -
      have "fl(p := fl p OR flags) = fl1" by (auto simp: fl1_def mark_set_def)
      with False Cons.prems(1) show ?thesis by simp
    qed
    have "missing fl1 p < missing fl p"
      using n assms(5) by (intro missing_less [of _ _ _ n]) (auto simp: fl1_def mark_set_def bit_simps)
    moreover have "missing fl1 c \<le> missing fl c" for c by (rule missing_mono) (auto simp: fl1_def mark_set_def bit_simps)
    ultimately have less: "(\<Sum>c \<in> A. missing fl1 c) < (\<Sum>c \<in> A. missing fl c)"
      using assms(3) Cons.prems(3) by (intro sum_strict_mono_ex1) auto
    then have room: "0 < pq_room q" using Cons.prems(4) by linarith
    note put = put_bag [OF Cons.prems(2) room, of p]
    have room': "(\<Sum>c \<in> A. missing fl1 c) \<le> pq_room (prio_queue_put q p)" using put less Cons.prems(4) by linarith
    obtain q' new where new: "paint_parents parse_ok flags ps (prio_queue_put q p, fl1) = Inr (q', mark_set flags (set (p # ps)) fl)" "inv q'"
      "pq_bag q' = pq_bag (prio_queue_put q p) + mset new" "set new = {x \<in> set ps. fl1 x AND flags \<noteq> flags}"
      "(\<Sum>c \<in> A. missing (mark_set flags (set (p # ps)) fl) c) \<le> pq_room q'"
      "length new + (\<Sum>c \<in> A. missing (mark_set flags (set (p # ps)) fl) c) \<le> (\<Sum>c \<in> A. missing fl1 c)"
      using Cons.IH [of "prio_queue_put q p" fl1] Cons.prems put room' unfolding twice by auto
    have "set (p # new) = {x \<in> set (p # ps). fl x AND flags \<noteq> flags}"
    proof -
      have "fl1 p AND flags = flags" by (auto simp: fl1_def mark_set_def u32_eq_iff bit_simps)
      then have "set new = {x \<in> set ps. x \<noteq> p \<and> fl x AND flags \<noteq> flags}" unfolding new(4) by (auto simp: fl1_def mark_set_def)
      with False show ?thesis by auto
    qed
    moreover have "pq_bag q' = pq_bag q + mset (p # new)" using put new(3) by simp
    moreover have "length (p # new) + (\<Sum>c \<in> A. missing (mark_set flags (set (p # ps)) fl) c) \<le> (\<Sum>c \<in> A. missing fl c)"
      using new(6) less by simp
    ultimately show ?thesis unfolding run using new(1,2,5) by blast
  qed
qed

end

section \<open>The invariant\<close>

text \<open>
  \<open>W\<close> are the commits in the queue.  Colours sit on ancestors only; what is not in the queue has
  passed its colours on to its parents, and is a candidate if it has both and is not stale.
\<close>

definition common :: "(commit_id \<Rightarrow> commit) \<Rightarrow> commit_id \<Rightarrow> commit_id list \<Rightarrow> commit_id set" where
  "common cs one twos = anc cs {one} \<inter> anc cs (set twos)"

definition paint_sound :: "(commit_id \<Rightarrow> commit) \<Rightarrow> commit_id \<Rightarrow> commit_id list \<Rightarrow> flags \<Rightarrow> flags \<Rightarrow> bool" where
  "paint_sound cs one twos fl0 fl \<longleftrightarrow>
     (\<forall>c. (bit (fl c) 16 \<longrightarrow> c \<in> anc cs {one}) \<and> (bit (fl c) 17 \<longrightarrow> c \<in> anc cs (set twos)) \<and>
          (bit (fl c) 18 \<longrightarrow> bit (fl c) 16 \<and> bit (fl c) 17 \<and> c \<in> panc cs (common cs one twos)) \<and>
          (bit (fl c) 19 \<longrightarrow> bit (fl c) 16 \<and> bit (fl c) 17) \<and>
          (\<forall>n. n \<notin> {16, 17, 18, 19} \<longrightarrow> bit (fl c) n = bit (fl0 c) n))"

definition paint_flow :: "(commit_id \<Rightarrow> commit) \<Rightarrow> commit_id set \<Rightarrow> flags \<Rightarrow> bool" where
  "paint_flow cs W fl \<longleftrightarrow>
     (\<forall>c. c \<notin> W \<longrightarrow>
       (bit (fl c) 16 \<and> bit (fl c) 17 \<and> \<not> bit (fl c) 18 \<longrightarrow> bit (fl c) 19) \<and>
       (\<forall>p \<in> set (c_parents (cs c)). \<forall>n. bit (paint_flags (fl c)) n \<longrightarrow> bit (fl p) n))"

definition paint_roots :: "(commit_id \<Rightarrow> commit) \<Rightarrow> commit_id \<Rightarrow> commit_id list \<Rightarrow> flags \<Rightarrow> bool" where
  "paint_roots cs one twos fl \<longleftrightarrow>
     bit (fl one) 16 \<and> (\<forall>two \<in> set twos. bit (fl two) 17) \<and>
     marked all_flags fl \<subseteq> reach_in cs (marked all_flags fl) (insert one (set twos))"

definition paint_candidates :: "(commit_id \<Rightarrow> commit) \<Rightarrow> flags \<Rightarrow> commit_id list \<Rightarrow> bool" where
  "paint_candidates cs fl result \<longleftrightarrow> distinct result \<and> set result = {c. bit (fl c) 19} \<and> by_date_sorted cs result"

lemma paint_soundD:
  assumes "paint_sound cs one twos fl0 fl"
  shows "bit (fl c) 16 \<Longrightarrow> c \<in> anc cs {one}" "bit (fl c) 17 \<Longrightarrow> c \<in> anc cs (set twos)"
    "bit (fl c) 18 \<Longrightarrow> bit (fl c) 16 \<and> bit (fl c) 17 \<and> c \<in> panc cs (common cs one twos)"
    "bit (fl c) 19 \<Longrightarrow> bit (fl c) 16 \<and> bit (fl c) 17"
    "n \<notin> {16, 17, 18, 19} \<Longrightarrow> bit (fl c) n = bit (fl0 c) n"
  using assms unfolding paint_sound_def by blast+

lemma bit_mark_set: "bit (mark_set m S fl c) n \<longleftrightarrow> bit (fl c) n \<or> c \<in> S \<and> bit m n"
  by (simp add: mark_set_def bit_or_iff)

text \<open>One commit is taken from the queue.\<close>

lemma paint_sound_step:
  assumes sound: "paint_sound cs one twos fl0 fl"
  shows "paint_sound cs one twos fl0 (mark_set (paint_flags (fl c)) (set (c_parents (cs c))) fl)"
proof -
  note S = paint_soundD [OF sound]
  have anc1: "p \<in> anc cs {one}" if "bit (fl c) 16" "p \<in> set (c_parents (cs c))" for p using S(1) that anc_parent by blast
  have anc2: "p \<in> anc cs (set twos)" if "bit (fl c) 17" "p \<in> set (c_parents (cs c))" for p using S(2) that anc_parent by blast
  have stale: "p \<in> panc cs (common cs one twos)" if "bit (fl c) 18 \<or> bit (fl c) 16 \<and> bit (fl c) 17" "p \<in> set (c_parents (cs c))" for p
    using that(1)
  proof
    assume "bit (fl c) 16 \<and> bit (fl c) 17"
    then have "c \<in> common cs one twos" using S(1,2) by (simp add: common_def)
    then show ?thesis using that(2) by (metis anc_parent_panc anc_self subsetD)
  qed (use S(3) [of c] that(2) panc_parent in blast)
  show ?thesis unfolding paint_sound_def bit_mark_set bit_paint_flags
    using S anc1 anc2 stale by auto
qed

lemma paint_sound_result:
  assumes "paint_sound cs one twos fl0 fl" "bit (fl c) 16" "bit (fl c) 17"
  shows "paint_sound cs one twos fl0 (fl(c := fl c OR RESULT))"
  using assms unfolding paint_sound_def by (auto simp: bit_or_iff)

lemma paint_flow_step:
  assumes flow: "paint_flow cs W fl" and fl1: "\<And>x n. n \<noteq> 19 \<Longrightarrow> bit (fl1 x) n = bit (fl x) n" "\<And>x. bit (fl x) 19 \<Longrightarrow> bit (fl1 x) 19"
    and cand: "bit (fl c) 16 \<and> bit (fl c) 17 \<and> \<not> bit (fl c) 18 \<Longrightarrow> bit (fl1 c) 19"
    and W': "W \<subseteq> insert c W'" "{p \<in> set (c_parents (cs c)). fl1 p AND paint_flags (fl c) \<noteq> paint_flags (fl c)} \<subseteq> W'"
  shows "paint_flow cs W' (mark_set (paint_flags (fl c)) (set (c_parents (cs c))) fl1)"
proof -
  let ?fl = "mark_set (paint_flags (fl c)) (set (c_parents (cs c))) fl1"
  have same: "bit (?fl x) n = bit (fl1 x) n" if "x \<notin> W'" for x n
    using that W'(2) by (auto simp: bit_mark_set subset_bits)
  have pf: "bit (paint_flags (?fl x)) n = bit (paint_flags (fl x)) n" if "x \<notin> W'" for x n
    using same [OF that] fl1(1) by (simp add: bit_paint_flags)
  have grow: "bit (?fl p) n" if "bit (fl p) n" for p n
    using that fl1 by (cases "n = 19") (auto simp: bit_mark_set)
  show ?thesis unfolding paint_flow_def
  proof (intro allI impI conjI ballI)
    fix x assume x: "x \<notin> W'"
    then have old: "x \<notin> W" if "x \<noteq> c" using that W'(1) by auto
    show "bit (?fl x) 19" if "bit (?fl x) 16 \<and> bit (?fl x) 17 \<and> \<not> bit (?fl x) 18"
    proof (cases "x = c")
      case True
      then show ?thesis using that cand x by (simp add: same fl1)
    next
      case False
      then show ?thesis using that old flow fl1(2) x unfolding paint_flow_def by (simp add: same fl1(1))
    qed
    show "bit (?fl p) n" if "p \<in> set (c_parents (cs x))" "bit (paint_flags (?fl x)) n" for p n
    proof (cases "x = c")
      case True
      then show ?thesis using that pf [OF x] by (simp add: bit_mark_set)
    next
      case False
      then have "bit (fl p) n" using that pf [OF x] old flow unfolding paint_flow_def by blast
      then show ?thesis by (rule grow)
    qed
  qed
qed

lemma marked_all_flags: "c \<in> marked all_flags fl \<longleftrightarrow> bit (fl c) 16 \<or> bit (fl c) 17 \<or> bit (fl c) 18 \<or> bit (fl c) 19"
  by (auto simp: marked_def all_flags_clear)

lemma paint_roots_step:
  assumes "paint_roots cs one twos fl" and c: "c \<in> marked all_flags fl" and fl1: "marked all_flags fl1 = marked all_flags fl"
    and bits: "\<And>x n. bit (fl x) n \<Longrightarrow> bit (fl1 x) n"
  shows "paint_roots cs one twos (mark_set (paint_flags (fl c)) (set (c_parents (cs c))) fl1)"
proof -
  let ?fl = "mark_set (paint_flags (fl c)) (set (c_parents (cs c))) fl1" and ?R = "insert one (set twos)"
  have "marked all_flags fl \<subseteq> marked all_flags ?fl" by (auto simp: marked_all_flags bit_mark_set bits)
  moreover have "marked all_flags fl \<subseteq> reach_in cs (marked all_flags fl) ?R" using assms(1) by (simp add: paint_roots_def)
  ultimately have old: "marked all_flags fl \<subseteq> reach_in cs (marked all_flags ?fl) ?R"
    using reach_in_mono [of "marked all_flags fl" "marked all_flags ?fl" ?R cs ?R] by (blast intro: reach_in.start)
  have "marked all_flags ?fl \<subseteq> reach_in cs (marked all_flags ?fl) ?R"
  proof
    fix x assume x: "x \<in> marked all_flags ?fl"
    show "x \<in> reach_in cs (marked all_flags ?fl) ?R"
    proof (cases "x \<in> marked all_flags fl")
      case False
      then have "x \<in> set (c_parents (cs c))" using x unfolding fl1 [symmetric] by (auto simp: marked_all_flags bit_mark_set)
      then show ?thesis using old c x by (blast intro: reach_in.parent)
    qed (use old in blast)
  qed
  with assms(1) bits show ?thesis by (auto simp: paint_roots_def bit_mark_set)
qed

lemma missing_result: "missing (fl(c := fl c OR RESULT)) = missing fl"
proof
  show "missing (fl(c := fl c OR RESULT)) x = missing fl x" for x
    unfolding missing_def by (rule arg_cong [of _ _ card]) (auto simp: bit_or_iff)
qed

text \<open>The state of the loop.\<close>

definition paint_inv ::
  "(commit_id \<Rightarrow> commit) \<Rightarrow> commit_id \<Rightarrow> commit_id list \<Rightarrow> flags \<Rightarrow> commit_id set \<Rightarrow> flags \<Rightarrow> commit_id list \<Rightarrow> bool" where
  "paint_inv cs one twos fl0 W fl result \<longleftrightarrow>
     paint_sound cs one twos fl0 fl \<and> paint_flow cs W fl \<and> paint_roots cs one twos fl \<and> paint_candidates cs fl result \<and>
     W \<subseteq> marked all_flags fl"

lemma paint_inv_step:
  assumes inv: "paint_inv cs one twos fl0 W fl result" and c: "c \<in> W" and "paint_candidate cs c fl result = (fl1, result1)"
    and W': "W \<subseteq> insert c W'" "W' \<subseteq> W \<union> {p \<in> set (c_parents (cs c)). fl1 p AND paint_flags (fl c) \<noteq> paint_flags (fl c)}"
      "{p \<in> set (c_parents (cs c)). fl1 p AND paint_flags (fl c) \<noteq> paint_flags (fl c)} \<subseteq> W'"
  shows "paint_inv cs one twos fl0 W' (mark_set (paint_flags (fl c)) (set (c_parents (cs c))) fl1) result1" and "missing fl1 = missing fl"
    and "paint_flags (fl1 c) = paint_flags (fl c)"
proof -
  have fl1: "fl1 = fl \<and> result1 = result \<and> (bit (fl c) 16 \<and> bit (fl c) 17 \<and> \<not> bit (fl c) 18 \<longrightarrow> bit (fl c) 19) \<or>
    fl1 = fl(c := fl c OR RESULT) \<and> result1 = commit_list_insert_by_date cs c result \<and> bit (fl c) 16 \<and> bit (fl c) 17 \<and> \<not> bit (fl c) 19 \<and> bit (fl1 c) 19"
    using assms(3) unfolding paint_candidate_def both_colours flag_clear by (auto simp: bit_or_iff split: if_splits)
  have bits: "bit (fl1 x) n \<longleftrightarrow> bit (fl x) n \<or> x = c \<and> fl1 \<noteq> fl \<and> n = 19" for x n
    using fl1 by (cases "x = c") (auto simp: bit_or_iff)
  show "missing fl1 = missing fl" using fl1 missing_result by auto
  show pf: "paint_flags (fl1 c) = paint_flags (fl c)" by (simp add: u32_eq_iff bit_paint_flags bits)
  have "paint_sound cs one twos fl0 fl1" using fl1 inv paint_sound_result by (auto simp: paint_inv_def)
  then have "paint_sound cs one twos fl0 (mark_set (paint_flags (fl c)) (set (c_parents (cs c))) fl1)"
    using paint_sound_step pf by metis
  moreover have "paint_flow cs W' (mark_set (paint_flags (fl c)) (set (c_parents (cs c))) fl1)"
  proof (rule paint_flow_step [of cs W])
    show "paint_flow cs W fl" using inv by (simp add: paint_inv_def)
    show "bit (fl1 c) 19" if "bit (fl c) 16 \<and> bit (fl c) 17 \<and> \<not> bit (fl c) 18" using fl1 that by (auto simp: bit_or_iff)
  qed (use W' in \<open>auto simp: bits\<close>)
  moreover have "fl1 \<noteq> fl \<Longrightarrow> bit (fl c) 16" using fl1 by blast
  then have "marked all_flags fl1 = marked all_flags fl" by (auto simp: marked_all_flags bits)
  then have "paint_roots cs one twos (mark_set (paint_flags (fl c)) (set (c_parents (cs c))) fl1)"
    using inv c by (intro paint_roots_step) (auto simp: paint_inv_def bits)
  moreover have "paint_candidates cs fl1 result1"
  proof (cases "fl1 = fl")
    case False
    then have "fl1 = fl(c := fl c OR RESULT)" "result1 = commit_list_insert_by_date cs c result" "\<not> bit (fl c) 19" using fl1 by auto
    moreover have "set result1 = insert c (set result)" using calculation(2) mset_insert_by_date [of cs c result] by (metis set_mset_add_mset_insert set_mset_mset)
    moreover have "distinct result1 \<longleftrightarrow> c \<notin> set result \<and> distinct result"
      using calculation(2) mset_insert_by_date [of cs c result] by (metis distinct.simps(2) mset.simps(2) mset_eq_imp_distinct_iff)
    ultimately show ?thesis using inv by (auto simp: paint_inv_def paint_candidates_def insert_by_date_sorted bit_or_iff split: if_splits)
  qed (use fl1 inv in \<open>auto simp: paint_inv_def\<close>)
  then have "paint_candidates cs (mark_set (paint_flags (fl c)) (set (c_parents (cs c))) fl1) result1"
    by (simp add: paint_candidates_def bit_mark_set bit_paint_flags)
  moreover have "W' \<subseteq> marked all_flags (mark_set (paint_flags (fl c)) (set (c_parents (cs c))) fl1)"
  proof
    fix x assume "x \<in> W'"
    then consider "x \<in> W" | "x \<in> set (c_parents (cs c))" "fl1 x AND paint_flags (fl c) \<noteq> paint_flags (fl c)" using W'(2) by blast
    then show "x \<in> marked all_flags (mark_set (paint_flags (fl c)) (set (c_parents (cs c))) fl1)"
    proof cases
      case 1
      then show ?thesis using inv by (auto simp: paint_inv_def marked_all_flags bit_mark_set bits)
    next
      case 2
      then obtain n where "bit (paint_flags (fl c)) n" by (auto simp: subset_bits)
      with 2(1) show ?thesis by (auto simp: marked_all_flags bit_mark_set bit_paint_flags)
    qed
  qed
  ultimately show "paint_inv cs one twos fl0 W' (mark_set (paint_flags (fl c)) (set (c_parents (cs c))) fl1) result1"
    by (simp add: paint_inv_def)
qed

lemma paint_marked:
  assumes "paint_sound cs one twos fl0 fl"
  shows "marked all_flags fl \<subseteq> anc cs (insert one (set twos))"
proof
  fix c assume "c \<in> marked all_flags fl"
  then have "bit (fl c) 16 \<or> bit (fl c) 17" using paint_soundD(3,4) [OF assms, of c] by (auto simp: marked_all_flags)
  then have "c \<in> anc cs {one} \<or> c \<in> anc cs (set twos)" using paint_soundD(1,2) [OF assms, of c] by blast
  then show "c \<in> anc cs (insert one (set twos))" using anc_Un [of cs "{one}" "set twos"] by auto
qed

lemma nonstale_bag: "queue_has_nonstale q fl \<longleftrightarrow> (\<exists>c \<in># pq_bag q. \<not> bit (fl c) 18)"
  by (auto simp: queue_has_nonstale_def pq_bag_def flag_clear list_ex_iff)

definition generations_ok :: "(commit_id \<Rightarrow> commit) \<Rightarrow> commit_id set \<Rightarrow> bool" where
  "generations_ok cs A \<longleftrightarrow>
     (\<forall>c \<in> A. c_generation (cs c) \<le> GENERATION_NUMBER_INFINITY \<and>
       (\<forall>p \<in> set (c_parents (cs c)). c_generation (cs p) \<le> c_generation (cs c)))"

context paint_queue
begin

lemma paint_loop_ok:
  assumes A: "A = anc cs (insert one (set twos))" "finite A" "\<forall>c \<in> A. parse_ok c"
    and gen: "min_gen \<noteq> 0 \<Longrightarrow> (\<forall>c. rank c = c_generation (cs c)) \<and> generations_ok cs A"
    and "inv q" "paint_inv cs one twos fl0 (set_mset (pq_bag q)) fl result" "(\<Sum>c \<in> A. missing fl c) \<le> pq_room q"
    and "min_gen \<noteq> 0 \<Longrightarrow> \<forall>x \<in># pq_bag q. c_generation (cs x) \<le> last_gen"
  shows "\<exists>result' fl' W. paint_loop cs parse_ok min_gen ignore_missing last_gen q fl result = Some (Inr (0, result', fl')) \<and>
    paint_inv cs one twos fl0 W fl' result' \<and> (\<forall>x \<in> W. bit (fl' x) 18 \<or> c_generation (cs x) < min_gen)"
  using assms(5-8)
proof (induction "(\<Sum>c \<in> A. missing fl c) + size (pq_bag q)" arbitrary: q fl result last_gen rule: less_induct)
  case less
  show ?case
  proof (cases "queue_has_nonstale q fl")
    case False
    then have "paint_loop cs parse_ok min_gen ignore_missing last_gen q fl result = Some (Inr (0, result, fl))"
      by (subst paint_loop.simps) simp
    with less.prems(2) False show ?thesis by (auto simp: nonstale_bag)
  next
    case True
    then have "pq_bag q \<noteq> {#}" by (auto simp: nonstale_bag)
    then obtain c q1 where get: "prio_queue_get q = (Some c, q1)" "inv q1" "pq_bag q = add_mset c (pq_bag q1)" "pq_room q1 = pq_room q"
      using get_one [OF less.prems(1)] by blast
    have last: "(min_gen \<noteq> 0 \<and> last_gen < c_generation (cs c)) = False" using less.prems(4) get(3) by auto
    have step: "paint_loop cs parse_ok min_gen ignore_missing last_gen q fl result =
      (if c_generation (cs c) < min_gen then Some (Inr (0, result, fl))
       else case paint_candidate cs c fl result of (fl1, result1) \<Rightarrow>
         (case paint_parents parse_ok (paint_flags (fl c)) (c_parents (cs c)) (q1, fl1) of
            Inl fl2 \<Rightarrow> Some (Inr (if ignore_missing then 0 else - 1, [], fl2))
          | Inr (q2, fl2) \<Rightarrow> paint_loop cs parse_ok min_gen ignore_missing (c_generation (cs c)) q2 fl2 result1))"
      using True unfolding paint_loop.simps [of cs parse_ok min_gen ignore_missing last_gen q] get(1) prod.case option.case Let_def last by simp
    show ?thesis
    proof (cases "c_generation (cs c) < min_gen")
      case low: True
      then have "paint_loop cs parse_ok min_gen ignore_missing last_gen q fl result = Some (Inr (0, result, fl))"
        unfolding step by simp
      moreover have "\<forall>x \<in># pq_bag q. c_generation (cs x) < min_gen"
      proof -
        have "min_gen \<noteq> 0" using low by auto
        then have "c_generation (cs x) \<le> c_generation (cs c)" if "x \<in># pq_bag q" for x
          using get_rank [OF less.prems(1) get(1) that] gen by simp
        with low show ?thesis by (meson le_less_trans)
      qed
      ultimately show ?thesis using less.prems(2) by blast
    next
      case False
      obtain fl1 result1 where cand: "paint_candidate cs c fl result = (fl1, result1)" by fastforce
      let ?flags = "paint_flags (fl c)" and ?ps = "c_parents (cs c)"
      let ?fl = "mark_set ?flags (set ?ps) fl1"
      have cW: "c \<in># pq_bag q" using get(3) by simp
      have sound: "paint_sound cs one twos fl0 fl" using less.prems(2) by (simp add: paint_inv_def)
      have cA: "c \<in> A" using paint_marked [OF sound] less.prems(2) cW unfolding A(1) paint_inv_def by blast
      have psA: "set ?ps \<subseteq> A" using cA anc_parent unfolding A(1) by blast
      have miss: "missing fl1 = missing fl"
        by (rule paint_inv_step(2) [OF less.prems(2) cW cand, of "insert c (set_mset (pq_bag q) \<union> {p \<in> set ?ps. fl1 p AND ?flags \<noteq> ?flags})"]) (use cW in auto)
      have "\<forall>n. bit ?flags n \<longrightarrow> n \<in> {16, 17, 18}" by (auto simp: bit_paint_flags)
      moreover have "(\<Sum>c \<in> A. missing fl1 c) \<le> pq_room q1" using less.prems(3) get(4) by (simp add: miss)
      moreover have "\<forall>p \<in> set ?ps. parse_ok p" using A(3) psA by blast
      ultimately obtain q2 new where par: "paint_parents parse_ok ?flags ?ps (q1, fl1) = Inr (q2, ?fl)" "inv q2"
        "pq_bag q2 = pq_bag q1 + mset new" "set new = {p \<in> set ?ps. fl1 p AND ?flags \<noteq> ?flags}"
        "(\<Sum>c \<in> A. missing ?fl c) \<le> pq_room q2" "length new + (\<Sum>c \<in> A. missing ?fl c) \<le> (\<Sum>c \<in> A. missing fl c)"
        using paint_parents_ok [OF _ get(2) A(2) psA, of parse_ok ?flags fl1] unfolding miss by blast
      have run: "paint_loop cs parse_ok min_gen ignore_missing last_gen q fl result =
        paint_loop cs parse_ok min_gen ignore_missing (c_generation (cs c)) q2 ?fl result1"
        using False unfolding step cand prod.case par(1) sum.case by simp
      have W2: "set_mset (pq_bag q2) = set_mset (pq_bag q1) \<union> set new" using par(3) by simp
      have "paint_inv cs one twos fl0 (set_mset (pq_bag q2)) ?fl result1"
        by (rule paint_inv_step(1) [OF less.prems(2) cW cand]) (use get(3) in \<open>auto simp: W2 par(4)\<close>)
      moreover have "(\<Sum>c \<in> A. missing ?fl c) + size (pq_bag q2) < (\<Sum>c \<in> A. missing fl c) + size (pq_bag q)"
        using par(3,6) get(3) by simp
      moreover have "\<forall>x \<in># pq_bag q2. c_generation (cs x) \<le> c_generation (cs c)" if "min_gen \<noteq> 0"
      proof
        fix x assume "x \<in># pq_bag q2"
        then consider "x \<in># pq_bag q" | "x \<in> set ?ps" using W2 par(4) get(3) by auto
        then show "c_generation (cs x) \<le> c_generation (cs c)"
          using get_rank [OF less.prems(1) get(1), of x] gen [OF that] cA by cases (auto simp: generations_ok_def)
      qed
      ultimately show ?thesis unfolding run by (intro less.hyps par(2,5))
    qed
  qed
qed

end

context queue_order
begin

lemma get_front:
  assumes "pq_inv cmp q" "prio_queue_get q = (Some x, q')" "y \<in># pq_bag q"
  shows "cmp x y \<le> 0"
proof -
  obtain e es where arr: "pq_array q = e # es" using assms(2) by (cases "pq_array q") (auto simp: prio_queue_get_def)
  then have "x = pe_data e" using get_array [OF assms(1) arr] assms(2) by auto
  moreover obtain f where f: "f \<in> set (pq_array q)" "y = pe_data f" using assms(3) by (auto simp: pq_bag_def)
  ultimately show ?thesis using front_min [OF assms(1) arr f(1)] by (simp add: entry_compare_def Let_def split: if_splits)
qed

end

interpretation paint_by_date: paint_queue "pq_inv (compare_commits_by_commit_date cs)" "\<lambda>_. 0"
  by (intro paint_queue.intro paint_queue_axioms.intro by_date.heap_bag) simp

interpretation paint_by_gen: paint_queue "pq_inv (compare_commits_by_gen_then_commit_date cs)" "\<lambda>c. c_generation (cs c)"
proof (intro paint_queue.intro paint_queue_axioms.intro by_gen.heap_bag)
  show "c_generation (cs y) \<le> c_generation (cs x)"
    if "pq_inv (compare_commits_by_gen_then_commit_date cs) q" "prio_queue_get q = (Some x, q')" "y \<in># pq_bag q" for q q' x y
    using by_gen.get_front [OF that] by (auto simp: compare_commits_by_gen_then_commit_date_def Let_def split: if_splits)
qed

section \<open>Painting ends and is right\<close>

context paint_queue
begin

lemma paint_put_twos:
  assumes "inv q" "length twos \<le> pq_room q"
  shows "\<exists>q'. fold (\<lambda>two (queue, fl). (prio_queue_put queue two, fl(two := fl two OR PARENT2))) twos (q, fl) = (q', mark_set PARENT2 (set twos) fl) \<and>
    inv q' \<and> pq_bag q' = pq_bag q + mset twos \<and> pq_room q' = pq_room q - length twos"
  using assms
proof (induction twos arbitrary: q fl)
  case Nil
  then show ?case by (simp add: mark_set_def)
next
  case (Cons two twos)
  have "fl(two := fl two OR PARENT2) = mark_set PARENT2 {two} fl" by (auto simp: mark_set_def)
  moreover have put: "inv (prio_queue_put q two)" "pq_bag (prio_queue_put q two) = add_mset two (pq_bag q)" "pq_room (prio_queue_put q two) = pq_room q - 1"
    using put_bag [OF Cons.prems(1), of two] Cons.prems(2) by auto
  ultimately show ?case using Cons.IH [OF put(1), of "mark_set PARENT2 {two} fl"] Cons.prems(2) by (auto simp: mark_set_Un simp del: fun_upd_apply)
qed

end

lemma paint_inv_start:
  assumes "marked all_flags fl0 = {}" "twos \<noteq> []"
  shows "paint_inv cs one twos fl0 (insert one (set twos)) (mark_set PARENT2 (set twos) (mark_set PARENT1 {one} fl0)) []"
proof -
  have clean: "\<not> bit (fl0 c) 16" "\<not> bit (fl0 c) 17" "\<not> bit (fl0 c) 18" "\<not> bit (fl0 c) 19" for c
    using assms(1) marked_all_flags [of c fl0] by auto
  let ?fl = "mark_set PARENT2 (set twos) (mark_set PARENT1 {one} fl0)"
  have marked: "marked all_flags ?fl = insert one (set twos)" by (auto simp: marked_all_flags bit_mark_set clean)
  have "paint_sound cs one twos fl0 ?fl"
    unfolding paint_sound_def bit_mark_set using anc_self [of "{one}" cs] anc_self [of "set twos" cs] by (auto simp: clean)
  moreover have "paint_flow cs (insert one (set twos)) ?fl"
    by (auto simp: paint_flow_def bit_paint_flags bit_mark_set clean)
  moreover have "paint_roots cs one twos ?fl"
    unfolding paint_roots_def marked by (auto simp: bit_mark_set intro: reach_in.start)
  ultimately show ?thesis by (auto simp: paint_inv_def marked paint_candidates_def bit_mark_set clean)
qed

text \<open>Stores in which painting ends: finitely many commits, all readable.\<close>

definition history_ok :: "(commit_id \<Rightarrow> commit) \<Rightarrow> (commit_id \<Rightarrow> bool) \<Rightarrow> commit_id set \<Rightarrow> bool" where
  "history_ok cs parse_ok S \<longleftrightarrow> finite (anc cs S) \<and> (\<forall>c \<in> anc cs S. parse_ok c \<and> c \<notin> panc cs {c}) \<and> card (anc cs S) < 2 ^ 60"

lemma history_ok_mono: "history_ok cs parse_ok S \<Longrightarrow> T \<subseteq> anc cs S \<Longrightarrow> history_ok cs parse_ok T"
  using anc_least [of T cs S] card_mono [of "anc cs S" "anc cs T"] unfolding history_ok_def by (auto intro: finite_subset)

lemma paint_down_ok:
  assumes "marked all_flags fl0 = {}" "history_ok cs parse_ok (insert one (set twos))" "length twos < 2 ^ 60" "twos \<noteq> []"
    and "min_gen \<noteq> 0 \<Longrightarrow> generations_ok cs (anc cs (insert one (set twos)))"
  shows "\<exists>result fl W. paint_down_to_common cs parse_ok corrected one twos min_gen ignore_missing fl0 = Some (Inr (0, result, fl)) \<and>
    paint_inv cs one twos fl0 W fl result \<and> (\<forall>x \<in> W. bit (fl x) 18 \<or> c_generation (cs x) < min_gen)"
proof -
  define A where "A = anc cs (insert one (set twos))"
  define fl where "fl = mark_set PARENT2 (set twos) (mark_set PARENT1 {one} fl0)"
  have A: "finite A" "\<forall>c \<in> A. parse_ok c" "card A < 2 ^ 60" using assms(2) by (auto simp: history_ok_def A_def)
  have roots: "insert one (set twos) \<subseteq> A" unfolding A_def by (rule anc_self)
  have "(\<Sum>c \<in> A. missing fl c) \<le> (\<Sum>c \<in> A. 3)"
  proof (rule sum_mono)
    have "missing fl c \<le> card {16 :: nat, 17, 18}" for c unfolding missing_def by (intro card_mono) auto
    also have "card {16 :: nat, 17, 18} = 3" by simp
    finally show "missing fl c \<le> 3" for c .
  qed
  then have miss: "(\<Sum>c \<in> A. missing fl c) \<le> 2 ^ 64 - 1 - (1 + length twos)" using A(3) assms(3) by simp
  have gen_inf: "\<forall>x \<in> insert one (set twos). c_generation (cs x) \<le> GENERATION_NUMBER_INFINITY" if "min_gen \<noteq> 0"
    using assms(5) [OF that] roots unfolding A_def [symmetric] generations_ok_def by blast
  have run: "\<exists>result fl' W. (let queue = prio_queue_put \<lparr>pq_compare = Some cmp, pq_ctr = 0, pq_array = []\<rparr> one;
            (queue, fl) = fold (\<lambda>two (queue, fl). (prio_queue_put queue two, fl(two := fl two OR PARENT2))) twos (queue, mark_set PARENT1 {one} fl0) in
        paint_loop cs parse_ok min_gen ignore_missing GENERATION_NUMBER_INFINITY queue fl []) = Some (Inr (0, result, fl')) \<and>
      paint_inv cs one twos fl0 W fl' result \<and> (\<forall>x \<in> W. bit (fl' x) 18 \<or> c_generation (cs x) < min_gen)"
    if pq: "paint_queue (pq_inv cmp) rank" and rank: "min_gen \<noteq> 0 \<Longrightarrow> \<forall>c. rank c = c_generation (cs c)" for cmp rank
  proof -
    let ?q = "\<lparr>pq_compare = Some cmp, pq_ctr = 0, pq_array = []\<rparr> :: commit_id prio_queue"
    have bag: "bag_queue prio_queue_put prio_queue_get pq_bag pq_room (pq_inv cmp)" using pq by (simp add: paint_queue_def)
    have q0: "pq_inv cmp ?q" "pq_room ?q = 2 ^ 64 - 1" "pq_bag ?q = {#}" by (simp_all add: pq_inv_def heap_defs pq_room_def pq_bag_def)
    note q1 = bag_queue.put_bag [OF bag q0(1), of one]
    obtain q where q: "fold (\<lambda>two (queue, fl). (prio_queue_put queue two, fl(two := fl two OR PARENT2))) twos (prio_queue_put ?q one, mark_set PARENT1 {one} fl0) = (q, fl)"
      "pq_inv cmp q" "pq_bag q = add_mset one (mset twos)" "pq_room q = 2 ^ 64 - 1 - (1 + length twos)"
      using paint_queue.paint_put_twos [OF pq, of "prio_queue_put ?q one" twos "mark_set PARENT1 {one} fl0"] q0 q1 assms(3) unfolding fl_def by auto
    have "paint_inv cs one twos fl0 (set_mset (pq_bag q)) fl []" unfolding q(3) fl_def using paint_inv_start [OF assms(1,4)] by simp
    moreover have "\<forall>x \<in># pq_bag q. c_generation (cs x) \<le> GENERATION_NUMBER_INFINITY" if "min_gen \<noteq> 0" using gen_inf [OF that] q(3) by simp
    moreover have "(\<Sum>c \<in> A. missing fl c) \<le> pq_room q" using miss unfolding q(4) .
    moreover have "(\<forall>c. rank c = c_generation (cs c)) \<and> generations_ok cs A" if "min_gen \<noteq> 0" using rank assms(5) that unfolding A_def by blast
    ultimately have "\<exists>result' fl' W. paint_loop cs parse_ok min_gen ignore_missing GENERATION_NUMBER_INFINITY q fl [] = Some (Inr (0, result', fl')) \<and>
      paint_inv cs one twos fl0 W fl' result' \<and> (\<forall>x \<in> W. bit (fl' x) 18 \<or> c_generation (cs x) < min_gen)"
      by (intro paint_queue.paint_loop_ok [OF pq A_def A(1,2) _ q(2)])
    then show ?thesis unfolding Let_def q(1) prod.case .
  qed
  have "fl0(one := fl0 one OR PARENT1) = mark_set PARENT1 {one} fl0" by (auto simp: mark_set_def)
  then show ?thesis
    using run [OF paint_by_date.paint_queue_axioms] run [OF paint_by_gen.paint_queue_axioms] assms(4)
    unfolding paint_down_to_common_def Let_def by auto
qed

text \<open>When painting has ended, the best common ancestors are candidates.\<close>

definition best :: "(commit_id \<Rightarrow> commit) \<Rightarrow> commit_id \<Rightarrow> commit_id list \<Rightarrow> commit_id set" where
  "best cs one twos = {c \<in> common cs one twos. c \<notin> panc cs (common cs one twos)}"

lemma paint_colour:
  assumes flow: "paint_flow cs W fl" and roots: "\<forall>r \<in> R. bit (fl r) n" and n: "n \<in> {16, 17}"
    and passed: "\<And>c. c \<in> anc cs R \<Longrightarrow> b \<in> panc cs {c} \<Longrightarrow> c \<notin> W"
    and "b \<in> anc cs R"
  shows "bit (fl b) n"
proof -
  have "bit (fl x) n" if "x \<in> anc cs R" "b \<in> anc cs {x}" for x
    using that
  proof (induction rule: anc_induct)
    case (start s)
    then show ?case using roots by blast
  next
    case (parent c p)
    have b: "b \<in> panc cs {c}"
      using parent.hyps parent.prems anc_parent_panc [of c cs "{c}" p] anc_self [of "{c}" cs] panc_trans [of b cs p "{c}"] by blast
    then have "bit (fl c) n" using parent.IH panc_subset_anc [of cs "{c}"] by blast
    then have "bit (paint_flags (fl c)) n" using n by (auto simp: bit_paint_flags)
    then show ?case using flow passed [OF parent.hyps(1) b] parent.hyps(2) unfolding paint_flow_def by blast
  qed
  then show ?thesis using assms(5) anc_self [of "{b}" cs] by blast
qed

lemma paint_best:
  assumes inv: "paint_inv cs one twos fl0 W fl result" and W: "\<forall>x \<in> W. bit (fl x) 18" and b: "b \<in> best cs one twos"
  shows "b \<in> set result" and "\<not> bit (fl b) 18"
proof -
  have parts: "paint_sound cs one twos fl0 fl" "paint_flow cs W fl" "paint_roots cs one twos fl" "paint_candidates cs fl result"
    using inv by (simp_all add: paint_inv_def)
  have best: "b \<in> common cs one twos" "b \<notin> panc cs (common cs one twos)" using b by (auto simp: best_def)
  have stale: "c \<notin> W" if "b \<in> anc cs {c}" for c
  proof
    assume "c \<in> W"
    then have "c \<in> panc cs (common cs one twos)" using W paint_soundD(3) [OF parts(1), of c] by blast
    with that best(2) show False using panc_trans by blast
  qed
  show b18: "\<not> bit (fl b) 18" using paint_soundD(3) [OF parts(1), of b] best(2) by blast
  have "bit (fl b) 16"
    by (rule paint_colour [OF parts(2), where R = "{one}" and b = b])
      (use parts(3) best(1) stale panc_subset_anc in \<open>auto simp: paint_roots_def common_def\<close>)
  moreover have "bit (fl b) 17"
    by (rule paint_colour [OF parts(2), where R = "set twos" and b = b])
      (use parts(3) best(1) stale panc_subset_anc in \<open>auto simp: paint_roots_def common_def\<close>)
  moreover have "b \<notin> W" using stale anc_self [of "{b}" cs] by blast
  ultimately have "bit (fl b) 19" using parts(2) b18 unfolding paint_flow_def by blast
  then show "b \<in> set result" using parts(4) by (simp add: paint_candidates_def)
qed

lemma generations_anc:
  assumes "generations_ok cs (anc cs S)" "c \<in> anc cs S" "x \<in> anc cs {c}"
  shows "c_generation (cs x) \<le> c_generation (cs c)"
  using assms(3)
proof (induction rule: anc_induct)
  case (parent y p)
  then have "y \<in> anc cs S" using assms(2) anc_least [of "{c}" cs S] by blast
  then have "c_generation (cs p) \<le> c_generation (cs y)" using assms(1) parent.hyps by (auto simp: generations_ok_def)
  then show ?case using parent.IH by (rule order_trans)
qed simp

text \<open>The first commit has the second colour exactly if it is an ancestor of the others.\<close>

lemma paint_one:
  assumes inv: "paint_inv cs one twos fl0 W fl result" and W: "\<forall>x \<in> W. bit (fl x) 18 \<or> c_generation (cs x) < min_gen"
    and gen: "min_gen \<noteq> 0 \<Longrightarrow> generations_ok cs (anc cs (insert one (set twos)))" "min_gen \<le> c_generation (cs one)" and cycle: "one \<notin> panc cs {one}"
  shows "bit (fl one) 17 \<longleftrightarrow> one \<in> anc cs (set twos)"
proof
  have parts: "paint_sound cs one twos fl0 fl" "paint_flow cs W fl" "paint_roots cs one twos fl"
    using inv by (simp_all add: paint_inv_def)
  show "one \<in> anc cs (set twos)" if "bit (fl one) 17" using paint_soundD(2) [OF parts(1)] that by blast
  assume one: "one \<in> anc cs (set twos)"
  show "bit (fl one) 17"
  proof (rule paint_colour [OF parts(2), where R = "set twos" and b = one])
    show "c \<notin> W" if c: "c \<in> anc cs (set twos)" "one \<in> panc cs {c}" for c
    proof
      assume "c \<in> W"
      with W consider "bit (fl c) 18" | "c_generation (cs c) < min_gen" by blast
      then show False
      proof cases
        case 1
        then have "c \<in> panc cs (common cs one twos)" using paint_soundD(3) [OF parts(1), of c] by blast
        moreover have "panc cs (common cs one twos) \<subseteq> panc cs {one}" by (rule panc_mono) (simp add: common_def)
        ultimately have "one \<in> panc cs {one}" using c(2) panc_subset_anc [of cs "{c}"] panc_trans [of one cs c "{one}"] by blast
        with cycle show False by blast
      next
        case 2
        then have "min_gen \<noteq> 0" by auto
        moreover have "c \<in> anc cs (insert one (set twos))" using c(1) anc_mono [of "set twos" "insert one (set twos)" cs] by blast
        ultimately have "c_generation (cs one) \<le> c_generation (cs c)" using generations_anc gen(1) c(2) panc_subset_anc by blast
        with 2 gen(2) show False by (simp add: not_less [symmetric])
      qed
    qed
  qed (use parts(3) one in \<open>auto simp: paint_roots_def\<close>)
qed

lemma paint_unmark:
  assumes "paint_inv cs one twos fl0 W fl result" "marked all_flags fl0 = {}"
  shows "unmark all_flags (marked all_flags fl) fl = fl0" and "reach_in cs (marked all_flags fl) (insert one (set twos)) = marked all_flags fl"
proof -
  have sound: "paint_sound cs one twos fl0 fl" using assms(1) by (simp add: paint_inv_def)
  have clean: "\<not> bit (fl0 c) n" if "n \<in> {16, 17, 18, 19}" for c n using assms(2) marked_all_flags [of c fl0] that by auto
  have "bit (unmark all_flags (marked all_flags fl) fl c) n = bit (fl0 c) n" for c n
  proof (cases "n \<in> {16, 17, 18, 19}")
    case True
    then have "bit all_flags n" by (auto simp: all_flags_def bit_simps)
    moreover have "c \<in> marked all_flags fl" if "bit (fl c) n" using True that by (auto simp: marked_all_flags)
    ultimately show ?thesis using clean [OF True] by (auto simp: unmark_def bit_simps)
  next
    case False
    then have "\<not> bit all_flags n" by (auto simp: all_flags_def bit_simps)
    then show ?thesis using paint_soundD(5) [OF sound False, of c] bit_imp_le_length [of "fl c" n] by (auto simp: unmark_def bit_simps)
  qed
  then show "unmark all_flags (marked all_flags fl) fl = fl0" by (auto simp: fun_eq_iff u32_eq_iff)
  show "reach_in cs (marked all_flags fl) (insert one (set twos)) = marked all_flags fl"
    using assms(1) reach_in_subset unfolding paint_inv_def paint_roots_def by blast
qed

end
