(* ===== verification/Redundant_Commits.thy ===== *)
theory Redundant_Commits
  imports Merge_Base
begin

text \<open>
  The clients of painting in \<open>commit-reach.c\<close>: the test whether a commit is an ancestor of others
  (\<open>repo_in_merge_bases_many\<close>) and the removal of commits that are ancestors of others
  (\<open>remove_redundant_no_gen\<close>).  It passes its count of commits, a
  \<open>size_t\<close>, to \<open>paint_down_to_common\<close> as an \<open>int\<close>; that conversion is not modelled, so lists are shorter than 2^31.
\<close>

section \<open>Ancestor tests\<close>

text \<open>A walk may not end, and may end in a fault.\<close>

definition walk_bind :: "(cfault + 'a) option \<Rightarrow> ('a \<Rightarrow> (cfault + 'b) option) \<Rightarrow> (cfault + 'b) option" where
  "walk_bind m f = (case m of None \<Rightarrow> None | Some (Inl e) \<Rightarrow> Some (Inl e) | Some (Inr x) \<Rightarrow> f x)"

lemma walk_bind_simps [simp]: "walk_bind (Some (Inr x)) f = f x"
  by (simp add: walk_bind_def)

definition clear_both :: "(commit_id \<Rightarrow> commit) \<Rightarrow> commit_id \<Rightarrow> commit_id list \<Rightarrow> flags \<Rightarrow> (cfault + flags) option" where
  "clear_both cs one twos fl =
     map_option Inr (Option.bind (clear_commit_marks cs one all_flags fl) (clear_commit_marks_many cs twos all_flags))"

text \<open>The greatest generation of the references; \<open>None\<close> if one cannot be parsed.\<close>

fun max_generation :: "(commit_id \<Rightarrow> commit) \<Rightarrow> (commit_id \<Rightarrow> bool) \<Rightarrow> commit_id list \<Rightarrow> u64 \<Rightarrow> u64 option" where
  "max_generation cs parse_ok [] m = Some m"
| "max_generation cs parse_ok (r # reference) m =
     (if \<not> parse_ok r then None
      else max_generation cs parse_ok reference (if c_generation (cs r) > m then c_generation (cs r) else m))"

definition repo_in_merge_bases_many ::
  "(commit_id \<Rightarrow> commit) \<Rightarrow> (commit_id \<Rightarrow> bool) \<Rightarrow> bool \<Rightarrow> commit_id \<Rightarrow> commit_id list \<Rightarrow> bool \<Rightarrow> flags \<Rightarrow> (cfault + int \<times> flags) option" where
  "repo_in_merge_bases_many cs parse_ok corrected commit reference ignore_missing_commits fl =
     (if \<not> parse_ok commit then Some (Inr (if ignore_missing_commits then 0 else - 1, fl))
      else case max_generation cs parse_ok reference 0 of
        None \<Rightarrow> Some (Inr (if ignore_missing_commits then 0 else - 1, fl))
      | Some max_gen \<Rightarrow>
          if c_generation (cs commit) > max_gen then Some (Inr (0, fl))
          else
            walk_bind (paint_down_to_common cs parse_ok corrected commit reference (c_generation (cs commit)) ignore_missing_commits fl)
              (\<lambda>(status, bases, fl).
                 let ret = (if status \<noteq> 0 then - 1 else if fl commit AND PARENT2 \<noteq> 0 then 1 else 0) in
                 walk_bind (clear_both cs commit reference fl) (\<lambda>fl. Some (Inr (ret, fl)))))"

lemma max_generation_ok:
  assumes "\<forall>r \<in> set reference. parse_ok r"
  shows "\<exists>k. max_generation cs parse_ok reference m = Some k \<and> m \<le> k \<and> (\<forall>r \<in> set reference. c_generation (cs r) \<le> k) \<and>
    (k = m \<or> k \<in> (c_generation \<circ> cs) ` set reference)"
  using assms
proof (induction reference arbitrary: m)
  case (Cons r reference)
  let ?m = "if c_generation (cs r) > m then c_generation (cs r) else m"
  obtain k where k: "max_generation cs parse_ok reference ?m = Some k" "?m \<le> k" "\<forall>r \<in> set reference. c_generation (cs r) \<le> k"
    "k = ?m \<or> k \<in> (c_generation \<circ> cs) ` set reference" using Cons.IH [of ?m] Cons.prems by auto
  then have "m \<le> k" "c_generation (cs r) \<le> k" by (auto split: if_splits)
  with k Cons.prems show ?case by (auto split: if_splits)
qed simp

lemma clear_both_ok:
  assumes "marked all_flags fl0 = {}" "finite (marked all_flags fl)" "unmark all_flags (marked all_flags fl) fl = fl0"
    and "reach_in cs (marked all_flags fl) (insert one (set twos)) = marked all_flags fl"
  shows "clear_both cs one twos fl = Some (Inr fl0)"
proof -
  let ?M = "marked all_flags fl"
  have "?M = reach_in cs ?M {one} \<union> reach_in cs (?M - reach_in cs ?M {one}) (set twos)"
    using assms(4) reach_in_Un [of cs ?M "{one}" "set twos"] by simp
  with assms(2,3) show ?thesis
    by (simp add: clear_both_def clear_commit_marks_ok clear_commit_marks_many_ok marked_unmark unmark_unmark)
qed

lemma clear_both_paint:
  assumes "paint_inv cs one twos fl0 W fl result" "marked all_flags fl0 = {}" "finite (anc cs (insert one (set twos)))"
  shows "clear_both cs one twos fl = Some (Inr fl0)"
proof (rule clear_both_ok [OF assms(2) _ paint_unmark [OF assms(1,2)]])
  have "marked all_flags fl \<subseteq> anc cs (insert one (set twos))" using assms(1) paint_marked unfolding paint_inv_def by blast
  then show "finite (marked all_flags fl)" using assms(3) finite_subset by blast
qed

text \<open>
  C16: The ancestor test.  With readable, acyclic history and generation numbers that never increase towards
  the parents, \<open>repo_in_merge_bases_many\<close> answers whether the commit is reachable from one of the
  references, never reaches its \<open>BUG\<close>, and leaves all flags as they were, although the walk stops
  at commits of a lower generation and when only stale commits are left.
\<close>

theorem repo_in_merge_bases_many_correct:
  assumes "marked all_flags fl = {}" "history_ok cs parse_ok (insert commit (set reference))" "reference \<noteq> []" "length reference < 2 ^ 60"
    and "generations_ok cs (anc cs (insert commit (set reference)))"
  shows "repo_in_merge_bases_many cs parse_ok corrected commit reference ignore_missing fl =
    Some (Inr (of_bool (commit \<in> anc cs (set reference)), fl))"
proof -
  let ?A = "anc cs (insert commit (set reference))"
  have roots: "insert commit (set reference) \<subseteq> ?A" by (rule anc_self)
  then have ok: "parse_ok commit" "\<forall>r \<in> set reference. parse_ok r" "commit \<notin> panc cs {commit}" "finite ?A"
    using assms(2) by (auto simp: history_ok_def)
  obtain k where k: "max_generation cs parse_ok reference 0 = Some k" "\<forall>r \<in> set reference. c_generation (cs r) \<le> k"
    using max_generation_ok [OF ok(2), of cs 0] by blast
  show ?thesis
  proof (cases "c_generation (cs commit) > k")
    case True
    have "commit \<notin> anc cs (set reference)"
    proof
      assume "commit \<in> anc cs (set reference)"
      moreover have "c_generation (cs x) \<le> k" if "x \<in> anc cs (set reference)" for x
        using that
      proof (induction rule: anc_induct)
        case (parent c p)
        then have "c \<in> ?A" using anc_mono [of "set reference" "insert commit (set reference)" cs] by blast
        then have "c_generation (cs p) \<le> c_generation (cs c)" using assms(5) parent.hyps by (auto simp: generations_ok_def)
        then show ?case using parent.IH by (rule order_trans)
      qed (use k(2) in blast)
      ultimately show False using True by (meson leD)
    qed
    with True k(1) ok(1) show ?thesis by (simp add: repo_in_merge_bases_many_def)
  next
    case False
    obtain result fl' W where paint: "paint_down_to_common cs parse_ok corrected commit reference (c_generation (cs commit)) ignore_missing fl = Some (Inr (0, result, fl'))"
      "paint_inv cs commit reference fl W fl' result" "\<forall>x \<in> W. bit (fl' x) 18 \<or> c_generation (cs x) < c_generation (cs commit)"
      using paint_down_ok [OF assms(1,2,4,3), of "c_generation (cs commit)" corrected ignore_missing] assms(5) by blast
    have "bit (fl' commit) 17 \<longleftrightarrow> commit \<in> anc cs (set reference)"
      by (rule paint_one [OF paint(2,3) assms(5) order.refl ok(3)])
    moreover have "clear_both cs commit reference fl' = Some (Inr fl)" by (rule clear_both_paint [OF paint(2) assms(1) ok(4)])
    ultimately show ?thesis using False k(1) ok(1) paint(1) by (simp add: repo_in_merge_bases_many_def flag_clear)
  qed
qed

text \<open>A small history: 5 merges 3 and 4, whose parent is 2.\<close>

definition diamond :: "commit_id \<Rightarrow> commit" where
  "diamond c = \<lparr>c_date = of_nat c, c_author_date = 0, c_generation = (if c = 5 then 3 else if c = 2 then 1 else 2),
     c_parents = (if c = 5 then [3, 4] else if c = 3 \<or> c = 4 then [2] else [])\<rparr>"

lemma anc_step: "anc cs (insert c S) = insert c (anc cs (set (c_parents (cs c)) \<union> S))"
  using anc_Un [of cs "{c}" S] anc_Un [of cs "set (c_parents (cs c))" S] anc_cases [of _ cs "{c}"] anc_self [of "{c}" cs]
    panc_subset_anc [of cs "{c}"] by (auto simp: panc_def)

lemma anc_empty [simp]: "anc cs {} = {}"
  by (simp add: anc_def reach_in_empty)

lemma diamond_parents: "c_parents (diamond 2) = []" "c_parents (diamond 3) = [2]" "c_parents (diamond 4) = [2]" "c_parents (diamond 5) = [3, 4]"
  by (simp_all add: diamond_def)

lemma diamond_anc: "anc diamond {2} = {2}" "anc diamond {3} = {2, 3}" "anc diamond {4} = {2, 4}" "anc diamond {3, 4} = {2, 3, 4}"
  "anc diamond {5} = {2, 3, 4, 5}"
proof -
  show 2: "anc diamond {2} = {2}" unfolding anc_step [of diamond 2 "{}"] diamond_parents by simp
  show 3: "anc diamond {3} = {2, 3}" unfolding anc_step [of diamond 3 "{}"] diamond_parents using 2 by (simp add: insert_commute)
  show 4: "anc diamond {4} = {2, 4}" unfolding anc_step [of diamond 4 "{}"] diamond_parents using 2 by (simp add: insert_commute)
  show 34: "anc diamond {3, 4} = {2, 3, 4}" using anc_Un [of diamond "{3}" "{4}"] 3 4 by (simp add: insert_commute)
  show "anc diamond {5} = {2, 3, 4, 5}" unfolding anc_step [of diamond 5 "{}"] diamond_parents using 34 by (simp add: insert_commute)
qed

lemma diamond_ok: "S \<subseteq> {2, 3, 4, 5} \<Longrightarrow> history_ok diamond (\<lambda>_. True) S" "S \<subseteq> {2, 3, 4, 5} \<Longrightarrow> generations_ok diamond (anc diamond S)"
proof -
  have "panc diamond {2} = {}" "panc diamond {3} = {2}" "panc diamond {4} = {2}" "panc diamond {5} = {2, 3, 4}"
    unfolding panc_def using diamond_anc by (simp_all add: diamond_parents)
  then have "history_ok diamond (\<lambda>_. True) {5}" unfolding history_ok_def diamond_anc by simp
  then show "history_ok diamond (\<lambda>_. True) S" if "S \<subseteq> {2, 3, 4, 5}"
    using history_ok_mono [of diamond _ "{5}" S] that by (simp add: diamond_anc(5))
  have "anc diamond S \<subseteq> {2, 3, 4, 5}" if "S \<subseteq> {2, 3, 4, 5}" using that anc_least [of S diamond "{5}"] by (simp add: diamond_anc(5))
  moreover have "generations_ok diamond {2, 3, 4, 5}"
    unfolding generations_ok_def by (simp add: diamond_parents) (simp add: diamond_def GENERATION_NUMBER_INFINITY_def)
  ultimately show "generations_ok diamond (anc diamond S)" if "S \<subseteq> {2, 3, 4, 5}"
    using that unfolding generations_ok_def by blast
qed

lemma diamond_clean: "marked all_flags (\<lambda>_. 0) = {}"
  by (simp add: marked_def)

theorem repo_in_merge_bases_many_correct_witness:
  "repo_in_merge_bases_many diamond (\<lambda>_. True) False 2 [5] False (\<lambda>_. 0) = Some (Inr (1, \<lambda>_. 0)) \<and>
   repo_in_merge_bases_many diamond (\<lambda>_. True) False 3 [4] False (\<lambda>_. 0) = Some (Inr (0, \<lambda>_. 0))"
proof -
  have "repo_in_merge_bases_many diamond (\<lambda>_. True) False 2 [5] False (\<lambda>_. 0) = Some (Inr (of_bool (2 \<in> anc diamond (set [5])), \<lambda>_. 0))"
    by (rule repo_in_merge_bases_many_correct) (simp_all add: diamond_clean diamond_ok)
  moreover have "repo_in_merge_bases_many diamond (\<lambda>_. True) False 3 [4] False (\<lambda>_. 0) = Some (Inr (of_bool (3 \<in> anc diamond (set [4])), \<lambda>_. 0))"
    by (rule repo_in_merge_bases_many_correct) (simp_all add: diamond_clean diamond_ok)
  ultimately show ?thesis by (simp add: diamond_anc)
qed

section \<open>Removing ancestors\<close>

definition work_indices :: "nat \<Rightarrow> nat \<Rightarrow> bool list \<Rightarrow> nat list" where
  "work_indices cnt i redundant = filter (\<lambda>j. \<not> (i = j \<or> redundant ! j)) [0..<cnt]"

definition work_generation :: "(commit_id \<Rightarrow> commit) \<Rightarrow> commit_id list \<Rightarrow> nat \<Rightarrow> nat list \<Rightarrow> u64" where
  "work_generation cs array i filled_index =
     fold (\<lambda>j min_generation. if c_generation (cs (array ! j)) < min_generation then c_generation (cs (array ! j)) else min_generation)
       filled_index (c_generation (cs (array ! i)))"

text \<open>One round per element of the array; \<open>None\<close> as a result is the error return.\<close>

fun redundant_loop ::
  "(commit_id \<Rightarrow> commit) \<Rightarrow> (commit_id \<Rightarrow> bool) \<Rightarrow> bool \<Rightarrow> commit_id list \<Rightarrow> nat list \<Rightarrow> bool list \<Rightarrow> flags \<Rightarrow>
   (cfault + bool list option \<times> flags) option" where
  "redundant_loop cs parse_ok corrected array [] redundant fl = Some (Inr (Some redundant, fl))"
| "redundant_loop cs parse_ok corrected array (i # is) redundant fl =
     (if redundant ! i then redundant_loop cs parse_ok corrected array is redundant fl
      else
        let filled_index = work_indices (length array) i redundant;
            work = map ((!) array) filled_index in
        walk_bind (paint_down_to_common cs parse_ok corrected (array ! i) work (work_generation cs array i filled_index) False fl)
          (\<lambda>(status, common, fl).
             if status \<noteq> 0 then walk_bind (clear_both cs (array ! i) work fl) (\<lambda>fl. Some (Inr (None, fl)))
             else
               let redundant = (if fl (array ! i) AND PARENT2 \<noteq> 0 then redundant[i := True] else redundant);
                   redundant = fold (\<lambda>j redundant. if fl (array ! j) AND PARENT1 \<noteq> 0 then redundant[j := True] else redundant)
                     filled_index redundant in
               walk_bind (clear_both cs (array ! i) work fl) (redundant_loop cs parse_ok corrected array is redundant)))"

definition remove_redundant_no_gen ::
  "(commit_id \<Rightarrow> commit) \<Rightarrow> (commit_id \<Rightarrow> bool) \<Rightarrow> bool \<Rightarrow> commit_id list \<Rightarrow> flags \<Rightarrow> (cfault + commit_id list option \<times> flags) option" where
  "remove_redundant_no_gen cs parse_ok corrected array fl =
     walk_bind (redundant_loop cs parse_ok corrected array [0..<length array] (replicate (length array) False) fl)
       (\<lambda>(res, fl).
          Some (Inr (map_option (\<lambda>redundant. map ((!) array) (filter (\<lambda>i. \<not> redundant ! i) [0..<length array])) res, fl)))"

lemma panc_UN: "panc cs T = (\<Union>k \<in> T. panc cs {k})"
proof
  show "panc cs T \<subseteq> (\<Union>k \<in> T. panc cs {k})"
  proof
    show "z \<in> (\<Union>k \<in> T. panc cs {k})" if "z \<in> panc cs T" for z
      using that unfolding panc_def [of cs T]
    proof (induction rule: anc_induct)
      case (start s)
      then show ?case unfolding panc_def using anc_self by fastforce
    next
      case (parent c p)
      then show ?case using panc_parent by blast
    qed
  qed
qed (use panc_mono [of _ cs T] anc_self [of T cs] in blast)

text \<open>Above every commit of a finite set with one above it there is a topmost one.\<close>

lemma topmost_exists:
  assumes hist: "history_ok cs parse_ok S" and "finite T" "T \<subseteq> anc cs S" "x \<in> panc cs T"
  shows "\<exists>m \<in> T. x \<in> panc cs {m} \<and> m \<notin> panc cs T"
proof -
  let ?K = "{m \<in> T. x \<in> panc cs {m}}"
  define N where "N = (\<lambda>k. card (anc cs {k})) ` ?K"
  have "finite N" "N \<noteq> {}" using assms(2,4) panc_UN [of cs T] by (auto simp: N_def)
  then have "Max N \<in> N" "\<forall>n \<in> N. n \<le> Max N" by simp_all
  then obtain m where m: "m \<in> ?K" "\<forall>k \<in> ?K. card (anc cs {k}) \<le> card (anc cs {m})" by (auto simp: N_def)
  have "m \<notin> panc cs T"
  proof
    assume "m \<in> panc cs T"
    then obtain k where k: "k \<in> T" "m \<in> panc cs {k}" using panc_UN [of cs T] by blast
    have kA: "k \<in> anc cs S" using k(1) assms(3) by blast
    then have fin: "finite (anc cs {k})" "k \<notin> panc cs {k}" using hist anc_least [of "{k}" cs S] by (auto simp: history_ok_def intro: finite_subset)
    have "x \<in> panc cs {k}" using m(1) k(2) panc_subset_anc panc_anc by blast
    then have "card (anc cs {k}) \<le> card (anc cs {m})" using m(2) k(1) by blast
    moreover have "anc cs {m} \<subseteq> anc cs {k}" using k(2) panc_subset_anc [of cs "{k}"] anc_least [of "{m}" cs "{k}"] by blast
    ultimately have "anc cs {m} = anc cs {k}" using fin(1) by (simp add: card_seteq)
    then have "k \<in> anc cs {m}" using anc_self [of "{k}" cs] by blast
    then have "k \<in> panc cs {k}" using k(2) panc_trans by blast
    with fin(2) show False by blast
  qed
  with m(1) show ?thesis by blast
qed

lemma paint_summary:
  assumes clean: "marked all_flags fl0 = {}" and hist: "history_ok cs parse_ok (insert one (set twos))" and "length twos < 2 ^ 60"
    and gen: "generations_ok cs (anc cs (insert one (set twos)))" "min_gen \<le> c_generation (cs one)"
  shows "\<exists>result fl. paint_down_to_common cs parse_ok corrected one twos min_gen ignore_missing fl0 = Some (Inr (0, result, fl)) \<and>
    (bit (fl one) 17 \<longleftrightarrow> one \<in> anc cs (set twos)) \<and> (\<forall>c. bit (fl c) 16 \<longrightarrow> c \<in> anc cs {one}) \<and> clear_both cs one twos fl = Some (Inr fl0)"
proof (cases "twos = []")
  case True
  let ?fl = "mark_set PARENT1 {one} fl0"
  have off: "\<not> bit (fl0 c) 16" "\<not> bit (fl0 c) 17" "\<not> bit (fl0 c) 18" "\<not> bit (fl0 c) 19" for c
    using clean marked_all_flags [of c fl0] by auto
  have "fl0(one := fl0 one OR PARENT1) = ?fl" by (auto simp: mark_set_def)
  then have run: "paint_down_to_common cs parse_ok corrected one twos min_gen ignore_missing fl0 = Some (Inr (0, [one], ?fl))"
    using True by (simp add: paint_down_to_common_def)
  have m: "marked all_flags ?fl = {one}" by (auto simp: marked_all_flags bit_mark_set off)
  have "unmark all_flags {one} ?fl = fl0"
  proof (intro ext)
    fix c
    have "bit (unmark all_flags {one} ?fl c) n = bit (fl0 c) n" for n
      using off [of c] bit_imp_le_length [of "fl0 c" n] by (auto simp: unmark_def bit_simps bit_mark_set all_flags_def)
    then show "unmark all_flags {one} ?fl c = fl0 c" by (simp add: u32_eq_iff)
  qed
  moreover have "reach_in cs {one} (insert one (set twos)) = {one}" using reach_in_subset [of cs "{one}"] by (auto intro: reach_in.start)
  ultimately have "clear_both cs one twos ?fl = Some (Inr fl0)" by (intro clear_both_ok [OF clean]) (simp_all add: m)
  with run True show ?thesis using anc_self [of "{one}" cs] by (auto simp: bit_mark_set off)
next
  case False
  obtain result fl W where paint: "paint_down_to_common cs parse_ok corrected one twos min_gen ignore_missing fl0 = Some (Inr (0, result, fl))"
    "paint_inv cs one twos fl0 W fl result" "\<forall>x \<in> W. bit (fl x) 18 \<or> c_generation (cs x) < min_gen"
    using paint_down_ok [OF clean hist assms(3) False, of min_gen corrected ignore_missing] gen(1) by blast
  have one: "one \<notin> panc cs {one}" "finite (anc cs (insert one (set twos)))"
    using hist anc_self [of "insert one (set twos)" cs] by (auto simp: history_ok_def)
  have "bit (fl one) 17 \<longleftrightarrow> one \<in> anc cs (set twos)" by (rule paint_one [OF paint(2,3) gen(1,2) one(1)])
  moreover have "\<forall>c. bit (fl c) 16 \<longrightarrow> c \<in> anc cs {one}" using paint(2) by (auto simp: paint_inv_def dest: paint_soundD(1))
  moreover have "clear_both cs one twos fl = Some (Inr fl0)" by (rule clear_both_paint [OF paint(2) clean one(2)])
  ultimately show ?thesis using paint(1) by blast
qed

lemma work_generation_le: "work_generation cs array i idx \<le> c_generation (cs (array ! i))"
proof -
  have "fold (\<lambda>j m. if c_generation (cs (array ! j)) < m then c_generation (cs (array ! j)) else m) idx k \<le> k" for k
  proof (induction idx arbitrary: k)
    case (Cons j idx)
    let ?k = "if c_generation (cs (array ! j)) < k then c_generation (cs (array ! j)) else k"
    have "?k \<le> k" by auto
    with Cons [of ?k] show ?case by (simp only: fold_Cons comp_apply order_trans)
  qed simp
  then show ?thesis by (simp add: work_generation_def)
qed

definition redundant_ok :: "(commit_id \<Rightarrow> commit) \<Rightarrow> commit_id list \<Rightarrow> nat set \<Rightarrow> bool list \<Rightarrow> bool" where
  "redundant_ok cs array D red \<longleftrightarrow> length red = length array \<and> D \<subseteq> {..<length array} \<and>
     (\<forall>j < length array. red ! j \<longrightarrow> array ! j \<in> panc cs (set array)) \<and>
     (\<forall>j \<in> D. array ! j \<in> panc cs (set array) \<longrightarrow> red ! j)"

lemma redundant_fold:
  assumes "length red = n" "\<forall>j \<in> set idx. j < n"
  shows "length (fold (\<lambda>j red. if P j then red[j := True] else red) idx red) = n \<and>
    (\<forall>j < n. fold (\<lambda>j red. if P j then red[j := True] else red) idx red ! j \<longleftrightarrow> red ! j \<or> j \<in> set idx \<and> P j)"
  using assms by (induction idx arbitrary: red) (auto simp: nth_list_update)

lemma redundant_round:
  assumes arr: "distinct array" "length array < 2 ^ 60" "history_ok cs parse_ok (set array)" "generations_ok cs (anc cs (set array))"
    and red: "redundant_ok cs array D red" and i: "i < length array" "\<not> red ! i" and clean: "marked all_flags fl0 = {}"
  defines "idx \<equiv> work_indices (length array) i red"
  shows "\<exists>common fl red'. paint_down_to_common cs parse_ok corrected (array ! i) (map ((!) array) idx) (work_generation cs array i idx) False fl0 =
      Some (Inr (0, common, fl)) \<and> clear_both cs (array ! i) (map ((!) array) idx) fl = Some (Inr fl0) \<and>
    fold (\<lambda>j redundant. if fl (array ! j) AND PARENT1 \<noteq> 0 then redundant[j := True] else redundant) idx
      (if fl (array ! i) AND PARENT2 \<noteq> 0 then red[i := True] else red) = red' \<and> redundant_ok cs array (insert i D) red'"
proof -
  define a where "a = array ! i"
  define work where "work = map ((!) array) idx"
  have idx: "set idx = {j. j < length array \<and> j \<noteq> i \<and> \<not> red ! j}" by (auto simp: idx_def work_indices_def)
  have "a \<noteq> array ! j" if "j \<in> set idx" for j using that nth_eq_iff_index_eq [OF arr(1) i(1), of j] unfolding idx a_def by auto
  then have work: "set work \<subseteq> set array" "a \<in> set array" "a \<notin> set work"
    using i(1) unfolding work_def set_map idx a_def by auto
  have "length work \<le> length array" unfolding work_def idx_def work_indices_def length_map by (metis length_filter_le length_upt minus_nat.diff_0)
  then have len: "length work < 2 ^ 60" using arr(2) by simp
  have sub: "insert a (set work) \<subseteq> anc cs (set array)" using work anc_self [of "set array" cs] by blast
  have hist: "history_ok cs parse_ok (insert a (set work))" by (rule history_ok_mono [OF arr(3) sub])
  have gen: "generations_ok cs (anc cs (insert a (set work)))"
    using arr(4) anc_least [OF sub] unfolding generations_ok_def by blast
  obtain common fl where paint: "paint_down_to_common cs parse_ok corrected a work (work_generation cs array i idx) False fl0 = Some (Inr (0, common, fl))"
    "bit (fl a) 17 \<longleftrightarrow> a \<in> anc cs (set work)" "\<forall>c. bit (fl c) 16 \<longrightarrow> c \<in> anc cs {a}" "clear_both cs a work fl = Some (Inr fl0)"
    using paint_summary [OF clean hist len gen work_generation_le [of cs array i idx, folded a_def], of corrected False] by blast
  define red1 where "red1 = (if fl a AND PARENT2 \<noteq> 0 then red[i := True] else red)"
  define red' where "red' = fold (\<lambda>j redundant. if fl (array ! j) AND PARENT1 \<noteq> 0 then redundant[j := True] else redundant) idx red1"
  have lenred: "length red1 = length array" using red by (simp add: red1_def redundant_ok_def)
  have r1: "red1 ! j \<longleftrightarrow> red ! j \<or> j = i \<and> a \<in> anc cs (set work)" if "j < length array" for j
    using that red i(1) paint(2) by (auto simp: red1_def flag_clear redundant_ok_def nth_list_update)
  have r': "length red' = length array" "red' ! j \<longleftrightarrow> red1 ! j \<or> j \<in> set idx \<and> bit (fl (array ! j)) 16" if "j < length array" for j
    using redundant_fold [OF lenred, of idx "\<lambda>j. fl (array ! j) AND PARENT1 \<noteq> 0"] idx that by (auto simp: red'_def flag_clear)
  have "redundant_ok cs array (insert i D) red'"
    unfolding redundant_ok_def
  proof (intro conjI allI impI ballI)
    show "length red' = length array" using r'(1) i(1) by blast
    show "insert i D \<subseteq> {..<length array}" using red i(1) by (auto simp: redundant_ok_def)
    fix j assume j: "j < length array" "red' ! j"
    then consider "red ! j" | "j = i" "a \<in> anc cs (set work)" | "j \<in> set idx" "bit (fl (array ! j)) 16" using r1 r'(2) by blast
    then show "array ! j \<in> panc cs (set array)"
    proof cases
      case 1
      then show ?thesis using red j(1) by (simp add: redundant_ok_def)
    next
      case 2
      then have "a \<in> panc cs (set work)" using anc_cases work(3) by blast
      then show ?thesis using 2(1) panc_mono [of "set work" cs "set array"] work(1) anc_self [of "set array" cs] by (auto simp: a_def)
    next
      case 3
      then have "array ! j \<in> anc cs {a}" "array ! j \<in> set work" using paint(3) by (auto simp: work_def)
      then have "array ! j \<in> panc cs {a}" using anc_cases [of "array ! j" cs "{a}"] work(3) by auto
      then show ?thesis using work(2) panc_UN [of cs "set array"] by blast
    qed
  next
    fix j assume j: "j \<in> insert i D" "array ! j \<in> panc cs (set array)"
    show "red' ! j"
    proof (cases "j = i")
      case True
      then have "a \<in> panc cs (set array)" using j(2) by (simp add: a_def)
      then obtain m where m: "m \<in> set array" "a \<in> panc cs {m}" "m \<notin> panc cs (set array)"
        using topmost_exists [OF arr(3) List.finite_set anc_self] by blast
      obtain k where k: "k < length array" "array ! k = m" using m(1) by (auto simp: in_set_conv_nth)
      have "\<not> red ! k" "k \<noteq> i" using red k m j(2) True by (auto simp: redundant_ok_def)
      then have "m \<in> set work" using k idx by (auto simp: work_def)
      then have "a \<in> anc cs (set work)" using m(2) panc_mono [of "{m}" cs "set work"] panc_subset_anc [of cs "set work"] anc_self [of "set work" cs] by blast
      then show ?thesis using True r1 [OF i(1)] r'(2) [OF i(1)] by simp
    next
      case False
      then have "red ! j" "j < length array" using red j by (auto simp: redundant_ok_def)
      then show ?thesis using r1 r'(2) by blast
    qed
  qed
  with paint(1,4) show ?thesis
    unfolding a_def [symmetric] work_def [symmetric] by (intro exI [of _ common] exI [of _ fl] exI [of _ red'] conjI) (simp_all only: red'_def red1_def)
qed

lemma redundant_loop_ok:
  assumes arr: "distinct array" "length array < 2 ^ 60" "history_ok cs parse_ok (set array)" "generations_ok cs (anc cs (set array))"
    and clean: "marked all_flags fl0 = {}" and "redundant_ok cs array D red" "\<forall>i \<in> set is. i < length array"
  shows "\<exists>red'. redundant_loop cs parse_ok corrected array is red fl0 = Some (Inr (Some red', fl0)) \<and> redundant_ok cs array (D \<union> set is) red'"
  using assms(6,7)
proof (induction "is" arbitrary: D red)
  case Nil
  then show ?case by simp
next
  case (Cons i "is")
  have i: "i < length array" using Cons.prems(2) by simp
  show ?case
  proof (cases "red ! i")
    case True
    then have "redundant_ok cs array (insert i D) red" using Cons.prems by (auto simp: redundant_ok_def)
    then show ?thesis using Cons.IH [of "insert i D" red] Cons.prems(2) True by simp
  next
    case False
    from redundant_round [OF arr Cons.prems(1) i False clean, of corrected] obtain common fl red' where r:
      "paint_down_to_common cs parse_ok corrected (array ! i) (map ((!) array) (work_indices (length array) i red))
        (work_generation cs array i (work_indices (length array) i red)) False fl0 = Some (Inr (0, common, fl))"
      "clear_both cs (array ! i) (map ((!) array) (work_indices (length array) i red)) fl = Some (Inr fl0)"
      "fold (\<lambda>j redundant. if fl (array ! j) AND PARENT1 \<noteq> 0 then redundant[j := True] else redundant) (work_indices (length array) i red)
        (if fl (array ! i) AND PARENT2 \<noteq> 0 then red[i := True] else red) = red'" "redundant_ok cs array (insert i D) red'" by blast
    have "redundant_loop cs parse_ok corrected array (i # is) red fl0 = redundant_loop cs parse_ok corrected array is red' fl0"
      using False unfolding redundant_loop.simps Let_def r(1) walk_bind_simps prod.case r(2,3) by simp
    then show ?thesis using Cons.IH [OF r(4)] Cons.prems(2) by simp
  qed
qed

text \<open>
  Of distinct commits with readable, acyclic history and generation numbers that never
  increase towards the parents, \<open>remove_redundant_no_gen\<close> keeps, in their order, exactly those that are
  not reachable from another one, and leaves all flags as they were; it succeeds although each
  round ignores what earlier rounds have found redundant, and stops early.
\<close>

lemma remove_redundant_no_gen_ok:
  assumes "distinct array" "length array < 2 ^ 60" "history_ok cs parse_ok (set array)" "generations_ok cs (anc cs (set array))"
    and "marked all_flags fl = {}"
  shows "remove_redundant_no_gen cs parse_ok corrected array fl = Some (Inr (Some (filter (\<lambda>c. c \<notin> panc cs (set array)) array), fl))"
proof -
  have "redundant_ok cs array {} (replicate (length array) False)" by (simp add: redundant_ok_def)
  from redundant_loop_ok [OF assms this, of "[0..<length array]" corrected] obtain red where red:
    "redundant_loop cs parse_ok corrected array [0..<length array] (replicate (length array) False) fl = Some (Inr (Some red, fl))"
    "redundant_ok cs array {0..<length array} red" by auto
  have "map ((!) array) (filter (\<lambda>i. \<not> red ! i) [0..<length array]) = map ((!) array) (filter (\<lambda>i. array ! i \<notin> panc cs (set array)) [0..<length array])"
    using red(2) by (intro arg_cong [of _ _ "map ((!) array)"] filter_cong) (auto simp: redundant_ok_def)
  also have "\<dots> = filter (\<lambda>c. c \<notin> panc cs (set array)) (map ((!) array) [0..<length array])" by (simp add: filter_map comp_def)
  finally show ?thesis using red(1) by (simp add: remove_redundant_no_gen_def map_nth)
qed

end
