(* ===== verification/Redundant_Gen.thy ===== *)
theory Redundant_Gen
  imports Redundant_Commits
begin

text \<open>
  \<open>remove_redundant_with_gen\<close> of \<open>commit-reach.c\<close>: commits that are ancestors of others are found by one
  depth-first walk from the parents of all of them, cut off below the lowest generation of a commit
  not yet known to be redundant.  \<open>qsort\<close> is the sorting function of the C library; all that is
  assumed of it is that it sorts by the comparison it is given.
\<close>

definition compare_commits_by_gen :: "(commit_id \<Rightarrow> commit) \<Rightarrow> commit_id \<Rightarrow> commit_id \<Rightarrow> int" where
  "compare_commits_by_gen cs a b =
     (let generation_a = c_generation (cs a); generation_b = c_generation (cs b) in
      if generation_a < generation_b then - 1
      else if generation_a > generation_b then 1
      else if c_date (cs a) < c_date (cs b) then - 1
      else if c_date (cs a) > c_date (cs b) then 1
      else 0)"

section \<open>The walk\<close>

text \<open>The parents of the commits, each once, on which \<open>STALE\<close> is set to find duplicates.\<close>

fun start_parents :: "commit_id list \<Rightarrow> flags \<times> commit_id list \<Rightarrow> flags \<times> commit_id list" where
  "start_parents [] (fl, walk_start) = (fl, walk_start)"
| "start_parents (p # parents) (fl, walk_start) =
     start_parents parents
       (if fl p AND STALE = 0 then (fl(p := fl p OR STALE), walk_start @ [p]) else (fl, walk_start))"

fun start_all :: "(commit_id \<Rightarrow> commit) \<Rightarrow> commit_id list \<Rightarrow> flags \<times> commit_id list \<Rightarrow> flags \<times> commit_id list" where
  "start_all cs [] st = st"
| "start_all cs (c # array) (fl, walk_start) =
     start_all cs array (start_parents (c_parents (cs c)) (fl(c := fl c OR RESULT), walk_start))"

record gen_walk =
  gw_flags :: flags
  gw_count :: nat
  gw_pos :: nat
  gw_min :: u64

function skip_stale :: "commit_id list \<Rightarrow> flags \<Rightarrow> nat \<Rightarrow> nat" where
  "skip_stale srt fl pos =
     (if pos < length srt - 1 \<and> fl (srt ! pos) AND STALE \<noteq> 0 then skip_stale srt fl (pos + 1) else pos)"
  by pat_completeness auto
termination by (relation "measure (\<lambda>(srt, fl, pos). length srt - pos)") auto

declare skip_stale.simps [simp del]

text \<open>A commit of the array is found; the walk is left when at most one is not.\<close>

definition gen_found :: "(commit_id \<Rightarrow> commit) \<Rightarrow> commit_id list \<Rightarrow> commit_id \<Rightarrow> gen_walk \<Rightarrow> bool \<times> gen_walk" where
  "gen_found cs srt c st =
     (if gw_flags st c AND RESULT \<noteq> 0 then
        (let st = st\<lparr>gw_flags := (gw_flags st)(c := gw_flags st c AND NOT RESULT), gw_count := gw_count st - 1\<rparr> in
         if gw_count st \<le> 1 then (True, st)
         else if c = srt ! gw_pos st then
           (let pos = skip_stale srt (gw_flags st) (gw_pos st) in
            (False, st\<lparr>gw_pos := pos, gw_min := c_generation (cs (srt ! pos))\<rparr>))
         else (False, st))
      else (False, st))"

partial_function (option) gen_dfs :: "(commit_id \<Rightarrow> commit) \<Rightarrow> commit_id list \<Rightarrow> commit_id list \<Rightarrow> gen_walk \<Rightarrow> gen_walk option" where
  "gen_dfs cs srt stack st =
     (case stack of
        [] \<Rightarrow> Some st
      | c # rest \<Rightarrow>
          let (leave, st) = gen_found cs srt c st in
          if leave then Some st
          else if c_generation (cs c) < gw_min st then gen_dfs cs srt rest st
          else case find (\<lambda>p. gw_flags st p AND STALE = 0) (c_parents (cs c)) of
            Some p \<Rightarrow> gen_dfs cs srt (p # stack) (st\<lparr>gw_flags := (gw_flags st)(p := gw_flags st p OR STALE)\<rparr>)
          | None \<Rightarrow> gen_dfs cs srt rest st)"

text \<open>The walk starts from the commit of the highest generation, the last one.\<close>

fun gen_starts :: "(commit_id \<Rightarrow> commit) \<Rightarrow> commit_id list \<Rightarrow> commit_id list \<Rightarrow> gen_walk \<Rightarrow> gen_walk option" where
  "gen_starts cs srt [] st = Some st"
| "gen_starts cs srt (c # cs_rev) st =
     (if gw_count st > 1 then
        Option.bind (gen_dfs cs srt [c] (st\<lparr>gw_flags := (gw_flags st)(c := gw_flags st c OR STALE)\<rparr>)) (gen_starts cs srt cs_rev)
      else Some st)"

definition remove_redundant_with_gen ::
  "(commit_id \<Rightarrow> commit) \<Rightarrow> (commit_id list \<Rightarrow> commit_id list) \<Rightarrow> commit_id list \<Rightarrow> flags \<Rightarrow> (commit_id list \<times> flags) option" where
  "remove_redundant_with_gen cs qsort array fl =
     (let srt = qsort array;
          (fl, walk_start) = start_all cs array (fl, []);
          walk_start = qsort walk_start;
          fl = fold (\<lambda>c fl. fl(c := fl c AND NOT STALE)) walk_start fl;
          st = \<lparr>gw_flags = fl, gw_count = length array, gw_pos = 0, gw_min = c_generation (cs (srt ! 0))\<rparr> in
      Option.bind (gen_starts cs srt (rev walk_start) st) (\<lambda>st.
        let fl = fold (\<lambda>c fl. fl(c := fl c AND NOT RESULT)) array (gw_flags st);
            result = filter (\<lambda>c. fl c AND STALE = 0) array in
        Option.bind (clear_commit_marks_many cs walk_start STALE fl) (\<lambda>fl. Some (result, fl))))"

section \<open>The invariant\<close>

text \<open>
  \<open>S\<close> are the stale commits, \<open>R\<close> those of the array \<open>T\<close> not found yet, \<open>K\<close> those on the stack.
\<close>

definition stale_set :: "flags \<Rightarrow> commit_id set" where "stale_set fl = {c. bit (fl c) 18}"
definition result_set :: "flags \<Rightarrow> commit_id set" where "result_set fl = {c. bit (fl c) 19}"

definition gen_inv ::
  "(commit_id \<Rightarrow> commit) \<Rightarrow> commit_id list \<Rightarrow> commit_id list \<Rightarrow> commit_id set \<Rightarrow> flags \<Rightarrow> commit_id set \<Rightarrow> gen_walk \<Rightarrow> bool" where
  "gen_inv cs array srt starts fl0 K st \<longleftrightarrow>
     (let S = stale_set (gw_flags st); R = result_set (gw_flags st) in
      K \<subseteq> S \<and> S \<subseteq> panc cs (set array) \<and> S \<subseteq> reach_in cs S starts \<and>
      R \<subseteq> set array \<and> set array - R \<subseteq> S \<and> gw_count st = card R \<and>
      gw_pos st < length srt \<and> gw_min st = c_generation (cs (srt ! gw_pos st)) \<and> (\<forall>k < gw_pos st. srt ! k \<in> S) \<and>
      (\<forall>s \<in> S - K. s \<notin> R \<and> (set (c_parents (cs s)) \<subseteq> S \<or> c_generation (cs s) < gw_min st)) \<and>
      (\<forall>c n. n \<noteq> 18 \<and> n \<noteq> 19 \<longrightarrow> bit (gw_flags st c) n = bit (fl0 c) n))"

text \<open>When the walk is over, the stale commits of the array are those with another one above.\<close>

lemma gen_inv_final:
  assumes hist: "history_ok cs parse_ok (set array)" and gen: "generations_ok cs (anc cs (set array))"
    and srt: "mset srt = mset array" "sorted_wrt (\<lambda>a b. c_generation (cs a) \<le> c_generation (cs b)) srt"
    and inv: "gen_inv cs array srt starts fl0 K st" and over: "gw_count st \<le> 1 \<or> K = {} \<and> (\<Union>c \<in> set array. set (c_parents (cs c))) \<subseteq> stale_set (gw_flags st)"
    and x: "x \<in> set array"
  shows "x \<in> stale_set (gw_flags st) \<longleftrightarrow> x \<in> panc cs (set array)"
proof
  let ?S = "stale_set (gw_flags st)" and ?R = "result_set (gw_flags st)" and ?T = "set array"
  have S: "?S \<subseteq> panc cs ?T" and R: "?R \<subseteq> ?T" "?T - ?R \<subseteq> ?S" "gw_count st = card ?R"
    and pos: "gw_pos st < length srt" "gw_min st = c_generation (cs (srt ! gw_pos st))" "\<forall>k < gw_pos st. srt ! k \<in> ?S"
    and flow: "\<forall>s \<in> ?S - K. set (c_parents (cs s)) \<subseteq> ?S \<or> c_generation (cs s) < gw_min st"
    using inv by (auto simp: gen_inv_def Let_def)
  show "x \<in> panc cs ?T" if "x \<in> ?S" using that S by blast
  assume xp: "x \<in> panc cs ?T"
  show "x \<in> ?S"
  proof (rule ccontr)
    assume xS: "x \<notin> ?S"
    then have xR: "x \<in> ?R" using R(2) x by blast
    show False
    proof (cases "gw_count st \<le> 1")
      case True
      obtain m where m: "m \<in> ?T" "m \<notin> panc cs ?T" using topmost_exists [OF hist List.finite_set anc_self xp] by blast
      then have "m \<in> ?R" using R(2) S by blast
      moreover have "finite ?R" using R(1) finite_subset by blast
      ultimately have "x = m" using True R(3) xR card_le_Suc0_iff_eq [of ?R] by auto
      with m(2) xp show False by blast
    next
      case False
      then have K: "K = {}" "(\<Union>c \<in> ?T. set (c_parents (cs c))) \<subseteq> ?S" using over by auto
      obtain k where k: "k < length srt" "srt ! k = x" using x srt(1) by (metis in_set_conv_nth set_mset_mset)
      then have "gw_pos st \<le> k" using pos(3) xS by (metis not_less)
      then have min: "gw_min st \<le> c_generation (cs x)"
        using srt(2) k pos(2) by (cases "gw_pos st = k") (auto simp: sorted_wrt_iff_nth_less)
      have "y \<in> ?S" if "y \<in> panc cs ?T" "x \<in> anc cs {y}" for y
        using that unfolding panc_def
      proof (induction rule: anc_induct)
        case (start s)
        then show ?case using K(2) by blast
      next
        case (parent c p)
        have cT: "c \<in> anc cs ?T" using parent.hyps(1) panc_subset_anc [of cs ?T] unfolding panc_def by blast
        have "x \<in> anc cs {c}"
          using parent.prems parent.hyps(2) anc_parent [of c cs "{c}" p] anc_self [of "{c}" cs] anc_least [of "{p}" cs "{c}"] by blast
        then have "c \<in> ?S" "c_generation (cs x) \<le> c_generation (cs c)" using parent.IH generations_anc [OF gen cT] by blast+
        then show ?case using flow K(1) min parent.hyps(2) by (meson Diff_iff empty_iff leD le_less_trans subsetD)
      qed
      then show False using xp xS anc_self [of "{x}" cs] by blast
    qed
  qed
qed

section \<open>Steps of the walk\<close>

lemma skip_stale_ok:
  "pos < length srt \<Longrightarrow> pos \<le> skip_stale srt fl pos \<and> skip_stale srt fl pos < length srt \<and>
    (\<forall>k. pos \<le> k \<and> k < skip_stale srt fl pos \<longrightarrow> srt ! k \<in> stale_set fl)"
proof (induction srt fl pos rule: skip_stale.induct)
  case (1 srt fl pos)
  show ?case
  proof (cases "pos < length srt - 1 \<and> fl (srt ! pos) AND STALE \<noteq> 0")
    case True
    then have eq: "skip_stale srt fl pos = skip_stale srt fl (pos + 1)" by (simp add: skip_stale.simps [of srt fl pos])
    have "pos + 1 < length srt" using True by linarith
    note IH = 1(1) [OF True this]
    have "srt ! k \<in> stale_set fl" if "pos \<le> k" "k < skip_stale srt fl (pos + 1)" for k
      using IH that True by (cases "k = pos") (auto simp: stale_set_def flag_clear)
    with IH show ?thesis unfolding eq by auto
  next
    case False
    then have "skip_stale srt fl pos = pos" by (subst skip_stale.simps) (rule if_not_P)
    with 1(2) show ?thesis by auto
  qed
qed

lemma gen_invI:
  assumes "K \<subseteq> stale_set (gw_flags st)" "stale_set (gw_flags st) \<subseteq> panc cs (set array)" "stale_set (gw_flags st) \<subseteq> reach_in cs (stale_set (gw_flags st)) starts"
    and "result_set (gw_flags st) \<subseteq> set array" "set array - result_set (gw_flags st) \<subseteq> stale_set (gw_flags st)" "gw_count st = card (result_set (gw_flags st))"
    and "gw_pos st < length srt" "gw_min st = c_generation (cs (srt ! gw_pos st))" "\<forall>k < gw_pos st. srt ! k \<in> stale_set (gw_flags st)"
    and "\<forall>s \<in> stale_set (gw_flags st) - K. s \<notin> result_set (gw_flags st) \<and> (set (c_parents (cs s)) \<subseteq> stale_set (gw_flags st) \<or> c_generation (cs s) < gw_min st)"
    and "\<forall>c n. n \<noteq> 18 \<and> n \<noteq> 19 \<longrightarrow> bit (gw_flags st c) n = bit (fl0 c) n"
  shows "gen_inv cs array srt starts fl0 K st"
  unfolding gen_inv_def Let_def using assms by (intro conjI)

lemma gen_invD:
  assumes "gen_inv cs array srt starts fl0 K st"
  shows "K \<subseteq> stale_set (gw_flags st)" "stale_set (gw_flags st) \<subseteq> panc cs (set array)" "stale_set (gw_flags st) \<subseteq> reach_in cs (stale_set (gw_flags st)) starts"
    and "result_set (gw_flags st) \<subseteq> set array" "set array - result_set (gw_flags st) \<subseteq> stale_set (gw_flags st)" "gw_count st = card (result_set (gw_flags st))"
    and "gw_pos st < length srt" "gw_min st = c_generation (cs (srt ! gw_pos st))" "\<forall>k < gw_pos st. srt ! k \<in> stale_set (gw_flags st)"
    and "\<forall>s \<in> stale_set (gw_flags st) - K. s \<notin> result_set (gw_flags st) \<and> (set (c_parents (cs s)) \<subseteq> stale_set (gw_flags st) \<or> c_generation (cs s) < gw_min st)"
    and "\<forall>c n. n \<noteq> 18 \<and> n \<noteq> 19 \<longrightarrow> bit (gw_flags st c) n = bit (fl0 c) n"
  using assms unfolding gen_inv_def Let_def by blast+

lemma unset_result:
  "stale_set (fl(c := fl c AND NOT RESULT)) = stale_set fl" "result_set (fl(c := fl c AND NOT RESULT)) = result_set fl - {c}"
  "n \<noteq> 19 \<Longrightarrow> bit ((fl(c := fl c AND NOT RESULT)) x) n = bit (fl x) n"
  by (auto simp: stale_set_def result_set_def bit_simps dest: bit_imp_le_length)

lemma set_stale:
  "stale_set (fl(c := fl c OR STALE)) = insert c (stale_set fl)" "result_set (fl(c := fl c OR STALE)) = result_set fl"
  "n \<noteq> 18 \<Longrightarrow> bit ((fl(c := fl c OR STALE)) x) n = bit (fl x) n"
  by (auto simp: stale_set_def result_set_def bit_simps)

lemma gen_found_ok:
  assumes inv: "gen_inv cs array srt starts fl0 K st" and c: "c \<in> K" and "gen_found cs srt c st = (leave, st')"
    and srt: "sorted_wrt (\<lambda>a b. c_generation (cs a) \<le> c_generation (cs b)) srt"
  shows "gen_inv cs array srt starts fl0 K st'" "c \<notin> result_set (gw_flags st')" "stale_set (gw_flags st') = stale_set (gw_flags st)"
    "leave \<Longrightarrow> gw_count st' \<le> 1"
proof -
  note I = gen_invD [OF inv]
  define st1 where "st1 = st\<lparr>gw_flags := (gw_flags st)(c := gw_flags st c AND NOT RESULT), gw_count := gw_count st - 1\<rparr>"
  define pos where "pos = skip_stale srt (gw_flags st1) (gw_pos st1)"
  define st2 where "st2 = st1\<lparr>gw_pos := pos, gw_min := c_generation (cs (srt ! pos))\<rparr>"
  have f1: "stale_set (gw_flags st1) = stale_set (gw_flags st)" "result_set (gw_flags st1) = result_set (gw_flags st) - {c}"
    using unset_result(1,2) [of "gw_flags st" c] by (simp_all add: st1_def del: fun_upd_apply)
  have cases: "c \<notin> result_set (gw_flags st) \<and> st' = st \<and> \<not> leave \<or>
    c \<in> result_set (gw_flags st) \<and> (st' = st1 \<and> (leave \<longrightarrow> gw_count st1 \<le> 1) \<or> st' = st2 \<and> \<not> leave)"
    using assms(3) unfolding gen_found_def Let_def st1_def [symmetric] pos_def [symmetric] st2_def [symmetric] flag_clear
    by (auto simp: result_set_def split: if_splits)
  have fin: "finite (result_set (gw_flags st))" using I(4) finite_subset by blast
  have inv1: "gen_inv cs array srt starts fl0 K st1" if "c \<in> result_set (gw_flags st)"
  proof (rule gen_invI; (unfold f1)?)
    show "set array - (result_set (gw_flags st) - {c}) \<subseteq> stale_set (gw_flags st)" using I(1,5) c by blast
    show "gw_count st1 = card (result_set (gw_flags st) - {c})" using I(6) that fin by (simp add: st1_def)
    show "\<forall>x n. n \<noteq> 18 \<and> n \<noteq> 19 \<longrightarrow> bit (gw_flags st1 x) n = bit (fl0 x) n"
      using I(11) unset_result(3) [of _ "gw_flags st" c] by (simp add: st1_def del: fun_upd_apply)
  qed (use I in \<open>auto simp: st1_def\<close>)
  have inv2: "gen_inv cs array srt starts fl0 K st2" if "c \<in> result_set (gw_flags st)"
  proof -
    note J = gen_invD [OF inv1 [OF that]]
    have p: "gw_pos st1 \<le> pos" "pos < length srt" "\<forall>k. gw_pos st1 \<le> k \<and> k < pos \<longrightarrow> srt ! k \<in> stale_set (gw_flags st1)"
      using skip_stale_ok [OF J(7), of "gw_flags st1"] by (auto simp: pos_def)
    have "gw_min st1 \<le> c_generation (cs (srt ! pos))"
      using srt p(1,2) J(8) by (cases "gw_pos st1 = pos") (auto simp: sorted_wrt_iff_nth_less)
    then have up: "c_generation (cs s) < c_generation (cs (srt ! pos))" if "c_generation (cs s) < gw_min st1" for s
      using that by (rule less_le_trans [rotated])
    show ?thesis
    proof (rule gen_invI)
      show "\<forall>k < gw_pos st2. srt ! k \<in> stale_set (gw_flags st2)" using J(9) p(3) by (simp add: st2_def) (metis not_less)
      show "\<forall>s \<in> stale_set (gw_flags st2) - K. s \<notin> result_set (gw_flags st2) \<and>
          (set (c_parents (cs s)) \<subseteq> stale_set (gw_flags st2) \<or> c_generation (cs s) < gw_min st2)"
        using J(10) up by (auto simp: st2_def)
    qed (use J p(2) in \<open>simp_all add: st2_def\<close>)
  qed
  show "gen_inv cs array srt starts fl0 K st'" using cases inv inv1 inv2 by blast
  show "c \<notin> result_set (gw_flags st')" using cases f1 by (auto simp: st2_def)
  show "stale_set (gw_flags st') = stale_set (gw_flags st)" using cases f1 by (auto simp: st2_def)
  show "leave \<Longrightarrow> gw_count st' \<le> 1" using cases by blast
qed

lemma gen_inv_push:
  assumes inv: "gen_inv cs array srt starts fl0 K st"
    and p: "p \<in> panc cs (set array)" "p \<in> starts \<or> (\<exists>c \<in> stale_set (gw_flags st). p \<in> set (c_parents (cs c)))"
  shows "gen_inv cs array srt starts fl0 (insert p K) (st\<lparr>gw_flags := (gw_flags st)(p := gw_flags st p OR STALE)\<rparr>)"
proof -
  note I = gen_invD [OF inv]
  let ?S = "stale_set (gw_flags st)"
  have "?S \<subseteq> reach_in cs (insert p ?S) starts"
    using I(3) reach_in_mono [of ?S "insert p ?S" starts cs starts] by (blast intro: reach_in.start)
  moreover from this have "p \<in> reach_in cs (insert p ?S) starts" using p(2) by (blast intro: reach_in.start reach_in.parent)
  ultimately have reach: "insert p ?S \<subseteq> reach_in cs (insert p ?S) starts" by blast
  define st' where "st' = st\<lparr>gw_flags := (gw_flags st)(p := gw_flags st p OR STALE)\<rparr>"
  have f: "stale_set (gw_flags st') = insert p ?S" "result_set (gw_flags st') = result_set (gw_flags st)"
    and bits: "n \<noteq> 18 \<Longrightarrow> bit (gw_flags st' x) n = bit (gw_flags st x) n" for n x
    using set_stale(1,2) [of "gw_flags st" p] set_stale(3) [of n "gw_flags st" p x] by (simp_all add: st'_def del: fun_upd_apply)
  have rest: "gw_count st' = gw_count st" "gw_pos st' = gw_pos st" "gw_min st' = gw_min st" by (simp_all add: st'_def)
  have "gen_inv cs array srt starts fl0 (insert p K) st'"
    by (rule gen_invI; (unfold f rest)?) (use I p(1) reach bits in auto)
  then show ?thesis unfolding st'_def .
qed

lemma gen_inv_pop:
  assumes inv: "gen_inv cs array srt starts fl0 (insert c K) st" and "c \<notin> result_set (gw_flags st)"
    and "set (c_parents (cs c)) \<subseteq> stale_set (gw_flags st) \<or> c_generation (cs c) < gw_min st"
  shows "gen_inv cs array srt starts fl0 K st"
proof -
  note I = gen_invD [OF inv]
  show ?thesis by (rule gen_invI) (use I assms(2,3) in auto)
qed

section \<open>The walk ends\<close>

definition gen_over :: "(commit_id \<Rightarrow> commit) \<Rightarrow> commit_id list \<Rightarrow> commit_id list \<Rightarrow> commit_id set \<Rightarrow> flags \<Rightarrow> gen_walk \<Rightarrow> bool" where
  "gen_over cs array srt starts fl0 st \<longleftrightarrow>
     gen_inv cs array srt starts fl0 {} st \<or> gw_count st \<le> 1 \<and> (\<exists>K. gen_inv cs array srt starts fl0 K st)"

lemma gen_dfs_ok:
  assumes "finite (panc cs (set array))" and srt: "sorted_wrt (\<lambda>a b. c_generation (cs a) \<le> c_generation (cs b)) srt"
    and "gen_inv cs array srt starts fl0 (set stack) st"
  shows "\<exists>st'. gen_dfs cs srt stack st = Some st' \<and> gen_over cs array srt starts fl0 st' \<and>
    stale_set (gw_flags st) \<subseteq> stale_set (gw_flags st')"
  using assms(3)
proof (induction "2 * card (panc cs (set array) - stale_set (gw_flags st)) + length stack" arbitrary: stack st rule: less_induct)
  case less
  show ?case
  proof (cases stack)
    case Nil
    then show ?thesis using less.prems by (subst gen_dfs.simps) (auto simp: gen_over_def)
  next
    case (Cons c rest)
    obtain leave st1 where found: "gen_found cs srt c st = (leave, st1)" by fastforce
    note F = gen_found_ok [OF less.prems _ found srt, unfolded Cons, simplified]
    have inv: "gen_inv cs array srt starts fl0 (insert c (set rest)) st1" by (rule F(1))
    let ?S = "stale_set (gw_flags st1)" and ?P = "panc cs (set array)"
    have step: "gen_dfs cs srt stack st = (if leave then Some st1
        else if c_generation (cs c) < gw_min st1 then gen_dfs cs srt rest st1
        else case find (\<lambda>p. gw_flags st1 p AND STALE = 0) (c_parents (cs c)) of
            Some p \<Rightarrow> gen_dfs cs srt (p # stack) (st1\<lparr>gw_flags := (gw_flags st1)(p := gw_flags st1 p OR STALE)\<rparr>)
          | None \<Rightarrow> gen_dfs cs srt rest st1)"
      by (subst gen_dfs.simps) (simp add: Cons found)
    have pop: "\<exists>st'. gen_dfs cs srt rest st1 = Some st' \<and> gen_over cs array srt starts fl0 st' \<and> ?S \<subseteq> stale_set (gw_flags st')"
      if "set (c_parents (cs c)) \<subseteq> ?S \<or> c_generation (cs c) < gw_min st1"
      using gen_inv_pop [OF inv F(2) that] F(3) by (intro less.hyps) (simp_all add: Cons)
    have "\<exists>st'. gen_dfs cs srt stack st = Some st' \<and> gen_over cs array srt starts fl0 st' \<and> ?S \<subseteq> stale_set (gw_flags st')"
    proof (cases "leave \<or> c_generation (cs c) < gw_min st1")
      case True
      then show ?thesis using pop F(4) inv unfolding step gen_over_def by auto
    next
      case False
      show ?thesis
      proof (cases "find (\<lambda>p. gw_flags st1 p AND STALE = 0) (c_parents (cs c))")
        case None
        then have "set (c_parents (cs c)) \<subseteq> ?S" by (auto simp: find_None_iff stale_set_def flag_clear)
        with pop False None show ?thesis unfolding step by simp
      next
        case (Some p)
        define st2 where "st2 = st1\<lparr>gw_flags := (gw_flags st1)(p := gw_flags st1 p OR STALE)\<rparr>"
        from Some have p: "p \<in> set (c_parents (cs c))" "p \<notin> ?S" by (auto simp: find_Some_iff stale_set_def flag_clear)
        have c: "c \<in> ?S" "?S \<subseteq> ?P" using gen_invD(1,2) [OF inv] by auto
        then have pP: "p \<in> ?P" using panc_parent p(1) by blast
        have inv2: "gen_inv cs array srt starts fl0 (set (p # stack)) st2"
          using gen_inv_push [OF inv pP] c(1) p(1) unfolding st2_def Cons by auto
        have S2: "stale_set (gw_flags st2) = insert p ?S"
          using set_stale(1) [of "gw_flags st1" p] by (simp add: st2_def del: fun_upd_apply)
        have "card (?P - insert p ?S) < card (?P - ?S)"
          by (rule psubset_card_mono) (use assms(1) pP p(2) in auto)
        then have "\<exists>st'. gen_dfs cs srt (p # stack) st2 = Some st' \<and> gen_over cs array srt starts fl0 st' \<and>
            stale_set (gw_flags st2) \<subseteq> stale_set (gw_flags st')"
          using inv2 F(3) S2 by (intro less.hyps) simp_all
        moreover have "gen_dfs cs srt stack st = gen_dfs cs srt (p # stack) st2"
          using False unfolding step Some st2_def option.case by simp
        ultimately show ?thesis using S2 by (metis insert_subset)
      qed
    qed
    then show ?thesis unfolding F(3) .
  qed
qed

lemma gen_starts_ok:
  assumes "finite (panc cs (set array))" and srt: "sorted_wrt (\<lambda>a b. c_generation (cs a) \<le> c_generation (cs b)) srt"
    and "gen_over cs array srt starts fl0 st" "set ws \<subseteq> starts" "starts \<subseteq> panc cs (set array)"
  shows "\<exists>st'. gen_starts cs srt ws st = Some st' \<and> gen_over cs array srt starts fl0 st' \<and>
    stale_set (gw_flags st) \<subseteq> stale_set (gw_flags st') \<and> (gw_count st' \<le> 1 \<or> set ws \<subseteq> stale_set (gw_flags st'))"
  using assms(3,4)
proof (induction ws arbitrary: st)
  case Nil
  then show ?case by simp
next
  case (Cons c ws)
  show ?case
  proof (cases "gw_count st > 1")
    case False
    then show ?thesis using Cons.prems by simp
  next
    case True
    then have inv: "gen_inv cs array srt starts fl0 {} st" using Cons.prems(1) by (auto simp: gen_over_def)
    define st1 where "st1 = st\<lparr>gw_flags := (gw_flags st)(c := gw_flags st c OR STALE)\<rparr>"
    have "gen_inv cs array srt starts fl0 (set [c]) st1"
      using gen_inv_push [OF inv, of c] Cons.prems(2) assms(5) by (auto simp: st1_def)
    then obtain st2 where st2: "gen_dfs cs srt [c] st1 = Some st2" "gen_over cs array srt starts fl0 st2"
      "stale_set (gw_flags st1) \<subseteq> stale_set (gw_flags st2)"
      using gen_dfs_ok [OF assms(1) srt] by blast
    obtain st' where st': "gen_starts cs srt ws st2 = Some st'" "gen_over cs array srt starts fl0 st'"
      "stale_set (gw_flags st2) \<subseteq> stale_set (gw_flags st')" "gw_count st' \<le> 1 \<or> set ws \<subseteq> stale_set (gw_flags st')"
      using Cons.IH [OF st2(2)] Cons.prems(2) by auto
    have "stale_set (gw_flags st1) = insert c (stale_set (gw_flags st))"
      using set_stale(1) [of "gw_flags st" c] by (simp add: st1_def del: fun_upd_apply)
    then show ?thesis using True st2 st' by (auto simp: st1_def [symmetric])
  qed
qed

section \<open>The start of the walk\<close>

lemma start_parents_ok:
  assumes "start_parents ps (fl, ws) = (fl', ws')" "set ws = stale_set fl"
  shows "set ws' = stale_set fl' \<and> stale_set fl' = stale_set fl \<union> set ps \<and> result_set fl' = result_set fl \<and>
    (\<forall>c n. n \<noteq> 18 \<longrightarrow> bit (fl' c) n = bit (fl c) n)"
  using assms
proof (induction ps arbitrary: fl ws)
  case Nil
  then show ?case by simp
next
  case (Cons p ps)
  show ?case
  proof (cases "p \<in> stale_set fl")
    case True
    then have "start_parents ps (fl, ws) = (fl', ws')" using Cons.prems(1) by (simp add: stale_set_def flag_clear)
    from Cons.IH [OF this Cons.prems(2)] True show ?thesis by auto
  next
    case False
    then have "start_parents ps (fl(p := fl p OR STALE), ws @ [p]) = (fl', ws')" using Cons.prems(1) by (simp add: stale_set_def flag_clear)
    note IH = Cons.IH [OF this, unfolded set_stale(1,2)]
    have "bit (fl' c) n = bit (fl c) n" if "n \<noteq> 18" for c n using IH Cons.prems(2) set_stale(3) [OF that, of fl p c] that by simp
    with IH Cons.prems(2) show ?thesis by auto
  qed
qed

lemma set_result:
  "stale_set (fl(c := fl c OR RESULT)) = stale_set fl" "result_set (fl(c := fl c OR RESULT)) = insert c (result_set fl)"
  "n \<noteq> 19 \<Longrightarrow> bit ((fl(c := fl c OR RESULT)) x) n = bit (fl x) n"
  by (auto simp: stale_set_def result_set_def bit_simps)

lemma start_all_ok:
  assumes "start_all cs array (fl, ws) = (fl', ws')" "set ws = stale_set fl"
  shows "set ws' = stale_set fl' \<and> stale_set fl' = stale_set fl \<union> (\<Union>c \<in> set array. set (c_parents (cs c))) \<and>
    result_set fl' = result_set fl \<union> set array \<and> (\<forall>c n. n \<noteq> 18 \<and> n \<noteq> 19 \<longrightarrow> bit (fl' c) n = bit (fl c) n)"
  using assms
proof (induction array arbitrary: fl ws)
  case Nil
  then show ?case by simp
next
  case (Cons c array)
  obtain fl1 ws1 where 1: "start_parents (c_parents (cs c)) (fl(c := fl c OR RESULT), ws) = (fl1, ws1)" by fastforce
  have s: "set ws = stale_set (fl(c := fl c OR RESULT))" using Cons.prems(2) set_result(1) by simp
  note P = start_parents_ok [OF 1 s, unfolded set_result(1,2)]
  have "start_all cs array (fl1, ws1) = (fl', ws')" using Cons.prems(1) 1 by simp
  note IH = Cons.IH [OF this conjunct1 [OF P]]
  have "bit (fl' x) n = bit (fl x) n" if "n \<noteq> 18" "n \<noteq> 19" for x n
    using IH P that set_result(3) [OF that(2), of fl c x] by (simp del: fun_upd_apply)
  moreover have "set ws' = stale_set fl'" using IH by (rule conjunct1)
  moreover have "stale_set fl' = stale_set fl \<union> (\<Union>c \<in> set (c # array). set (c_parents (cs c)))" using IH P by (simp add: Un_assoc)
  moreover have "result_set fl' = result_set fl \<union> set (c # array)" using IH P by simp
  ultimately show ?case by blast
qed

section \<open>Correctness\<close>

lemma fold_unmark: "fold (\<lambda>c fl. fl(c := fl c AND NOT mark)) list fl = unmark mark (set list) fl"
proof (induction list arbitrary: fl)
  case (Cons c list)
  then show ?case using unmark_unmark [of mark "set list" "{c}" fl] by (simp add: unmark_one)
qed simp

lemma unmark_sets:
  "stale_set (unmark STALE S fl) = stale_set fl - S" "result_set (unmark STALE S fl) = result_set fl"
  "stale_set (unmark RESULT S fl) = stale_set fl" "result_set (unmark RESULT S fl) = result_set fl - S"
  "n \<noteq> 18 \<Longrightarrow> bit (unmark STALE S fl c) n = bit (fl c) n" "n \<noteq> 19 \<Longrightarrow> bit (unmark RESULT S fl c) n = bit (fl c) n"
  by (auto simp: stale_set_def result_set_def unmark_def bit_simps dest: bit_imp_le_length)

lemma marked_stale: "marked STALE fl = stale_set fl"
  by (auto simp: marked_def stale_set_def and.commute [of STALE] flag_clear)

definition sorts_by_gen :: "(commit_id \<Rightarrow> commit) \<Rightarrow> (commit_id list \<Rightarrow> commit_id list) \<Rightarrow> bool" where
  "sorts_by_gen cs qsort \<longleftrightarrow> (\<forall>xs. mset (qsort xs) = mset xs \<and> sorted_wrt (\<lambda>a b. compare_commits_by_gen cs a b \<le> 0) (qsort xs))"

lemma sorts_by_genD:
  assumes "sorts_by_gen cs qsort"
  shows "mset (qsort xs) = mset xs" "set (qsort xs) = set xs" "sorted_wrt (\<lambda>a b. c_generation (cs a) \<le> c_generation (cs b)) (qsort xs)"
proof -
  show m: "mset (qsort xs) = mset xs" using assms by (simp add: sorts_by_gen_def)
  then show "set (qsort xs) = set xs" by (metis set_mset_mset)
  have "sorted_wrt (\<lambda>a b. compare_commits_by_gen cs a b \<le> 0) (qsort xs)" using assms by (simp add: sorts_by_gen_def)
  then show "sorted_wrt (\<lambda>a b. c_generation (cs a) \<le> c_generation (cs b)) (qsort xs)"
    by (rule sorted_wrt_mono_rel [rotated]) (auto simp: compare_commits_by_gen_def Let_def split: if_splits)
qed

lemma gen_inv_start:
  assumes clean: "stale_set fl = {}" "result_set fl = {}" and "distinct array" "array \<noteq> []" and srt: "mset srt = mset array"
    and start: "start_all cs array (fl, []) = (fl1, ws)"
  shows "set ws = (\<Union>c \<in> set array. set (c_parents (cs c)))"
    and "gen_inv cs array srt (set ws) fl {}
      \<lparr>gw_flags = unmark STALE (set ws) fl1, gw_count = length array, gw_pos = 0, gw_min = c_generation (cs (srt ! 0))\<rparr>"
proof -
  note S = start_all_ok [OF start, unfolded clean, simplified]
  show "set ws = (\<Union>c \<in> set array. set (c_parents (cs c)))" using S by simp
  have "length srt = length array" using srt by (rule mset_eq_length)
  then show "gen_inv cs array srt (set ws) fl {}
      \<lparr>gw_flags = unmark STALE (set ws) fl1, gw_count = length array, gw_pos = 0, gw_min = c_generation (cs (srt ! 0))\<rparr>"
    using S assms(3,4) by (intro gen_invI; (unfold gen_walk.simps unmark_sets)?) (auto simp: distinct_card unmark_sets)
qed

lemma remove_redundant_with_gen_ok:
  assumes clean: "marked all_flags fl = {}" and hist: "history_ok cs parse_ok (set array)" and gen: "generations_ok cs (anc cs (set array))"
    and qsort: "sorts_by_gen cs qsort" and array: "distinct array" "array \<noteq> []"
  shows "remove_redundant_with_gen cs qsort array fl = Some (filter (\<lambda>c. c \<notin> panc cs (set array)) array, fl)"
proof -
  note Q = sorts_by_genD [OF qsort]
  have fl: "stale_set fl = {}" "result_set fl = {}" using clean by (auto simp: stale_set_def result_set_def marked_all_flags)
  obtain fl1 ws0 where start: "start_all cs array (fl, []) = (fl1, ws0)" by fastforce
  define ws where "ws = qsort ws0"
  define st where "st = \<lparr>gw_flags = unmark STALE (set ws) fl1, gw_count = length array, gw_pos = 0, gw_min = c_generation (cs (qsort array ! 0))\<rparr>"
  have ws: "set ws = set ws0" "set ws = (\<Union>c \<in> set array. set (c_parents (cs c)))"
    using gen_inv_start(1) [OF fl array Q(1) start] Q(2) by (simp_all add: ws_def)
  have "gen_inv cs array (qsort array) (set ws) fl {} st"
    using gen_inv_start(2) [OF fl array Q(1) start] unfolding st_def ws(1) .
  then have over: "gen_over cs array (qsort array) (set ws) fl st" by (simp add: gen_over_def)
  have fin: "finite (panc cs (set array))" using hist panc_subset_anc by (auto simp: history_ok_def intro: finite_subset)
  have wp: "set ws \<subseteq> panc cs (set array)" using anc_parents_panc anc_self unfolding ws(2) by blast
  obtain st' where st': "gen_starts cs (qsort array) (rev ws) st = Some st'" "gen_over cs array (qsort array) (set ws) fl st'"
    "gw_count st' \<le> 1 \<or> set ws \<subseteq> stale_set (gw_flags st')"
    using gen_starts_ok [OF fin Q(3) over, of "rev ws"] wp by auto
  then obtain K where K: "gen_inv cs array (qsort array) (set ws) fl K st'"
    "gw_count st' \<le> 1 \<or> K = {} \<and> (\<Union>c \<in> set array. set (c_parents (cs c))) \<subseteq> stale_set (gw_flags st')"
    unfolding gen_over_def ws(2) by blast
  note I = gen_invD [OF K(1)] and stale = gen_inv_final [OF hist gen Q(1) Q(3) K]
  define fl2 where "fl2 = unmark RESULT (set array) (gw_flags st')"
  have S2: "stale_set fl2 = stale_set (gw_flags st')" by (simp add: fl2_def unmark_sets)
  have filt: "filter (\<lambda>c. fl2 c AND STALE = 0) array = filter (\<lambda>c. c \<notin> panc cs (set array)) array"
    using stale S2 by (intro filter_cong) (auto simp: stale_set_def flag_clear)
  have "finite (marked STALE fl2)" using fin I(2) finite_subset unfolding marked_stale S2 by blast
  note clear = clear_commit_marks_many_ok [OF this, of cs ws]
  have "reach_in cs (marked STALE fl2) (set ws) = stale_set fl2"
    using I(3) reach_in_subset [of cs "stale_set fl2" "set ws"] unfolding marked_stale S2 by blast
  note clear = clear [unfolded this]
  have "unmark STALE (stale_set fl2) fl2 c = fl c" for c
  proof -
    have R: "result_set fl2 = {}" using I(4) by (auto simp: fl2_def unmark_sets)
    have "bit (unmark STALE (stale_set fl2) fl2 c) n = bit (fl c) n" for n
    proof -
      consider "n = 18" | "n = 19" | "n \<noteq> 18" "n \<noteq> 19" by blast
      then show ?thesis
      proof cases
        case 1
        have "stale_set (unmark STALE (stale_set fl2) fl2) = {}" by (simp add: unmark_sets)
        then show ?thesis using 1 fl(1) by (auto simp: stale_set_def)
      next
        case 2
        then show ?thesis using R fl(2) by (simp add: unmark_sets) (auto simp: result_set_def)
      next
        case 3
        then show ?thesis using I(11) by (simp add: unmark_sets fl2_def)
      qed
    qed
    then show ?thesis by (simp add: u32_eq_iff)
  qed
  then have "unmark STALE (stale_set fl2) fl2 = fl" ..
  with clear have "clear_commit_marks_many cs ws STALE fl2 = Some fl" by simp
  with filt st'(1) show ?thesis
    by (simp add: remove_redundant_with_gen_def Let_def start fold_unmark ws_def [symmetric] st_def [symmetric] fl2_def [symmetric])
qed

end
