(* ===== verification/Commit_Reach.thy ===== *)
theory Commit_Reach
  imports Redundant_Gen
begin

text \<open>
  The entry points of \<open>commit-reach.c\<close>: merge bases of two or more commits, the merge bases of an
  octopus, and the reduction of a list of heads.  Commits are never NULL here.  \<open>gen_enabled\<close> and
  \<open>corrected\<close> are what the commit graph answers to \<open>generation_numbers_enabled\<close> and
  \<open>corrected_commit_dates_enabled\<close>.  \<open>merge_bases_many\<close> takes the number of commits as an \<open>int\<close> from a
  \<open>size_t\<close>; that conversion is not modelled, so lists are shorter than 2^31.
\<close>

section \<open>Merge bases\<close>

definition merge_bases_many ::
  "(commit_id \<Rightarrow> commit) \<Rightarrow> (commit_id \<Rightarrow> bool) \<Rightarrow> bool \<Rightarrow> commit_id \<Rightarrow> commit_id list \<Rightarrow> commit_id list \<Rightarrow> flags \<Rightarrow>
   (cfault + int \<times> commit_id list \<times> flags) option" where
  "merge_bases_many cs parse_ok corrected one twos result fl =
     (if one \<in> set twos then Some (Inr (0, one # result, fl))
      else if \<not> parse_ok one then Some (Inr (- 1, result, fl))
      else if list_ex (\<lambda>two. \<not> parse_ok two) twos then Some (Inr (- 1, result, fl))
      else
        walk_bind (paint_down_to_common cs parse_ok corrected one twos 0 False fl)
          (\<lambda>(status, list, fl).
             if status \<noteq> 0 then Some (Inr (- 1, result, fl))
             else Some (Inr (0, fold (\<lambda>commit result. if fl commit AND STALE = 0 then commit_list_insert_by_date cs commit result else result)
               list result, fl))))"

definition remove_redundant ::
  "(commit_id \<Rightarrow> commit) \<Rightarrow> (commit_id \<Rightarrow> bool) \<Rightarrow> bool \<Rightarrow> bool \<Rightarrow> (commit_id list \<Rightarrow> commit_id list) \<Rightarrow> commit_id list \<Rightarrow> flags \<Rightarrow>
   (cfault + commit_id list option \<times> flags) option" where
  "remove_redundant cs parse_ok gen_enabled corrected qsort array fl =
     (if gen_enabled \<and> list_ex (\<lambda>c. c_generation (cs c) < GENERATION_NUMBER_INFINITY) array
      then map_option (\<lambda>(result, fl). Inr (Some result, fl)) (remove_redundant_with_gen cs qsort array fl)
      else remove_redundant_no_gen cs parse_ok corrected array fl)"

definition get_merge_bases_many_0 ::
  "(commit_id \<Rightarrow> commit) \<Rightarrow> (commit_id \<Rightarrow> bool) \<Rightarrow> bool \<Rightarrow> bool \<Rightarrow> (commit_id list \<Rightarrow> commit_id list) \<Rightarrow> commit_id \<Rightarrow> commit_id list \<Rightarrow>
   bool \<Rightarrow> commit_id list \<Rightarrow> flags \<Rightarrow> (cfault + int \<times> commit_id list \<times> flags) option" where
  "get_merge_bases_many_0 cs parse_ok gen_enabled corrected qsort one twos cleanup result fl =
     walk_bind (merge_bases_many cs parse_ok corrected one twos result fl)
       (\<lambda>(status, result, fl).
          if status < 0 then Some (Inr (- 1, result, fl))
          else if one \<in> set twos then Some (Inr (0, result, fl))
          else if length result \<le> 1 then
            (if cleanup then walk_bind (clear_both cs one twos fl) (\<lambda>fl. Some (Inr (0, result, fl)))
             else Some (Inr (0, result, fl)))
          else
            walk_bind (clear_both cs one twos fl) (\<lambda>fl.
              walk_bind (remove_redundant cs parse_ok gen_enabled corrected qsort result fl)
                (\<lambda>(rslt, fl). case rslt of
                   None \<Rightarrow> Some (Inr (- 1, [], fl))
                 | Some rslt \<Rightarrow> Some (Inr (0, fold (commit_list_insert_by_date cs) rslt [], fl)))))"

definition repo_get_merge_bases_many ::
  "(commit_id \<Rightarrow> commit) \<Rightarrow> (commit_id \<Rightarrow> bool) \<Rightarrow> bool \<Rightarrow> bool \<Rightarrow> (commit_id list \<Rightarrow> commit_id list) \<Rightarrow> commit_id \<Rightarrow> commit_id list \<Rightarrow>
   commit_id list \<Rightarrow> flags \<Rightarrow> (cfault + int \<times> commit_id list \<times> flags) option" where
  "repo_get_merge_bases_many cs parse_ok gen_enabled corrected qsort one twos result fl =
     get_merge_bases_many_0 cs parse_ok gen_enabled corrected qsort one twos True result fl"

definition repo_get_merge_bases_many_dirty ::
  "(commit_id \<Rightarrow> commit) \<Rightarrow> (commit_id \<Rightarrow> bool) \<Rightarrow> bool \<Rightarrow> bool \<Rightarrow> (commit_id list \<Rightarrow> commit_id list) \<Rightarrow> commit_id \<Rightarrow> commit_id list \<Rightarrow>
   commit_id list \<Rightarrow> flags \<Rightarrow> (cfault + int \<times> commit_id list \<times> flags) option" where
  "repo_get_merge_bases_many_dirty cs parse_ok gen_enabled corrected qsort one twos result fl =
     get_merge_bases_many_0 cs parse_ok gen_enabled corrected qsort one twos False result fl"

definition repo_get_merge_bases ::
  "(commit_id \<Rightarrow> commit) \<Rightarrow> (commit_id \<Rightarrow> bool) \<Rightarrow> bool \<Rightarrow> bool \<Rightarrow> (commit_id list \<Rightarrow> commit_id list) \<Rightarrow> commit_id \<Rightarrow> commit_id \<Rightarrow>
   commit_id list \<Rightarrow> flags \<Rightarrow> (cfault + int \<times> commit_id list \<times> flags) option" where
  "repo_get_merge_bases cs parse_ok gen_enabled corrected qsort one two result fl =
     get_merge_bases_many_0 cs parse_ok gen_enabled corrected qsort one [two] True result fl"

section \<open>Best common ancestors\<close>

text \<open>Of any commits between the best and all common ancestors, the topmost ones are the best.\<close>

lemma best_topmost:
  assumes hist: "history_ok cs parse_ok (insert one (set twos))" and T: "best cs one twos \<subseteq> T" "T \<subseteq> common cs one twos"
  shows "{c \<in> T. c \<notin> panc cs T} = best cs one twos"
proof
  let ?C = "common cs one twos"
  have C: "?C \<subseteq> anc cs (insert one (set twos))" using anc_mono [of "{one}" "insert one (set twos)" cs] by (auto simp: common_def)
  have "T \<subseteq> anc cs ?C" using T(2) anc_self [of ?C cs] by blast
  from panc_mono [OF this] show "best cs one twos \<subseteq> {c \<in> T. c \<notin> panc cs T}" using T(1) by (auto simp: best_def)
  show "{c \<in> T. c \<notin> panc cs T} \<subseteq> best cs one twos"
  proof
    fix c assume c: "c \<in> {c \<in> T. c \<notin> panc cs T}"
    have "c \<notin> panc cs ?C"
    proof
      assume "c \<in> panc cs ?C"
      moreover have "finite ?C" using hist C by (auto simp: history_ok_def intro: finite_subset)
      ultimately obtain m where m: "m \<in> ?C" "c \<in> panc cs {m}" "m \<notin> panc cs ?C" using topmost_exists [OF hist _ C] by blast
      then have "m \<in> T" using T(1) by (auto simp: best_def)
      then have "c \<in> panc cs T" using m(2) panc_mono [of "{m}" cs T] anc_self [of T cs] by blast
      with c show False by blast
    qed
    with c T(2) show "c \<in> best cs one twos" by (auto simp: best_def)
  qed
qed

lemma best_self:
  assumes hist: "history_ok cs parse_ok (insert one (set twos))" and "one \<in> set twos"
  shows "best cs one twos = {one}"
proof -
  have one: "one \<in> common cs one twos" using assms(2) anc_self [of "{one}" cs] anc_self [of "set twos" cs] by (auto simp: common_def)
  have "one \<notin> panc cs {one}" using hist anc_self [of "insert one (set twos)" cs] by (auto simp: history_ok_def)
  moreover have "panc cs (common cs one twos) = panc cs {one}"
    using one anc_self [of "common cs one twos" cs] by (intro subset_antisym panc_mono) (auto simp: common_def)
  ultimately show ?thesis using one anc_cases [of _ cs "{one}"] by (auto simp: best_def common_def)
qed

lemma fold_insert_by_date:
  assumes "by_date_sorted cs result"
  shows "mset (fold (\<lambda>c result. if P c then commit_list_insert_by_date cs c result else result) list result) = mset (filter P list) + mset result"
    and "by_date_sorted cs (fold (\<lambda>c result. if P c then commit_list_insert_by_date cs c result else result) list result)"
  using assms
proof (induction list arbitrary: result)
  case (Cons c list)
  case 1
  show ?case using Cons.IH(1) [of "if P c then commit_list_insert_by_date cs c result else result"] 1
    by (simp add: mset_insert_by_date insert_by_date_sorted)
  case 2
  show ?case using Cons.IH(2) [of "if P c then commit_list_insert_by_date cs c result else result"] 2
    by (simp add: insert_by_date_sorted)
qed simp_all

lemma remove_redundant_ok:
  assumes "distinct array" "array \<noteq> []" and hist: "history_ok cs parse_ok (set array)" "generations_ok cs (anc cs (set array))"
    and "marked all_flags fl = {}" "sorts_by_gen cs qsort"
  shows "remove_redundant cs parse_ok gen_enabled corrected qsort array fl = Some (Inr (Some (filter (\<lambda>c. c \<notin> panc cs (set array)) array), fl))"
proof -
  have "card (set array) \<le> card (anc cs (set array))" using hist(1) by (intro card_mono anc_self) (simp add: history_ok_def)
  then have "length array < 2 ^ 60" using hist(1) distinct_card [OF assms(1)] by (simp add: history_ok_def)
  from remove_redundant_no_gen_ok [OF assms(1) this hist assms(5)] remove_redundant_with_gen_ok [OF assms(5) hist assms(6,1,2)]
  show ?thesis by (simp add: remove_redundant_def)
qed

lemma merge_bases_paint:
  assumes clean: "marked all_flags fl = {}" and hist: "history_ok cs parse_ok (insert one (set twos))" and "length twos < 2 ^ 60" "twos \<noteq> []"
    and "one \<notin> set twos"
  shows "\<exists>result fl'. merge_bases_many cs parse_ok corrected one twos [] fl = Some (Inr (0, result, fl')) \<and> distinct result \<and>
    by_date_sorted cs result \<and> best cs one twos \<subseteq> set result \<and> set result \<subseteq> common cs one twos \<and> clear_both cs one twos fl' = Some (Inr fl)"
proof -
  obtain list fl' W where paint: "paint_down_to_common cs parse_ok corrected one twos 0 False fl = Some (Inr (0, list, fl'))"
    "paint_inv cs one twos fl W fl' list" "\<forall>x \<in> W. bit (fl' x) 18 \<or> c_generation (cs x) < 0"
    using paint_down_ok [OF clean hist assms(3,4), of 0 corrected False] by auto
  have ok: "parse_ok one" "\<forall>two \<in> set twos. parse_ok two" "finite (anc cs (insert one (set twos)))"
    using hist anc_self [of "insert one (set twos)" cs] by (auto simp: history_ok_def)
  define result where "result = fold (\<lambda>commit result. if fl' commit AND STALE = 0 then commit_list_insert_by_date cs commit result else result) list []"
  have "by_date_sorted cs []" by simp
  note R = fold_insert_by_date [OF this, of "\<lambda>c. fl' c AND STALE = 0" list, folded result_def]
  have run: "merge_bases_many cs parse_ok corrected one twos [] fl = Some (Inr (0, result, fl'))"
    using assms(5) ok paint(1) by (auto simp: merge_bases_many_def list_ex_iff result_def)
  have cand: "distinct list" "set list = {c. bit (fl' c) 19}" using paint(2) by (simp_all add: paint_inv_def paint_candidates_def)
  have set: "set result = {c. bit (fl' c) 19 \<and> \<not> bit (fl' c) 18}"
    using arg_cong [OF R(1), of set_mset] cand(2) by (auto simp: flag_clear)
  have "mset result = mset (filter (\<lambda>c. fl' c AND STALE = 0) list)" using R(1) by simp
  then have "distinct result" using cand(1) by (metis distinct_filter mset_eq_imp_distinct_iff)
  moreover have "best cs one twos \<subseteq> set result" using paint_best [OF paint(2)] paint(3) cand(2) unfolding set by auto
  moreover have "set result \<subseteq> common cs one twos"
    using paint(2) paint_soundD(1,2,4) [of cs one twos fl fl'] unfolding set by (auto simp: paint_inv_def common_def)
  ultimately show ?thesis using run R(2) clear_both_paint [OF paint(2) clean ok(3)] by blast
qed

lemma get_merge_bases_ok:
  assumes clean: "marked all_flags fl = {}" and hist: "history_ok cs parse_ok (insert one (set twos))" and twos: "length twos < 2 ^ 60" "twos \<noteq> []"
    and gen: "generations_ok cs (anc cs (insert one (set twos)))" and qsort: "sorts_by_gen cs qsort"
  shows "\<exists>result. get_merge_bases_many_0 cs parse_ok gen_enabled corrected qsort one twos True [] fl = Some (Inr (0, result, fl)) \<and>
    distinct result \<and> set result = best cs one twos \<and> by_date_sorted cs result"
proof (cases "one \<in> set twos")
  case True
  then show ?thesis using best_self [OF hist True]
    by (simp add: get_merge_bases_many_0_def merge_bases_many_def)
next
  case False
  obtain result fl' where m: "merge_bases_many cs parse_ok corrected one twos [] fl = Some (Inr (0, result, fl'))" "distinct result"
    "by_date_sorted cs result" "best cs one twos \<subseteq> set result" "set result \<subseteq> common cs one twos" "clear_both cs one twos fl' = Some (Inr fl)"
    using merge_bases_paint [OF clean hist twos False, of corrected] by blast
  have best: "{c \<in> set result. c \<notin> panc cs (set result)} = best cs one twos" by (rule best_topmost [OF hist m(4,5)])
  have sub: "set result \<subseteq> anc cs (insert one (set twos))"
    using m(5) anc_mono [of "{one}" "insert one (set twos)" cs] by (auto simp: common_def)
  note hist' = history_ok_mono [OF hist sub]
  have gen': "generations_ok cs (anc cs (set result))" using gen anc_least [OF sub] unfolding generations_ok_def by blast
  show ?thesis
  proof (cases "length result \<le> 1")
    case True
    have "c \<notin> panc cs (set result)" if "c \<in> set result" for c
    proof -
      have "set result = {c}" using True that by (cases result) auto
      then show ?thesis using hist' anc_self [of "set result" cs] that by (auto simp: history_ok_def)
    qed
    then have "set result = best cs one twos" using best by blast
    then show ?thesis using True False m by (simp add: get_merge_bases_many_0_def)
  next
    case long: False
    then have "result \<noteq> []" by auto
    note red = remove_redundant_ok [OF m(2) this hist' gen' clean qsort, of gen_enabled corrected]
    let ?kept = "filter (\<lambda>c. c \<notin> panc cs (set result)) result"
    have "by_date_sorted cs []" by simp
    note R = fold_insert_by_date [OF this, of "\<lambda>_. True" ?kept, simplified]
    have "distinct (fold (commit_list_insert_by_date cs) ?kept [])" using mset_eq_imp_distinct_iff [of _ ?kept] R(1) m(2) by simp
    moreover have "set (fold (commit_list_insert_by_date cs) ?kept []) = best cs one twos"
      using arg_cong [OF R(1), of set_mset] best by simp
    ultimately show ?thesis using long False m(1,6) red R(2) by (simp add: get_merge_bases_many_0_def)
  qed
qed

section \<open>The merge bases of an octopus\<close>

text \<open>The bases of one more commit with each of the bases so far; \<open>None\<close> is the error return.\<close>

fun octopus_bases ::
  "(commit_id \<Rightarrow> commit) \<Rightarrow> (commit_id \<Rightarrow> bool) \<Rightarrow> bool \<Rightarrow> bool \<Rightarrow> (commit_id list \<Rightarrow> commit_id list) \<Rightarrow> commit_id \<Rightarrow> commit_id list \<Rightarrow>
   flags \<Rightarrow> (cfault + commit_id list option \<times> flags) option" where
  "octopus_bases cs parse_ok gen_enabled corrected qsort i [] fl = Some (Inr (Some [], fl))"
| "octopus_bases cs parse_ok gen_enabled corrected qsort i (j # js) fl =
     walk_bind (repo_get_merge_bases cs parse_ok gen_enabled corrected qsort i j [] fl)
       (\<lambda>(status, bases, fl).
          if status < 0 then Some (Inr (None, fl))
          else walk_bind (octopus_bases cs parse_ok gen_enabled corrected qsort i js fl)
            (\<lambda>(new_commits, fl). Some (Inr (map_option ((@) bases) new_commits, fl))))"

fun octopus_loop ::
  "(commit_id \<Rightarrow> commit) \<Rightarrow> (commit_id \<Rightarrow> bool) \<Rightarrow> bool \<Rightarrow> bool \<Rightarrow> (commit_id list \<Rightarrow> commit_id list) \<Rightarrow> commit_id list \<Rightarrow> commit_id list \<Rightarrow>
   flags \<Rightarrow> (cfault + int \<times> commit_id list \<times> flags) option" where
  "octopus_loop cs parse_ok gen_enabled corrected qsort [] result fl = Some (Inr (0, result, fl))"
| "octopus_loop cs parse_ok gen_enabled corrected qsort (i # is) result fl =
     walk_bind (octopus_bases cs parse_ok gen_enabled corrected qsort i result fl)
       (\<lambda>(new_commits, fl). case new_commits of
          None \<Rightarrow> Some (Inr (- 1, [], fl))
        | Some new_commits \<Rightarrow> octopus_loop cs parse_ok gen_enabled corrected qsort is new_commits fl)"

fun get_octopus_merge_bases ::
  "(commit_id \<Rightarrow> commit) \<Rightarrow> (commit_id \<Rightarrow> bool) \<Rightarrow> bool \<Rightarrow> bool \<Rightarrow> (commit_id list \<Rightarrow> commit_id list) \<Rightarrow> commit_id list \<Rightarrow> commit_id list \<Rightarrow>
   flags \<Rightarrow> (cfault + int \<times> commit_id list \<times> flags) option" where
  "get_octopus_merge_bases cs parse_ok gen_enabled corrected qsort [] result fl = Some (Inr (0, result, fl))"
| "get_octopus_merge_bases cs parse_ok gen_enabled corrected qsort (first # inp) result fl =
     octopus_loop cs parse_ok gen_enabled corrected qsort inp (first # result) fl"

lemma common_best:
  assumes hist: "history_ok cs parse_ok (insert one (set twos))" and x: "x \<in> common cs one twos"
  shows "x \<in> anc cs (best cs one twos)"
proof (cases "x \<in> panc cs (common cs one twos)")
  case True
  let ?C = "common cs one twos"
  have C: "?C \<subseteq> anc cs (insert one (set twos))" using anc_mono [of "{one}" "insert one (set twos)" cs] by (auto simp: common_def)
  then have "finite ?C" using hist by (auto simp: history_ok_def intro: finite_subset)
  then obtain m where m: "m \<in> ?C" "x \<in> panc cs {m}" "m \<notin> panc cs ?C" using topmost_exists [OF hist _ C True] by blast
  then have "{m} \<subseteq> best cs one twos" by (simp add: best_def)
  then show ?thesis using m(2) panc_subset_anc [of cs "{m}"] anc_mono [of "{m}" "best cs one twos" cs] by blast
next
  case False
  then have "x \<in> best cs one twos" using x by (simp add: best_def)
  then show ?thesis using anc_self [of "best cs one twos" cs] by blast
qed

lemma octopus_bases_ok:
  assumes clean: "marked all_flags fl = {}" and hist: "history_ok cs parse_ok S" and gen: "generations_ok cs (anc cs S)"
    and qsort: "sorts_by_gen cs qsort" and "i \<in> anc cs S" "set js \<subseteq> anc cs S"
  shows "\<exists>new. octopus_bases cs parse_ok gen_enabled corrected qsort i js fl = Some (Inr (Some new, fl)) \<and>
    set new = (\<Union>j \<in> set js. best cs i [j])"
  using assms(6)
proof (induction js)
  case (Cons j js)
  have sub: "insert i (set [j]) \<subseteq> anc cs S" using assms(5) Cons.prems by simp
  have "generations_ok cs (anc cs (insert i (set [j])))" using gen anc_least [OF sub] unfolding generations_ok_def by blast
  from get_merge_bases_ok [OF clean history_ok_mono [OF hist sub] _ _ this qsort, of gen_enabled corrected]
  obtain bases where b: "repo_get_merge_bases cs parse_ok gen_enabled corrected qsort i j [] fl = Some (Inr (0, bases, fl))"
    "set bases = best cs i [j]" by (auto simp: repo_get_merge_bases_def)
  obtain new where "octopus_bases cs parse_ok gen_enabled corrected qsort i js fl = Some (Inr (Some new, fl))"
    "set new = (\<Union>j \<in> set js. best cs i [j])" using Cons.IH Cons.prems by auto
  with b show ?case by simp
qed simp

definition covers :: "(commit_id \<Rightarrow> commit) \<Rightarrow> commit_id set \<Rightarrow> commit_id set \<Rightarrow> bool" where
  "covers cs P R \<longleftrightarrow> R \<subseteq> (\<Inter>i \<in> P. anc cs {i}) \<and> (\<Inter>i \<in> P. anc cs {i}) \<subseteq> anc cs R"

lemma anc_one: "x \<in> anc cs R \<Longrightarrow> \<exists>j \<in> R. x \<in> anc cs {j}"
proof (induction rule: anc_induct)
  case (start s)
  then show ?case using anc_self [of "{s}" cs] by (intro bexI [of _ s]) simp_all
next
  case (parent c p)
  then show ?case using anc_parent by blast
qed

lemma covers_step:
  assumes hist: "history_ok cs parse_ok S" and "i \<in> anc cs S" "R \<subseteq> anc cs S" and cov: "covers cs P R"
  shows "covers cs (insert i P) (\<Union>j \<in> R. best cs i [j])"
  unfolding covers_def
proof
  have ij: "best cs i [j] \<subseteq> anc cs {i} \<inter> anc cs {j}" for j by (auto simp: best_def common_def)
  show "(\<Union>j \<in> R. best cs i [j]) \<subseteq> (\<Inter>k \<in> insert i P. anc cs {k})"
  proof (intro UN_least INT_greatest)
    fix j k assume "j \<in> R" "k \<in> insert i P"
    then consider "k = i" | "{j} \<subseteq> anc cs {k}" using cov by (auto simp: covers_def)
    then show "best cs i [j] \<subseteq> anc cs {k}" using ij [of j] anc_least [of "{j}" cs "{k}"] by cases blast+
  qed
  show "(\<Inter>k \<in> insert i P. anc cs {k}) \<subseteq> anc cs (\<Union>j \<in> R. best cs i [j])"
  proof
    fix x assume x: "x \<in> (\<Inter>k \<in> insert i P. anc cs {k})"
    then have "x \<in> anc cs R" using cov by (auto simp: covers_def)
    then obtain j where j: "j \<in> R" "x \<in> anc cs {j}" using anc_one by blast
    have "insert i (set [j]) \<subseteq> anc cs S" using assms(2,3) j(1) by auto
    then have "x \<in> anc cs (best cs i [j])"
      using common_best [OF history_ok_mono [OF hist]] x j(2) by (simp add: common_def)
    then show "x \<in> anc cs (\<Union>j \<in> R. best cs i [j])" using j(1) anc_mono [of "best cs i [j]" "\<Union>j \<in> R. best cs i [j]" cs] by blast
  qed
qed

lemma octopus_loop_ok:
  assumes clean: "marked all_flags fl = {}" and hist: "history_ok cs parse_ok S" and gen: "generations_ok cs (anc cs S)"
    and qsort: "sorts_by_gen cs qsort" and "set is \<subseteq> anc cs S" "set result \<subseteq> anc cs S" "covers cs P (set result)"
  shows "\<exists>result'. octopus_loop cs parse_ok gen_enabled corrected qsort is result fl = Some (Inr (0, result', fl)) \<and>
    covers cs (set is \<union> P) (set result')"
  using assms(5-7)
proof (induction "is" arbitrary: result P)
  case (Cons i "is")
  have i: "i \<in> anc cs S" using Cons.prems(1) by simp
  obtain new where new: "octopus_bases cs parse_ok gen_enabled corrected qsort i result fl = Some (Inr (Some new, fl))"
    "set new = (\<Union>j \<in> set result. best cs i [j])"
    using octopus_bases_ok [OF clean hist gen qsort i Cons.prems(2), of gen_enabled corrected] by blast
  have cov: "covers cs (insert i P) (set new)" unfolding new(2) by (rule covers_step [OF hist i Cons.prems(2,3)])
  then have "set new \<subseteq> anc cs S" using i anc_least [of "{i}" cs S] by (auto simp: covers_def)
  with Cons.IH [OF _ _ cov] Cons.prems(1) new(1) show ?case by simp
qed simp

section \<open>Reducing heads\<close>

fun mark_heads :: "commit_id list \<Rightarrow> nat \<times> flags \<Rightarrow> nat \<times> flags" where
  "mark_heads [] (num_head, fl) = (num_head, fl)"
| "mark_heads (p # heads) (num_head, fl) =
     (if fl p AND STALE \<noteq> 0 then mark_heads heads (num_head, fl) else mark_heads heads (num_head + 1, fl(p := fl p OR STALE)))"

fun take_heads :: "commit_id list \<Rightarrow> flags \<Rightarrow> commit_id list \<times> flags" where
  "take_heads [] fl = ([], fl)"
| "take_heads (p # heads) fl =
     (if fl p AND STALE \<noteq> 0 then
        (let (array, fl) = take_heads heads (fl(p := fl p AND NOT STALE)) in (p # array, fl))
      else take_heads heads fl)"

text \<open>Filling the array beyond the \<open>num_head\<close> entries allocated is undefined.\<close>

definition reduce_heads ::
  "(commit_id \<Rightarrow> commit) \<Rightarrow> (commit_id \<Rightarrow> bool) \<Rightarrow> bool \<Rightarrow> bool \<Rightarrow> (commit_id list \<Rightarrow> commit_id list) \<Rightarrow> commit_id list \<Rightarrow> flags \<Rightarrow>
   (cfault + commit_id list \<times> flags) option" where
  "reduce_heads cs parse_ok gen_enabled corrected qsort heads fl =
     (if heads = [] then Some (Inr ([], fl))
      else
        let fl = fold (\<lambda>p fl. fl(p := fl p AND NOT STALE)) heads fl;
            (num_head, fl) = mark_heads heads (0, fl);
            (array, fl) = take_heads heads fl in
        if length array > num_head then Some (Inl Undef)
        else walk_bind (remove_redundant cs parse_ok gen_enabled corrected qsort array fl)
          (\<lambda>(res, fl). Some (Inr (case res of None \<Rightarrow> [] | Some array \<Rightarrow> array, fl))))"

definition reduce_heads_replace ::
  "(commit_id \<Rightarrow> commit) \<Rightarrow> (commit_id \<Rightarrow> bool) \<Rightarrow> bool \<Rightarrow> bool \<Rightarrow> (commit_id list \<Rightarrow> commit_id list) \<Rightarrow> commit_id list \<Rightarrow> flags \<Rightarrow>
   (cfault + commit_id list \<times> flags) option" where
  "reduce_heads_replace cs parse_ok gen_enabled corrected qsort heads fl =
     reduce_heads cs parse_ok gen_enabled corrected qsort heads fl"

text \<open>The first occurrences in a list.\<close>

fun uniq :: "'a list \<Rightarrow> 'a list" where
  "uniq [] = []"
| "uniq (x # xs) = x # filter (\<lambda>y. y \<noteq> x) (uniq xs)"

lemma uniq_set [simp]: "set (uniq xs) = set xs"
  by (induction xs) auto

lemma uniq_distinct [simp]: "distinct (uniq xs)"
  by (induction xs) auto

lemma uniq_empty [simp]: "uniq xs = [] \<longleftrightarrow> xs = []"
  by (cases xs) auto

lemma mark_heads_ok: "mark_heads heads (n, fl) = (n + card (set heads - stale_set fl), mark_set STALE (set heads) fl)"
proof (induction heads arbitrary: n fl)
  case Nil
  then show ?case by (simp add: mark_set_def)
next
  case (Cons p heads)
  show ?case
  proof (cases "p \<in> stale_set fl")
    case True
    have "mark_set STALE (insert p (set heads)) fl = mark_set STALE (set heads) fl"
      using True by (auto simp: mark_set_def stale_set_def fun_eq_iff u32_eq_iff bit_simps)
    then show ?thesis using True Cons.IH [of n fl] by (simp add: stale_set_def flag_clear insert_Diff_if)
  next
    case False
    have fl: "fl(p := fl p OR STALE) = mark_set STALE {p} fl" by (auto simp: mark_set_def)
    have "set heads - insert p (stale_set fl) = set (p # heads) - stale_set fl - {p}" by auto
    then have "Suc (card (set heads - insert p (stale_set fl))) = card (set (p # heads) - stale_set fl)"
      using False card_Suc_Diff1 [of "set (p # heads) - stale_set fl" p] by simp
    then show ?thesis
      using False Cons.IH [of "n + 1" "fl(p := fl p OR STALE)"] set_stale(1) [of fl p] mark_set_Un [of STALE "set heads" "{p}" fl]
      by (simp add: stale_set_def flag_clear fl)
  qed
qed

lemma take_heads_ok: "take_heads heads fl = (filter (\<lambda>p. p \<in> stale_set fl) (uniq heads), unmark STALE (set heads) fl)"
proof (induction heads arbitrary: fl)
  case (Cons p heads)
  have fl: "fl(p := fl p AND NOT STALE) = unmark STALE {p} fl" by (rule unmark_one)
  show ?case
  proof (cases "p \<in> stale_set fl")
    case True
    have "filter (\<lambda>q. q \<in> stale_set fl \<and> q \<noteq> p) (uniq heads) = filter (\<lambda>q. q \<in> stale_set fl) (filter (\<lambda>q. q \<noteq> p) (uniq heads))"
      by (simp add: conj_commute)
    then show ?thesis
      using True Cons.IH [of "unmark STALE {p} fl"] unmark_unmark [of STALE "set heads" "{p}" fl]
      by (simp add: flag_clear fl unmark_sets) (simp add: stale_set_def)
  next
    case False
    have "unmark STALE (insert p (set heads)) fl = unmark STALE (set heads) fl"
      using False by (auto simp: unmark_def stale_set_def fun_eq_iff u32_eq_iff bit_simps dest: bit_imp_le_length)
    moreover have "filter (\<lambda>q. q \<in> stale_set fl) (filter (\<lambda>q. q \<noteq> p) (uniq heads)) = filter (\<lambda>q. q \<in> stale_set fl) (uniq heads)"
      using False by (auto intro: filter_cong)
    ultimately show ?thesis using False Cons.IH [of fl] by (simp add: stale_set_def flag_clear)
  qed
qed simp

section \<open>Properties\<close>

text \<open>
  C3: Merge bases.  With readable, acyclic history and generation numbers that never increase
  towards the parents, \<open>repo_get_merge_bases_many\<close> returns exactly the best common ancestors of the
  commit and the others (common ancestors not reachable from another one by at least one step),
  each once and the most recent first, whatever the commit graph offers, and leaves all flags as they
  were.
\<close>

theorem repo_get_merge_bases_many_correct:
  assumes "marked all_flags fl = {}" "history_ok cs parse_ok (insert one (set twos))" "length twos < 2 ^ 60" "twos \<noteq> []"
    and "generations_ok cs (anc cs (insert one (set twos)))" "sorts_by_gen cs qsort"
  shows "\<exists>result. repo_get_merge_bases_many cs parse_ok gen_enabled corrected qsort one twos [] fl = Some (Inr (0, result, fl)) \<and>
    distinct result \<and> set result = best cs one twos \<and> by_date_sorted cs result"
  using get_merge_bases_ok [OF assms] by (simp add: repo_get_merge_bases_many_def)

lemma diamond_best: "best diamond 3 [4] = {2}"
proof -
  have "common diamond 3 [4] = {2}" by (auto simp: common_def diamond_anc)
  then show ?thesis by (simp add: best_def panc_def diamond_parents)
qed

interpretation by_gen: comparison "compare_commits_by_gen cs"
  by unfold_locales (auto simp: compare_commits_by_gen_def Let_def split: if_splits)

lemma stable_sorts_by_gen: "sorts_by_gen cs (git_stable_qsort (compare_commits_by_gen cs))"
  by (simp add: sorts_by_gen_def git_stable_qsort_def by_gen.msort_with_tmp_cisort by_gen.csorted_cisort mset_cisort)

theorem repo_get_merge_bases_many_correct_witness:
  "repo_get_merge_bases_many diamond (\<lambda>_. True) True False (git_stable_qsort (compare_commits_by_gen diamond)) 3 [4] [] (\<lambda>_. 0)
   = Some (Inr (0, [2], \<lambda>_. 0))"
proof -
  have "\<exists>result. repo_get_merge_bases_many diamond (\<lambda>_. True) True False (git_stable_qsort (compare_commits_by_gen diamond)) 3 [4] [] (\<lambda>_. 0) =
      Some (Inr (0, result, \<lambda>_. 0)) \<and> distinct result \<and> set result = best diamond 3 [4] \<and> by_date_sorted diamond result"
    by (rule repo_get_merge_bases_many_correct) (simp_all add: diamond_clean diamond_ok stable_sorts_by_gen)
  moreover have "result = [2]" if "distinct result" "set result = {2}" for result :: "commit_id list"
    using that by (metis distinct.simps(2) list.exhaust_sel list.set_intros(1) list.set_sel(2) list.set(1) insert_not_empty singletonD)
  ultimately show ?thesis unfolding diamond_best by blast
qed

text \<open>
  C18: Octopus bases.  Under the same assumptions \<open>get_octopus_merge_bases\<close> returns only commits that are
  ancestors of every commit given, every commit that is an ancestor of all of them is reachable from one
  it returns, and all flags are left as they were.
\<close>

theorem get_octopus_merge_bases_covers:
  assumes "marked all_flags fl = {}" "history_ok cs parse_ok (set inp)" "generations_ok cs (anc cs (set inp))" "sorts_by_gen cs qsort"
    and "inp \<noteq> []"
  shows "\<exists>result. get_octopus_merge_bases cs parse_ok gen_enabled corrected qsort inp [] fl = Some (Inr (0, result, fl)) \<and>
    set result \<subseteq> (\<Inter>i \<in> set inp. anc cs {i}) \<and> (\<Inter>i \<in> set inp. anc cs {i}) \<subseteq> anc cs (set result)"
proof -
  obtain first rest where inp: "inp = first # rest" using assms(5) by (cases inp) auto
  have sub: "set rest \<subseteq> anc cs (set inp)" "set [first] \<subseteq> anc cs (set inp)" using anc_self [of "set inp" cs] by (auto simp: inp)
  have "covers cs {first} (set [first])" using anc_self [of "{first}" cs] by (simp add: covers_def)
  from octopus_loop_ok [OF assms(1-4) sub this, of gen_enabled corrected] show ?thesis by (auto simp: inp covers_def)
qed

theorem get_octopus_merge_bases_covers_witness:
  "\<exists>result. get_octopus_merge_bases diamond (\<lambda>_. True) True False (git_stable_qsort (compare_commits_by_gen diamond)) [3, 4, 5] [] (\<lambda>_. 0)
      = Some (Inr (0, result, \<lambda>_. 0)) \<and> set result = {2}"
proof -
  let ?D = "\<Inter>i \<in> set [3, 4, 5]. anc diamond {i}"
  obtain result where r: " get_octopus_merge_bases diamond (\<lambda>_. True) True False (git_stable_qsort (compare_commits_by_gen diamond)) [3, 4, 5] [] (\<lambda>_. 0) =
      Some (Inr (0, result, \<lambda>_. 0))" "set result \<subseteq> ?D" "?D \<subseteq> anc diamond (set result)"
    using get_octopus_merge_bases_covers [of "\<lambda>_. 0" diamond "\<lambda>_. True" "[3, 4, 5]" "git_stable_qsort (compare_commits_by_gen diamond)" True False]
      diamond_clean diamond_ok(1) [of "set [3, 4, 5]"] diamond_ok(2) [of "set [3, 4, 5]"] stable_sorts_by_gen by (auto simp del: get_octopus_merge_bases.simps)
  have D: "?D = {2}" by (auto simp: diamond_anc)
  have "set result = {2}" using subset_singletonD [OF r(2) [unfolded D]] r(3) unfolding D by auto
  with r(1) show ?thesis by blast
qed

text \<open>
  C9: Reduction of heads.  Under the same assumptions \<open>reduce_heads\<close> never writes beyond the array it allocated and
  keeps, in their order and each once, exactly the heads that are not reachable from another one, with
  either way of finding redundant commits; all flags are left as they were.
\<close>

theorem reduce_heads_correct:
  assumes clean: "marked all_flags fl = {}" and hist: "history_ok cs parse_ok (set heads)" and gen: "generations_ok cs (anc cs (set heads))"
    and qsort: "sorts_by_gen cs qsort"
  shows "reduce_heads cs parse_ok gen_enabled corrected qsort heads fl = Some (Inr (filter (\<lambda>c. c \<notin> panc cs (set heads)) (uniq heads), fl))"
proof (cases "heads = []")
  case True
  then show ?thesis by (simp add: reduce_heads_def)
next
  case False
  have S: "stale_set fl = {}" using clean by (auto simp: stale_set_def marked_all_flags)
  have m: "marked STALE fl = {}" "STALE \<noteq> 0" using S by (simp add: marked_stale) (simp add: STALE_def)
  have u: "unmark STALE (set heads) fl = fl"
    using S by (auto simp: unmark_def stale_set_def fun_eq_iff u32_eq_iff bit_simps dest: bit_imp_le_length)
  have s: "stale_set (mark_set STALE (set heads) fl) = set heads" using marked_mark_set [OF m(2,1), of "set heads"] by (simp add: marked_stale)
  have mu: "unmark STALE (set heads) (mark_set STALE (set heads) fl) = fl"
    using S by (auto simp: unmark_def mark_set_def stale_set_def fun_eq_iff u32_eq_iff bit_simps dest: bit_imp_le_length)
  have "filter (\<lambda>p. p \<in> set heads) (uniq heads) = uniq heads" by (simp add: filter_id_conv)
  then have t: "take_heads heads (mark_set STALE (set heads) fl) = (uniq heads, fl)" by (simp add: take_heads_ok s mu)
  have c: "mark_heads heads (0, fl) = (card (set heads), mark_set STALE (set heads) fl)" using mark_heads_ok [of heads 0 fl] S by simp
  have "length (uniq heads) = card (set heads)" using distinct_card [OF uniq_distinct, of heads] by simp
  with False t c u remove_redundant_ok [of "uniq heads" cs parse_ok fl qsort gen_enabled corrected] hist gen clean qsort
  show ?thesis by (simp add: reduce_heads_def fold_unmark)
qed

theorem reduce_heads_correct_witness:
  "reduce_heads diamond (\<lambda>_. True) True False (git_stable_qsort (compare_commits_by_gen diamond)) [2, 4, 2, 3, 4] (\<lambda>_. 0) = Some (Inr ([4, 3], \<lambda>_. 0))"
proof -
  have "reduce_heads diamond (\<lambda>_. True) True False (git_stable_qsort (compare_commits_by_gen diamond)) [2, 4, 2, 3, 4] (\<lambda>_. 0) =
    Some (Inr (filter (\<lambda>c. c \<notin> panc diamond (set [2, 4, 2, 3, 4])) (uniq [2, 4, 2, 3, 4]), \<lambda>_. 0))"
    by (rule reduce_heads_correct) (simp_all add: diamond_clean diamond_ok stable_sorts_by_gen)
  moreover have "panc diamond (set [2, 4, 2, 3, 4]) = {2}" unfolding panc_def by (simp add: diamond_parents diamond_anc)
  ultimately show ?thesis by simp
qed

end
