(* ===== verification/Hash_Lookup.thy ===== *)
theory Hash_Lookup
  imports Stable_Sort
begin

text \<open>
  \<open>hash-lookup.c\<close>: the searches in sorted tables of object names, with the object names and
  comparisons of \<open>hash.h\<close>.  A table is a list of object names; \<open>rawsz\<close> is the length of the
  repository's hash.  The fan-out table of \<open>bsearch_hash\<close> is given as its bytes in network order.
  The result of \<open>oid_pos\<close> is the C \<open>int\<close>: a position, or -1 minus the place to insert.
\<close>

section \<open>Object names\<close>

record object_id =
  oid_hash :: bytes
  oid_algo :: int

definition GIT_MAX_RAWSZ :: nat where
  "GIT_MAX_RAWSZ = 32"

definition GIT_SHA1_RAWSZ :: nat where
  "GIT_SHA1_RAWSZ = 20"

definition hashcmp :: "bytes \<Rightarrow> bytes \<Rightarrow> nat \<Rightarrow> int" where
  "hashcmp sha1 sha2 rawsz =
     (if rawsz = GIT_MAX_RAWSZ then memcmp sha1 sha2 GIT_MAX_RAWSZ else memcmp sha1 sha2 GIT_SHA1_RAWSZ)"

definition oidcmp :: "object_id \<Rightarrow> object_id \<Rightarrow> int" where
  "oidcmp oid1 oid2 = memcmp (oid_hash oid1) (oid_hash oid2) GIT_MAX_RAWSZ"

definition oideq :: "object_id \<Rightarrow> object_id \<Rightarrow> bool" where
  "oideq oid1 oid2 \<longleftrightarrow> memcmp (oid_hash oid1) (oid_hash oid2) GIT_MAX_RAWSZ = 0"

definition INT_MAX :: nat where
  "INT_MAX = 2 ^ 31 - 1"

definition to_c_int :: "nat \<Rightarrow> int" where
  "to_c_int n = sint (of_nat n :: 32 word)"

definition index_pos_to_insert_pos :: "nat \<Rightarrow> cfault + int" where
  "index_pos_to_insert_pos pos = (if INT_MAX < pos then Inl Die else Inr (- 1 - int pos))"

section \<open>Interpolation search\<close>

definition take2 :: "object_id \<Rightarrow> nat \<Rightarrow> nat" where
  "take2 oid ofs = unat (oid_hash oid ! ofs) * 256 + unat (oid_hash oid ! (ofs + 1))"

datatype oid_pos_start = Start_at nat | Return "cfault + int"

function oid_pos_guess :: "nat \<Rightarrow> object_id \<Rightarrow> object_id list \<Rightarrow> nat \<Rightarrow> oid_pos_start" where
  "oid_pos_guess rawsz oid table ofs =
     (if ofs < rawsz - 2 then
        (let nr = length table;
             lov = take2 (table ! 0) ofs;
             hiv = take2 (table ! (nr - 1)) ofs;
             miv = take2 oid ofs
         in if miv < lov then Return (Inr (- 1))
            else if hiv < miv then Return (index_pos_to_insert_pos nr)
            else if lov \<noteq> hiv then
              (let mi = ((nr - 1) * (miv - lov)) mod 2 ^ 64 div (hiv - lov) in
               if 0 \<le> mi \<and> mi < nr then Start_at mi else Return (Inl Bug))
            else oid_pos_guess rawsz oid table (ofs + 2))
      else Start_at 0)"
  by pat_completeness auto
termination by (relation "measure (\<lambda>(rawsz, oid, table, ofs). rawsz - ofs)") auto

declare oid_pos_guess.simps [simp del]

datatype search_step = Found nat | Narrow nat nat

definition oid_pos_step :: "object_id \<Rightarrow> object_id list \<Rightarrow> nat \<Rightarrow> nat \<Rightarrow> nat \<Rightarrow> search_step" where
  "oid_pos_step oid table lo hi mi =
     (let cmp = oidcmp (table ! mi) oid in
      if cmp = 0 then Found mi else if 0 < cmp then Narrow lo mi else Narrow (mi + 1) hi)"

function oid_pos_loop :: "object_id \<Rightarrow> object_id list \<Rightarrow> nat \<Rightarrow> nat \<Rightarrow> cfault + int" where
  "oid_pos_loop oid table lo hi =
     (if lo < hi then
        (case oid_pos_step oid table lo hi (lo + (hi - lo) div 2) of
           Found mi \<Rightarrow> Inr (to_c_int mi)
         | Narrow lo hi \<Rightarrow> oid_pos_loop oid table lo hi)
      else index_pos_to_insert_pos lo)"
  by pat_completeness auto
termination
  by (relation "measure (\<lambda>(oid, table, lo, hi). hi - lo)")
    (auto simp: oid_pos_step_def Let_def split: if_splits)

declare oid_pos_loop.simps [simp del]

definition oid_pos :: "nat \<Rightarrow> object_id \<Rightarrow> object_id list \<Rightarrow> cfault + int" where
  "oid_pos rawsz oid table =
     (if table = [] then Inr (- 1)
      else case (if length table \<noteq> 1 then oid_pos_guess rawsz oid table 0 else Start_at 0) of
             Return r \<Rightarrow> r
           | Start_at mi \<Rightarrow>
               (case oid_pos_step oid table 0 (length table) mi of
                  Found mi \<Rightarrow> Inr (to_c_int mi)
                | Narrow lo hi \<Rightarrow> oid_pos_loop oid table lo hi))"

section \<open>Search in a pack index\<close>

definition get_be32 :: "bytes \<Rightarrow> nat \<Rightarrow> nat" where
  "get_be32 p i = ((unat (p ! i) * 256 + unat (p ! (i + 1))) * 256 + unat (p ! (i + 2))) * 256 + unat (p ! (i + 3))"

definition hash_entry :: "nat \<Rightarrow> bytes \<Rightarrow> nat \<Rightarrow> nat \<Rightarrow> bytes" where
  "hash_entry rawsz table stride mi = take rawsz (drop (mi * stride) table)"

function bsearch_hash_loop :: "nat \<Rightarrow> bytes \<Rightarrow> bytes \<Rightarrow> nat \<Rightarrow> nat \<Rightarrow> nat \<Rightarrow> bool \<times> nat" where
  "bsearch_hash_loop rawsz hash table stride lo hi =
     (if lo < hi then
        (let mi = lo + (hi - lo) div 2;
             cmp = hashcmp (drop (mi * stride) table) hash rawsz
         in if cmp = 0 then (True, mi)
            else if 0 < cmp then bsearch_hash_loop rawsz hash table stride lo mi
            else bsearch_hash_loop rawsz hash table stride (mi + 1) hi)
      else (False, lo))"
  by pat_completeness auto
termination by (relation "measure (\<lambda>(rawsz, hash, table, stride, lo, hi). hi - lo)") auto

declare bsearch_hash_loop.simps [simp del]

definition bsearch_hash :: "nat \<Rightarrow> bytes \<Rightarrow> bytes \<Rightarrow> bytes \<Rightarrow> nat \<Rightarrow> bool \<times> nat" where
  "bsearch_hash rawsz hash fanout_nbo table stride =
     (let hi = get_be32 fanout_nbo (4 * unat (hash ! 0));
          lo = (if hash ! 0 = 0 then 0 else get_be32 fanout_nbo (4 * (unat (hash ! 0) - 1)))
      in bsearch_hash_loop rawsz hash table stride lo hi)"

section \<open>Correctness of the searches\<close>

interpretation oidcmp: comparison oidcmp
proof
  show "sgn (oidcmp x y) = - sgn (oidcmp y x)" for x y
    unfolding oidcmp_def memcmp_def by (rule strcmp.cmp_sgn)
  show "oidcmp x z \<le> 0" if "oidcmp x y \<le> 0" "oidcmp y z \<le> 0" for x y z
    using that unfolding oidcmp_def memcmp_def by (rule strcmp.cmp_trans)
qed

abbreviation valid_oid :: "object_id \<Rightarrow> bool" where
  "valid_oid oid \<equiv> length (oid_hash oid) = GIT_MAX_RAWSZ"

lemma oidcmp_0: "valid_oid a \<Longrightarrow> valid_oid b \<Longrightarrow> oidcmp a b = 0 \<longleftrightarrow> oid_hash a = oid_hash b"
  by (simp add: oidcmp_def memcmp_eq)

text \<open>
  A window of a sorted table: everything before \<open>lo\<close> is smaller than the target, everything from
  \<open>hi\<close> on is larger.  It is the invariant of both searches.
\<close>

locale sorted_search = comparison cmp for cmp :: "'a \<Rightarrow> 'a \<Rightarrow> int"
begin

definition window :: "'a list \<Rightarrow> 'a \<Rightarrow> nat \<Rightarrow> nat \<Rightarrow> bool" where
  "window table x lo hi \<longleftrightarrow> lo \<le> hi \<and> hi \<le> length table \<and>
     (\<forall>j < lo. cmp (table ! j) x < 0) \<and> (\<forall>j. hi \<le> j \<and> j < length table \<longrightarrow> 0 < cmp (table ! j) x)"

lemma window_low:
  assumes "csorted table" "window table x lo hi" "mi < hi" "0 < cmp (table ! mi) x" "lo \<le> mi"
  shows "window table x lo mi"
proof -
  have "0 < cmp (table ! j) x" if "mi \<le> j" "j < length table" for j
  proof (cases "mi = j")
    case False
    with that have "cmp (table ! mi) (table ! j) \<le> 0" using sorted_wrt_nth_less [OF assms(1), of mi j] by simp
    with assms(4) show ?thesis using cmp_pos_iff cmp_less_le_trans by blast
  qed (use assms(4) in simp)
  with assms show ?thesis by (simp add: window_def)
qed

lemma window_high:
  assumes "csorted table" "window table x lo hi" "mi < hi" "cmp (table ! mi) x < 0" "lo \<le> mi"
  shows "window table x (mi + 1) hi"
proof -
  have "cmp (table ! j) x < 0" if "j < mi + 1" for j
  proof (cases "mi = j")
    case False
    with that assms(2,3) have "cmp (table ! j) (table ! mi) \<le> 0"
      using sorted_wrt_nth_less [OF assms(1), of j mi] by (simp add: window_def)
    with assms(4) show ?thesis by (rule cmp_le_less_trans [rotated])
  qed (use assms(4) in simp)
  with assms show ?thesis by (simp add: window_def)
qed

lemma window_full: "window table x 0 (length table)"
  by (simp add: window_def)

end

interpretation oid_search: sorted_search oidcmp ..

interpretation hash_search: sorted_search strcmp ..

lemma to_c_int_eq: "n \<le> INT_MAX \<Longrightarrow> to_c_int n = int n"
  by (simp add: to_c_int_def INT_MAX_def signed_take_bit_int_eq_self sint_sbintrunc' signed_of_nat)

definition oid_pos_result :: "object_id \<Rightarrow> object_id list \<Rightarrow> cfault + int \<Rightarrow> bool" where
  "oid_pos_result oid table r \<longleftrightarrow>
     (\<exists>i < length table. r = Inr (int i) \<and> oidcmp (table ! i) oid = 0) \<or>
     (\<exists>i. r = Inr (- 1 - int i) \<and> oid_search.window table oid i i)"

lemma oid_pos_found:
  "i < length table \<Longrightarrow> length table \<le> INT_MAX \<Longrightarrow> oidcmp (table ! i) oid = 0 \<Longrightarrow>
   oid_pos_result oid table (Inr (to_c_int i))"
  by (auto simp: oid_pos_result_def to_c_int_eq)

lemma oid_pos_step_cases:
  assumes "oidcmp.csorted table" and "oid_search.window table oid lo hi" and "lo \<le> mi" and "mi < hi"
  shows "case oid_pos_step oid table lo hi mi of
     Found i \<Rightarrow> i = mi \<and> oidcmp (table ! mi) oid = 0
   | Narrow lo' hi' \<Rightarrow> oid_search.window table oid lo' hi'"
  using oid_search.window_low [OF assms(1,2,4) _ assms(3)] oid_search.window_high [OF assms(1,2,4) _ assms(3)]
  by (auto simp: oid_pos_step_def Let_def not_less)

lemma oid_pos_loop_result:
  assumes "oidcmp.csorted table" and "length table \<le> INT_MAX" and "oid_search.window table oid lo hi"
  shows "oid_pos_result oid table (oid_pos_loop oid table lo hi)"
  using assms(3)
proof (induction "hi - lo" arbitrary: lo hi rule: less_induct)
  case less
  let ?mi = "lo + (hi - lo) div 2"
  show ?case
  proof (cases "lo < hi")
    case False
    with less.prems have "lo = hi" "lo \<le> INT_MAX" using assms(2) by (auto simp: oid_search.window_def)
    with less.prems show ?thesis
      by (subst oid_pos_loop.simps) (auto simp: index_pos_to_insert_pos_def oid_pos_result_def)
  next
    case True
    then have mi: "lo \<le> ?mi" "?mi < hi" by auto
    have hi: "hi \<le> length table" using less.prems by (simp add: oid_search.window_def)
    note st = oid_pos_step_cases [OF assms(1) less.prems mi]
    show ?thesis
    proof (cases "oid_pos_step oid table lo hi ?mi")
      case (Found i)
      with st mi hi assms(2) True show ?thesis
        by (subst oid_pos_loop.simps) (simp add: oid_pos_found)
    next
      case (Narrow lo' hi')
      then have "lo \<le> lo' \<and> hi' < hi \<and> lo' < hi \<or> lo < lo' \<and> hi' = hi"
        using mi by (auto simp: oid_pos_step_def Let_def split: if_splits)
      then have "hi' - lo' < hi - lo" using True by linarith
      with less.hyps st Narrow True show ?thesis by (subst oid_pos_loop.simps) simp
    qed
  qed
qed

lemma take2_less_strcmp:
  assumes "take ofs (oid_hash a) = take ofs (oid_hash b)" and "take2 a ofs < take2 b ofs"
    and "valid_oid a" and "valid_oid b" and "ofs + 1 < GIT_MAX_RAWSZ"
  shows "oidcmp a b < 0"
proof -
  let ?a = "oid_hash a" let ?b = "oid_hash b"
  have split: "x = take ofs x @ x ! ofs # x ! (ofs + 1) # drop (ofs + 2) x" if "length x = GIT_MAX_RAWSZ" for x :: bytes
    using that assms(5) by (metis Cons_nth_drop_Suc Suc_eq_plus1 add_2_eq_Suc' append_take_drop_id add_lessD1)
  have "?a ! ofs < ?b ! ofs \<or> ?a ! ofs = ?b ! ofs \<and> ?a ! (ofs + 1) < ?b ! (ofs + 1)"
  proof -
    have "unat (?a ! ofs) * 256 + unat (?a ! (ofs + 1)) < unat (?b ! ofs) * 256 + unat (?b ! (ofs + 1))"
      using assms(2) by (simp add: take2_def)
    moreover have "unat (?b ! (ofs + 1)) < 256" by simp
    ultimately have "unat (?a ! ofs) < unat (?b ! ofs) \<or>
        unat (?a ! ofs) = unat (?b ! ofs) \<and> unat (?a ! (ofs + 1)) < unat (?b ! (ofs + 1))" by linarith
    then show ?thesis by (simp add: word_less_nat_alt word_unat_eq_iff)
  qed
  then have "strcmp (?a ! ofs # ?a ! (ofs + 1) # drop (ofs + 2) ?a) (?b ! ofs # ?b ! (ofs + 1) # drop (ofs + 2) ?b) < 0"
    by auto
  then have "strcmp (take ofs ?a @ ?a ! ofs # ?a ! (ofs + 1) # drop (ofs + 2) ?a)
      (take ofs ?b @ ?b ! ofs # ?b ! (ofs + 1) # drop (ofs + 2) ?b) < 0"
    using assms by (subst strcmp_append) auto
  then have "strcmp ?a ?b < 0" using split [OF assms(3)] split [OF assms(4)] by simp
  then show ?thesis using assms(3,4) by (simp add: oidcmp_def memcmp_eq)
qed

lemma take2_eq:
  assumes "take ofs (oid_hash a) = take ofs (oid_hash b)" and "take2 a ofs = take2 b ofs"
    and "valid_oid a" and "valid_oid b" and "ofs + 1 < GIT_MAX_RAWSZ"
  shows "take (ofs + 2) (oid_hash a) = take (ofs + 2) (oid_hash b)"
proof -
  let ?a = "oid_hash a" let ?b = "oid_hash b"
  have eq: "unat (?a ! ofs) * 256 + unat (?a ! (ofs + 1)) = unat (?b ! ofs) * 256 + unat (?b ! (ofs + 1))"
    using assms(2) by (simp add: take2_def)
  with unat_byte_less [of "?b ! (ofs + 1)"] unat_byte_less [of "?a ! (ofs + 1)"]
  have "\<not> unat (?a ! ofs) < unat (?b ! ofs)" "\<not> unat (?b ! ofs) < unat (?a ! ofs)" by linarith+
  then have "unat (?a ! ofs) = unat (?b ! ofs)" by linarith
  with eq have "unat (?a ! ofs) = unat (?b ! ofs) \<and> unat (?a ! (ofs + 1)) = unat (?b ! (ofs + 1))" by linarith
  then have "?a ! ofs = ?b ! ofs" "?a ! Suc ofs = ?b ! Suc ofs" by (simp_all add: word_unat_eq_iff)
  moreover have "take (ofs + 2) x = take ofs x @ [x ! ofs, x ! Suc ofs]" if "length x = GIT_MAX_RAWSZ" for x :: bytes
    using that assms(5) by (simp add: take_Suc_conv_app_nth)
  ultimately show ?thesis using assms by simp
qed

lemma oid_pos_guess_result:
  assumes "oidcmp.csorted table" and "1 < length table" and "length table \<le> INT_MAX"
    and "\<forall>t \<in> set table. valid_oid t" and "valid_oid oid" and "rawsz \<le> GIT_MAX_RAWSZ"
    and "take ofs (oid_hash (table ! 0)) = take ofs (oid_hash oid)"
    and "take ofs (oid_hash (table ! (length table - 1))) = take ofs (oid_hash oid)"
  shows "case oid_pos_guess rawsz oid table ofs of
     Start_at mi \<Rightarrow> mi < length table
   | Return r \<Rightarrow> oid_pos_result oid table r"
  using assms(7,8)
proof (induction "rawsz - ofs" arbitrary: ofs rule: less_induct)
  case less
  let ?f = "table ! 0" let ?l = "table ! (length table - 1)"
  have "?f \<in> set table" "?l \<in> set table" using assms(2) by (auto intro!: nth_mem)
  then have v: "valid_oid ?f" "valid_oid ?l" using assms(4) by auto
  show ?case
  proof (cases "ofs < rawsz - 2")
    case False
    then show ?thesis using assms(2) by (subst oid_pos_guess.simps) auto
  next
    case True
    then have ofs: "ofs + 1 < GIT_MAX_RAWSZ" using assms(6) by linarith
    consider "take2 oid ofs < take2 ?f ofs" | "take2 ?l ofs < take2 oid ofs"
      | "take2 ?f ofs \<le> take2 oid ofs" "take2 oid ofs \<le> take2 ?l ofs" "take2 ?f ofs \<noteq> take2 ?l ofs"
      | "take2 ?f ofs = take2 oid ofs" "take2 oid ofs = take2 ?l ofs" by linarith
    then show ?thesis
    proof cases
      case 1
      have "oidcmp oid ?f < 0" using take2_less_strcmp [OF _ 1 assms(5) v(1) ofs] less.prems by simp
      then have "0 < oidcmp ?f oid" by (simp add: oidcmp.cmp_pos_iff)
      then have "oid_search.window table oid 0 0"
        using oid_search.window_low [OF assms(1) oid_search.window_full, of 0 oid] assms(2) by fastforce
      with 1 True show ?thesis
        by (subst oid_pos_guess.simps) (auto simp: Let_def oid_pos_result_def intro!: exI [of _ 0])
    next
      case 2
      have "oidcmp ?l oid < 0" using take2_less_strcmp [OF _ 2 v(2) assms(5) ofs] less.prems by simp
      then have "oid_search.window table oid (length table - 1 + 1) (length table)"
        using assms(2) by (intro oid_search.window_high [OF assms(1) oid_search.window_full]) auto
      moreover have "length table - 1 + 1 = length table" using assms(2) by simp
      ultimately have "oid_search.window table oid (length table) (length table)" by (simp only:)
      moreover from 2 have "\<not> take2 oid ofs < take2 ?f ofs"
      proof -
        have "oidcmp ?f ?l \<le> 0" using sorted_wrt_nth_less [OF assms(1), of 0 "length table - 1"] assms(2) by simp
        moreover have "take ofs (oid_hash ?l) = take ofs (oid_hash ?f)" using less.prems by simp
        ultimately have "\<not> take2 ?l ofs < take2 ?f ofs"
          using take2_less_strcmp [of ofs ?l ?f] v ofs oidcmp.cmp_pos_iff [of ?f ?l] by fastforce
        with 2 show ?thesis by simp
      qed
      ultimately show ?thesis using 2 True assms(3)
        by (subst oid_pos_guess.simps) (auto simp: Let_def oid_pos_result_def index_pos_to_insert_pos_def)
    next
      case 3
      let ?d = "take2 ?l ofs - take2 ?f ofs" let ?x = "(length table - 1) * (take2 oid ofs - take2 ?f ofs)"
      have d: "0 < ?d" using 3 by linarith
      have "?x mod 2 ^ 64 div ?d \<le> ?x div ?d" by (rule div_le_mono) simp
      also have "?x \<le> (length table - 1) * ?d" using 3 by (intro mult_le_mono) auto
      then have "?x div ?d \<le> (length table - 1) * ?d div ?d" by (rule div_le_mono)
      also have "\<dots> = length table - 1" using d by simp
      finally have "?x mod 2 ^ 64 div ?d < length table" using assms(2) by linarith
      with 3 True show ?thesis by (subst oid_pos_guess.simps) (simp add: Let_def not_less)
    next
      case 4
      have "take (ofs + 2) (oid_hash ?f) = take (ofs + 2) (oid_hash oid)"
        using take2_eq [OF less.prems(1) 4(1) v(1) assms(5) ofs] .
      moreover have "take (ofs + 2) (oid_hash ?l) = take (ofs + 2) (oid_hash oid)"
        using take2_eq [OF less.prems(2) 4(2) [symmetric] v(2) assms(5) ofs] .
      moreover have "oid_pos_guess rawsz oid table ofs = oid_pos_guess rawsz oid table (ofs + 2)"
        using 4 True by (subst oid_pos_guess.simps) (simp add: Let_def)
      ultimately show ?thesis using less.hyps [of "ofs + 2"] True by simp
    qed
  qed
qed

lemma oid_pos_correct:
  assumes "oidcmp.csorted table" and "length table \<le> INT_MAX"
    and "\<forall>t \<in> set table. valid_oid t" and "valid_oid oid" and "rawsz \<le> GIT_MAX_RAWSZ"
  shows "oid_pos_result oid table (oid_pos rawsz oid table)"
proof (cases "table = []")
  case True
  then show ?thesis by (auto simp: oid_pos_def oid_pos_result_def oid_search.window_def)
next
  case False
  let ?s = "if length table \<noteq> 1 then oid_pos_guess rawsz oid table 0 else Start_at 0"
  have s: "case ?s of Start_at mi \<Rightarrow> mi < length table | Return r \<Rightarrow> oid_pos_result oid table r"
  proof (cases "length table = 1")
    case False2: False
    with False have "1 < length table" by (cases table) auto
    from oid_pos_guess_result [OF assms(1) this assms(2-5), of 0] False2 show ?thesis by simp
  qed simp
  show ?thesis
  proof (cases ?s)
    case (Return r)
    with s False show ?thesis by (simp add: oid_pos_def)
  next
    case (Start_at mi)
    then have mi: "mi < length table" using s by simp
    note st = oid_pos_step_cases [OF assms(1) oid_search.window_full [of table oid] le0 mi]
    show ?thesis
    proof (cases "oid_pos_step oid table 0 (length table) mi")
      case (Found i)
      with st mi assms(2) Start_at False show ?thesis
        by (simp add: oid_pos_def oid_pos_found)
    next
      case (Narrow lo hi)
      with st oid_pos_loop_result [OF assms(1,2)] Start_at False show ?thesis by (simp add: oid_pos_def)
    qed
  qed
qed

section \<open>The pack index\<close>

definition hash_table :: "nat \<Rightarrow> bytes \<Rightarrow> nat \<Rightarrow> nat \<Rightarrow> bytes list" where
  "hash_table rawsz table stride nr = map (hash_entry rawsz table stride) [0..<nr]"

lemma hashcmp_entry:
  assumes "rawsz = GIT_SHA1_RAWSZ \<or> rawsz = GIT_MAX_RAWSZ" and "length hash = rawsz"
  shows "hashcmp (drop (mi * stride) table) hash rawsz = strcmp (hash_entry rawsz table stride mi) hash"
  using assms by (auto simp: hashcmp_def memcmp_def hash_entry_def GIT_SHA1_RAWSZ_def GIT_MAX_RAWSZ_def)

lemma bsearch_hash_loop_result:
  assumes "rawsz = GIT_SHA1_RAWSZ \<or> rawsz = GIT_MAX_RAWSZ" and "length hash = rawsz"
    and "strcmp.csorted (hash_table rawsz table stride nr)"
    and "hash_search.window (hash_table rawsz table stride nr) hash lo hi"
  shows "case bsearch_hash_loop rawsz hash table stride lo hi of (found, i) \<Rightarrow>
     if found then i < nr \<and> hash_entry rawsz table stride i = hash
     else hash_search.window (hash_table rawsz table stride nr) hash i i"
  using assms(4)
proof (induction "hi - lo" arbitrary: lo hi rule: less_induct)
  case less
  let ?mi = "lo + (hi - lo) div 2" let ?t = "hash_table rawsz table stride nr"
  show ?case
  proof (cases "lo < hi")
    case False
    with less.prems have "lo = hi" by (simp add: hash_search.window_def)
    with False less.prems show ?thesis by (subst bsearch_hash_loop.simps) simp
  next
    case True
    then have mi: "lo \<le> ?mi" "?mi < hi" by auto
    then have nr: "?mi < nr" using less.prems by (auto simp: hash_search.window_def hash_table_def)
    let ?c = "strcmp (hash_entry rawsz table stride ?mi) hash"
    have e: "?t ! ?mi = hash_entry rawsz table stride ?mi" using nr by (simp add: hash_table_def)
    have c: "hashcmp (drop (?mi * stride) table) hash rawsz = ?c" by (rule hashcmp_entry [OF assms(1,2)])
    consider "?c = 0" | "0 < ?c" | "?c < 0" by linarith
    then show ?thesis
    proof cases
      case 1
      then show ?thesis using True nr c by (subst bsearch_hash_loop.simps) (simp add: Let_def)
    next
      case 2
      have "hash_search.window ?t hash lo ?mi"
        using hash_search.window_low [OF assms(3) less.prems mi(2) _ mi(1)] 2 by (simp only: e)
      moreover have "bsearch_hash_loop rawsz hash table stride lo hi = bsearch_hash_loop rawsz hash table stride lo ?mi"
        using 2 True c by (subst bsearch_hash_loop.simps) (auto simp: Let_def)
      ultimately show ?thesis using less.hyps [of ?mi lo] mi True by simp
    next
      case 3
      have "hash_search.window ?t hash (?mi + 1) hi"
        using hash_search.window_high [OF assms(3) less.prems mi(2) _ mi(1)] 3 by (simp only: e)
      moreover have "bsearch_hash_loop rawsz hash table stride lo hi = bsearch_hash_loop rawsz hash table stride (?mi + 1) hi"
        using 3 True c by (subst bsearch_hash_loop.simps) (auto simp: Let_def)
      moreover have "hi - (?mi + 1) < hi - lo" using mi by linarith
      ultimately show ?thesis using less.hyps [of hi "?mi + 1"] by simp
    qed
  qed
qed

text \<open>
  The fan-out table counts: its entry for the byte \<open>b\<close> is the number of object names whose first
  byte is at most \<open>b\<close>.
\<close>

definition fanout_ok :: "nat \<Rightarrow> bytes \<Rightarrow> bytes \<Rightarrow> nat \<Rightarrow> nat \<Rightarrow> bool" where
  "fanout_ok rawsz fanout table stride nr \<longleftrightarrow>
     (\<forall>b < 256. get_be32 fanout (4 * b)
        = length (filter (\<lambda>h. unat (h ! 0) \<le> b) (hash_table rawsz table stride nr)))"

lemma sorted_filter_le:
  assumes "sorted_wrt (\<lambda>x y. f x \<le> (f y :: nat)) xs" and "i < length xs"
  shows "f (xs ! i) \<le> b \<longleftrightarrow> i < length (filter (\<lambda>x. f x \<le> b) xs)"
  using assms
proof (induction xs arbitrary: i)
  case (Cons x xs)
  show ?case
  proof (cases "f x \<le> b")
    case True
    with Cons show ?thesis by (cases i) auto
  next
    case False
    with Cons.prems have "filter (\<lambda>x. f x \<le> b) (x # xs) = []" by (fastforce simp: filter_empty_conv)
    moreover have "(x # xs) ! i \<in> set (x # xs)" using Cons.prems(2) by (rule nth_mem)
    then have "\<not> f ((x # xs) ! i) \<le> b" using False Cons.prems(1) by auto
    ultimately show ?thesis by simp
  qed
qed simp

lemma length_filter_imp: "(\<And>x. P x \<Longrightarrow> Q x) \<Longrightarrow> length (filter P xs) \<le> length (filter Q xs)"
  by (induction xs) auto

lemma strcmp_first: "x \<noteq> [] \<Longrightarrow> y \<noteq> [] \<Longrightarrow> strcmp x y \<le> 0 \<Longrightarrow> unat (x ! 0) \<le> unat (y ! 0)"
  by (cases x; cases y) (auto simp: word_le_nat_alt [symmetric] split: if_splits)

lemma fanout_window:
  assumes "fanout_ok rawsz fanout table stride nr" and "strcmp.csorted (hash_table rawsz table stride nr)"
    and "\<forall>h \<in> set (hash_table rawsz table stride nr). h \<noteq> []" and "hash \<noteq> []"
  shows "hash_search.window (hash_table rawsz table stride nr) hash
     (if hash ! 0 = 0 then 0 else get_be32 fanout (4 * (unat (hash ! 0) - 1)))
     (get_be32 fanout (4 * unat (hash ! 0)))"
proof -
  let ?t = "hash_table rawsz table stride nr" let ?b = "unat (hash ! 0)"
  have fan: "get_be32 fanout (4 * b) = length (filter (\<lambda>h. unat (h ! 0) \<le> b) ?t)" if "b < 256" for b
    using assms(1) that by (simp add: fanout_ok_def)
  have srt: "sorted_wrt (\<lambda>x y. unat (x ! 0) \<le> unat (y ! 0)) ?t"
    by (rule sorted_wrt_mono_rel [OF _ assms(2)]) (use assms(3) strcmp_first in blast)
  have first: "unat (?t ! j ! 0) \<le> b \<longleftrightarrow> j < get_be32 fanout (4 * b)" if "b < 256" "j < length ?t" for j b
    using sorted_filter_le [OF srt that(2), of b] fan [OF that(1)] by simp
  have b: "?b < 256" by simp
  have ne: "?t ! j \<noteq> []" if "j < length ?t" for j using assms(3) that by simp
  have less: "strcmp (?t ! j) hash < 0" if "j < length ?t" "unat (?t ! j ! 0) < ?b" for j
    using that(2) ne [OF that(1)] assms(4) by (cases "?t ! j"; cases hash) (auto simp: word_less_nat_alt)
  have gr: "0 < strcmp (?t ! j) hash" if "j < length ?t" "?b < unat (?t ! j ! 0)" for j
    using that(2) ne [OF that(1)] assms(4) by (cases "?t ! j"; cases hash) (auto simp: word_less_nat_alt)
  have hi: "get_be32 fanout (4 * ?b) \<le> length ?t" by (simp add: fan)
  have up: "0 < strcmp (?t ! j) hash" if "get_be32 fanout (4 * ?b) \<le> j" "j < length ?t" for j
    using gr [OF that(2)] first [OF b that(2)] that(1) by simp
  show ?thesis
  proof (cases "hash ! 0 = 0")
    case True
    then show ?thesis using hi up by (simp add: hash_search.window_def)
  next
    case False
    then have pos: "0 < ?b" by (simp add: unat_gt_0)
    have b1: "?b - 1 < 256" using b by linarith
    have lo: "get_be32 fanout (4 * (?b - 1)) \<le> get_be32 fanout (4 * ?b)"
      unfolding fan [OF b] fan [OF b1] by (rule length_filter_imp) linarith
    have "strcmp (?t ! j) hash < 0" if "j < get_be32 fanout (4 * (?b - 1))" for j
    proof -
      have j: "j < length ?t" using that lo hi by linarith
      from first [OF b1 j] that have "unat (?t ! j ! 0) < ?b" using pos by linarith
      with less [OF j] show ?thesis .
    qed
    then show ?thesis using False lo hi up by (simp add: hash_search.window_def)
  qed
qed

section \<open>Properties\<close>

text \<open>
  C23: \<open>oid_pos\<close>, the search that guesses its first probe from two bytes of the names, is correct
  on every sorted table that an \<open>int\<close> can index, never reaches its \<open>BUG\<close> and always ends: it
  returns the position of an entry equal to the target, or -1 minus the position at which the
  target belongs, all entries before it being smaller and all others larger.
\<close>

theorem oid_pos_finds:
  assumes "sorted_wrt (\<lambda>a b. oidcmp a b \<le> 0) table" and "length table \<le> INT_MAX"
    and "\<forall>t \<in> set table. valid_oid t" and "valid_oid oid" and "rawsz \<le> GIT_MAX_RAWSZ"
  shows "(\<exists>i < length table. oid_pos rawsz oid table = Inr (int i) \<and> oid_hash (table ! i) = oid_hash oid) \<or>
    (\<exists>i \<le> length table. oid_pos rawsz oid table = Inr (- 1 - int i) \<and>
       (\<forall>j < i. oidcmp (table ! j) oid < 0) \<and>
       (\<forall>j. i \<le> j \<and> j < length table \<longrightarrow> 0 < oidcmp (table ! j) oid))"
proof -
  have "oid_hash (table ! i) = oid_hash oid" if "i < length table" "oidcmp (table ! i) oid = 0" for i
    using that assms(3,4) by (simp add: oidcmp_0)
  with oid_pos_correct [OF assms] show ?thesis
    unfolding oid_pos_result_def oid_search.window_def by blast
qed

theorem oid_pos_finds_witness:
  "(\<exists>i < 1. oid_pos 20 \<lparr>oid_hash = replicate 32 7, oid_algo = 1\<rparr> [\<lparr>oid_hash = replicate 32 7, oid_algo = 1\<rparr>] = Inr (int i)) \<or>
   (\<exists>i \<le> 1. oid_pos 20 \<lparr>oid_hash = replicate 32 7, oid_algo = 1\<rparr> [\<lparr>oid_hash = replicate 32 7, oid_algo = 1\<rparr>] = Inr (- 1 - int i))"
  using oid_pos_finds [of "[\<lparr>oid_hash = replicate 32 7, oid_algo = 1\<rparr>]" "\<lparr>oid_hash = replicate 32 7, oid_algo = 1\<rparr>" 20]
  by (auto simp: INT_MAX_def GIT_MAX_RAWSZ_def)

text \<open>
  \<open>bsearch_hash\<close> is correct on every pack index whose names are sorted and whose fan-out
  table counts them: it finds the name exactly when the index has it, and otherwise reports
  the position at which it belongs.
\<close>

theorem bsearch_hash_finds:
  assumes "rawsz = GIT_SHA1_RAWSZ \<or> rawsz = GIT_MAX_RAWSZ" and "length hash = rawsz"
    and "sorted_wrt (\<lambda>a b. strcmp a b \<le> 0) (hash_table rawsz table stride nr)"
    and "\<forall>h \<in> set (hash_table rawsz table stride nr). h \<noteq> []"
    and "fanout_ok rawsz fanout table stride nr"
  shows "case bsearch_hash rawsz hash fanout table stride of (found, i) \<Rightarrow>
     (found \<longleftrightarrow> hash \<in> set (hash_table rawsz table stride nr)) \<and>
     (if found then i < nr \<and> hash_entry rawsz table stride i = hash
      else (\<forall>j < i. strcmp (hash_entry rawsz table stride j) hash < 0) \<and>
           (\<forall>j. i \<le> j \<and> j < nr \<longrightarrow> 0 < strcmp (hash_entry rawsz table stride j) hash))"
proof -
  let ?t = "hash_table rawsz table stride nr"
  have "hash \<noteq> []" using assms(1,2) by (auto simp: GIT_SHA1_RAWSZ_def GIT_MAX_RAWSZ_def)
  note win = fanout_window [OF assms(5,3,4) this]
  obtain found i where r: "bsearch_hash rawsz hash fanout table stride = (found, i)" by fastforce
  then have res: "if found then i < nr \<and> hash_entry rawsz table stride i = hash else hash_search.window ?t hash i i"
    using bsearch_hash_loop_result [OF assms(1-3) win] by (simp add: bsearch_hash_def Let_def)
  have t: "length ?t = nr" "j < nr \<Longrightarrow> ?t ! j = hash_entry rawsz table stride j" for j by (simp_all add: hash_table_def)
  show ?thesis
  proof (cases found)
    case True
    with res t have "hash \<in> set ?t" by (metis nth_mem)
    with True res r show ?thesis by simp
  next
    case False
    with res have win: "hash_search.window ?t hash i i" by simp
    then have "strcmp (?t ! j) hash < 0 \<or> 0 < strcmp (?t ! j) hash" if "j < length ?t" for j
      using that unfolding hash_search.window_def by (metis not_less)
    then have "hash \<notin> set ?t" by (metis in_set_conv_nth strcmp.cmp_refl less_irrefl)
    with False r win t show ?thesis by (auto simp: hash_search.window_def)
  qed
qed

theorem bsearch_hash_finds_witness:
  "case bsearch_hash 20 (replicate 20 0) (replicate 1024 0) [] 20 of (found, i) \<Rightarrow> \<not> found"
proof -
  have "get_be32 (replicate 1024 0) (4 * b) = 0" if "b < 256" for b using that by (simp add: get_be32_def)
  then have "fanout_ok 20 (replicate 1024 0) [] 20 0" by (simp add: fanout_ok_def hash_table_def)
  from bsearch_hash_finds [OF _ _ _ _ this, of "replicate 20 0"] show ?thesis
    by (auto simp: GIT_SHA1_RAWSZ_def hash_table_def)
qed

end
