(* ===== verification/Oid_Array.thy ===== *)
theory Oid_Array
  imports Hash_Lookup
begin

text \<open>
  \<open>oid-array.c\<close>: arrays of object names that are sorted when they are first searched.
  \<open>the_algo\<close> is the number of the repository's hash algorithm.  \<open>QSORT\<close> calls the C library's
  \<open>qsort\<close>, which returns some sorted permutation; since only identical object names compare
  equal there is just one, and the model takes insertion sort to name it.  A callback
  threads a state and returns an \<open>int\<close>.
\<close>

section \<open>Operations\<close>

record oid_array =
  oa_oid :: "object_id list"
  oa_sorted :: bool

definition oid_array_append :: "int \<Rightarrow> oid_array \<Rightarrow> object_id \<Rightarrow> oid_array" where
  "oid_array_append the_algo array oid =
     array\<lparr>oa_oid := oa_oid array @ [if oid_algo oid = 0 then oid\<lparr>oid_algo := the_algo\<rparr> else oid],
           oa_sorted := False\<rparr>"

definition void_hashcmp :: "object_id \<Rightarrow> object_id \<Rightarrow> int" where
  "void_hashcmp a b =
     (if oid_algo a = oid_algo b then oidcmp a b else if oid_algo b < oid_algo a then 1 else - 1)"

definition oid_array_sort :: "oid_array \<Rightarrow> oid_array" where
  "oid_array_sort array =
     (if oa_sorted array then array
      else array\<lparr>oa_oid := cisort void_hashcmp (oa_oid array), oa_sorted := True\<rparr>)"

definition oid_array_lookup :: "nat \<Rightarrow> oid_array \<Rightarrow> object_id \<Rightarrow> oid_array \<times> (cfault + int)" where
  "oid_array_lookup rawsz array oid =
     (let array = oid_array_sort array in (array, oid_pos rawsz oid (oa_oid array)))"

definition oid_array_clear :: "oid_array \<Rightarrow> oid_array" where
  "oid_array_clear array = \<lparr>oa_oid = [], oa_sorted = False\<rparr>"

fun for_each_loop :: "(object_id \<Rightarrow> 's \<Rightarrow> int \<times> 's) \<Rightarrow> object_id list \<Rightarrow> 's \<Rightarrow> int \<times> 's" where
  "for_each_loop fn [] data = (0, data)"
| "for_each_loop fn (oid # oids) data =
     (case fn oid data of (ret, data) \<Rightarrow> if ret \<noteq> 0 then (ret, data) else for_each_loop fn oids data)"

definition oid_array_for_each :: "oid_array \<Rightarrow> (object_id \<Rightarrow> 's \<Rightarrow> int \<times> 's) \<Rightarrow> 's \<Rightarrow> int \<times> 's" where
  "oid_array_for_each array fn data = for_each_loop fn (oa_oid array) data"

function oid_array_next_unique :: "object_id list \<Rightarrow> nat \<Rightarrow> nat" where
  "oid_array_next_unique oids cur =
     (let cur = cur + 1 in
      if cur < length oids \<and> oideq (oids ! cur) (oids ! (cur - 1)) then oid_array_next_unique oids cur else cur)"
  by pat_completeness auto
termination by (relation "measure (\<lambda>(oids, cur). length oids - cur)") auto

declare oid_array_next_unique.simps [simp del]

lemma next_unique_greater: "cur < oid_array_next_unique oids cur"
proof (induction oids cur rule: oid_array_next_unique.induct)
  case (1 oids cur)
  then show ?case by (subst oid_array_next_unique.simps) (auto simp: Let_def)
qed

function for_each_unique_loop :: "(object_id \<Rightarrow> 's \<Rightarrow> int \<times> 's) \<Rightarrow> object_id list \<Rightarrow> nat \<Rightarrow> 's \<Rightarrow> int \<times> 's" where
  "for_each_unique_loop fn oids i data =
     (if i < length oids then
        (case fn (oids ! i) data of (ret, data) \<Rightarrow>
           if ret \<noteq> 0 then (ret, data)
           else for_each_unique_loop fn oids (oid_array_next_unique oids i) data)
      else (0, data))"
  by pat_completeness auto
termination
  by (relation "measure (\<lambda>(fn, oids, i, data). length oids - i)")
    (auto intro: diff_less_mono2 next_unique_greater)

declare for_each_unique_loop.simps [simp del]

definition oid_array_for_each_unique :: "oid_array \<Rightarrow> (object_id \<Rightarrow> 's \<Rightarrow> int \<times> 's) \<Rightarrow> 's \<Rightarrow> oid_array \<times> int \<times> 's" where
  "oid_array_for_each_unique array fn data =
     (let array = oid_array_sort array in (array, for_each_unique_loop fn (oa_oid array) 0 data))"

function filter_loop :: "(object_id \<Rightarrow> bool) \<Rightarrow> object_id list \<Rightarrow> nat \<Rightarrow> nat \<Rightarrow> object_id list \<times> nat" where
  "filter_loop want oids src dst =
     (if src < length oids then
        (if want (oids ! src) then
           filter_loop want (if src \<noteq> dst then oids[dst := oids ! src] else oids) (src + 1) (dst + 1)
         else filter_loop want oids (src + 1) dst)
      else (oids, dst))"
  by pat_completeness auto
termination by (relation "measure (\<lambda>(want, oids, src, dst). length oids - src)") auto

declare filter_loop.simps [simp del]

definition oid_array_filter :: "oid_array \<Rightarrow> (object_id \<Rightarrow> bool) \<Rightarrow> oid_array" where
  "oid_array_filter array want =
     (let (oids, dst) = filter_loop want (oa_oid array) 0 0 in array\<lparr>oa_oid := take dst oids\<rparr>)"

section \<open>Sorting\<close>

interpretation void_hashcmp: comparison void_hashcmp
proof
  show "sgn (void_hashcmp x y) = - sgn (void_hashcmp y x)" for x y
    using oidcmp.cmp_sgn [of x y] by (auto simp: void_hashcmp_def)
  show "void_hashcmp x z \<le> 0" if "void_hashcmp x y \<le> 0" "void_hashcmp y z \<le> 0" for x y z
    using that oidcmp.cmp_trans [of x y z] by (auto simp: void_hashcmp_def split: if_splits)
qed

lemma void_hashcmp_strict:
  assumes "\<forall>x \<in> set xs. valid_oid x"
  shows "\<forall>x \<in> set xs. \<forall>y \<in> set xs. void_hashcmp x y = 0 \<longrightarrow> x = y"
  using assms by (auto simp: void_hashcmp_def oidcmp_0 split: if_splits)

text \<open>Whatever sorted permutation \<open>qsort\<close> returns, it is the one of the model.\<close>

lemma qsort_unique:
  "\<forall>x \<in> set xs. valid_oid x \<Longrightarrow> void_hashcmp.csorted ys \<Longrightarrow> mset ys = mset xs \<Longrightarrow> ys = cisort void_hashcmp xs"
  using void_hashcmp_strict [of ys] 
  by (intro void_hashcmp.csorted_unique_on) (auto simp: void_hashcmp.csorted_cisort dest: mset_eq_setD)

lemma filter_loop_eq:
  assumes "dst \<le> src" and "src \<le> length oids"
  shows "case filter_loop want oids src dst of (oids', dst') \<Rightarrow>
    take dst' oids' = take dst oids @ filter want (drop src oids)"
  using assms
proof (induction "length oids - src" arbitrary: oids src dst rule: less_induct)
  case less
  show ?case
  proof (cases "src < length oids")
    case False
    with less.prems show ?thesis by (subst filter_loop.simps) simp
  next
    case True
    then have d: "drop src oids = oids ! src # drop (Suc src) oids" by (simp add: Cons_nth_drop_Suc)
    show ?thesis
    proof (cases "want (oids ! src)")
      case False
      with True less.prems less.hyps [of oids "src + 1" dst] d show ?thesis by (subst filter_loop.simps) simp
    next
      case w: True
      let ?o = "if src \<noteq> dst then oids[dst := oids ! src] else oids"
      have "take (dst + 1) ?o = take dst oids @ [oids ! src]"
        using True less.prems by (auto simp: take_Suc_conv_app_nth)
      moreover have "drop (src + 1) ?o = drop (src + 1) oids" using less.prems by (auto simp: drop_update_cancel)
      moreover have "length ?o = length oids" by simp
      ultimately show ?thesis
        using True w less.prems less.hyps [of ?o "src + 1" "dst + 1"] d by (subst filter_loop.simps) simp
    qed
  qed
qed

lemma oid_array_filter_eq: "oa_oid (oid_array_filter array want) = filter want (oa_oid array)"
  using filter_loop_eq [of 0 0 "oa_oid array" want]
  by (simp add: oid_array_filter_def split: prod.splits)

lemma oid_array_filter_sorted: "oa_sorted (oid_array_filter array want) = oa_sorted array"
  by (simp add: oid_array_filter_def split: prod.splits)

section \<open>Unique iteration\<close>

context comparison
begin

lemma csorted_remdups_adj:
  assumes strict: "\<And>x y. x \<in> A \<Longrightarrow> y \<in> A \<Longrightarrow> cmp x y = 0 \<Longrightarrow> x = y"
  shows "csorted xs \<Longrightarrow> set xs \<subseteq> A \<Longrightarrow> sorted_wrt (\<lambda>x y. cmp x y < 0) (remdups_adj xs)"
proof (induction xs rule: remdups_adj.induct)
  case (3 x y xs)
  show ?case
  proof (cases "x = y")
    case True
    with 3 show ?thesis by simp
  next
    case False
    have "cmp x y \<le> 0" using "3.prems"(1) by simp
    moreover have "cmp x y \<noteq> 0" using strict [of x y] "3.prems"(2) False by auto
    ultimately have "cmp x y < 0" by linarith
    then have "\<forall>z \<in> set (y # xs). cmp x z < 0" using "3.prems"(1) cmp_less_le_trans [of x y] by auto
    with 3 False show ?thesis by simp
  qed
qed simp_all

end

lemma drop_next_unique:
  assumes "\<forall>a \<in> set oids. \<forall>b \<in> set oids. oideq a b \<longleftrightarrow> a = b" and "i < length oids"
  shows "drop (oid_array_next_unique oids i) oids = dropWhile (\<lambda>y. y = oids ! i) (drop (Suc i) oids)"
  using assms(2)
proof (induction "length oids - i" arbitrary: i rule: less_induct)
  case less
  show ?case
  proof (cases "Suc i < length oids")
    case False
    then show ?thesis by (subst oid_array_next_unique.simps) (simp add: Let_def)
  next
    case True
    then have d: "drop (Suc i) oids = oids ! Suc i # drop (Suc (Suc i)) oids" by (simp add: Cons_nth_drop_Suc)
    show ?thesis
    proof (cases "oids ! Suc i = oids ! i")
      case eq: True
      with assms(1) less.prems True have "oid_array_next_unique oids i = oid_array_next_unique oids (Suc i)"
        by (subst oid_array_next_unique.simps) (simp add: Let_def)
      with less.hyps [of "Suc i"] True eq d show ?thesis by simp
    next
      case False
      with assms(1) less.prems True have "oid_array_next_unique oids i = Suc i"
        by (subst oid_array_next_unique.simps) (simp add: Let_def)
      with False d show ?thesis by simp
    qed
  qed
qed

lemma for_each_unique_loop_eq:
  assumes "\<forall>a \<in> set oids. \<forall>b \<in> set oids. oideq a b \<longleftrightarrow> a = b"
  shows "for_each_unique_loop fn oids i data = for_each_loop fn (remdups_adj (drop i oids)) data"
proof (induction "length oids - i" arbitrary: i data rule: less_induct)
  case less
  show ?case
  proof (cases "i < length oids")
    case False
    then show ?thesis by (subst for_each_unique_loop.simps) simp
  next
    case True
    have "remdups_adj (drop i oids) = oids ! i # remdups_adj (drop (oid_array_next_unique oids i) oids)"
      using True drop_next_unique [OF assms True] Cons_nth_drop_Suc [OF True]
      by (metis remdups_adj_Cons')
    moreover have "length oids - oid_array_next_unique oids i < length oids - i"
      using True next_unique_greater by (rule diff_less_mono2 [rotated])
    ultimately show ?thesis
      using True less by (subst for_each_unique_loop.simps) (simp split: prod.splits)
  qed
qed

text \<open>Names of one algorithm: \<open>void_hashcmp\<close> is \<open>oidcmp\<close>, and \<open>oideq\<close> is equality.\<close>

definition uniform :: "int \<Rightarrow> object_id list \<Rightarrow> bool" where
  "uniform algo oids \<longleftrightarrow> (\<forall>a \<in> set oids. valid_oid a \<and> oid_algo a = algo)"

lemma uniform_oideq: "uniform algo oids \<Longrightarrow> \<forall>a \<in> set oids. \<forall>b \<in> set oids. oideq a b \<longleftrightarrow> a = b"
  by (auto simp: uniform_def oideq_def memcmp_eq)

definition oa_inv :: "int \<Rightarrow> oid_array \<Rightarrow> bool" where
  "oa_inv algo array \<longleftrightarrow> uniform algo (oa_oid array) \<and>
     (oa_sorted array \<longrightarrow> void_hashcmp.csorted (oa_oid array))"

lemma oa_sort:
  assumes "oa_inv algo array"
  shows "uniform algo (oa_oid (oid_array_sort array))"
    and "oidcmp.csorted (oa_oid (oid_array_sort array))"
    and "mset (oa_oid (oid_array_sort array)) = mset (oa_oid array)"
    and "oa_inv algo (oid_array_sort array)"
proof -
  have set: "set (oa_oid (oid_array_sort array)) = set (oa_oid array)" by (simp add: oid_array_sort_def)
  then show u: "uniform algo (oa_oid (oid_array_sort array))" using assms by (simp add: oa_inv_def uniform_def)
  have v: "void_hashcmp.csorted (oa_oid (oid_array_sort array))"
    using assms by (simp add: oid_array_sort_def oa_inv_def void_hashcmp.csorted_cisort)
  show "oidcmp.csorted (oa_oid (oid_array_sort array))"
    by (rule sorted_wrt_mono_rel [OF _ v]) (use u in \<open>simp add: uniform_def void_hashcmp_def\<close>)
  show "mset (oa_oid (oid_array_sort array)) = mset (oa_oid array)" by (simp add: oid_array_sort_def)
  show "oa_inv algo (oid_array_sort array)" using u v by (simp add: oa_inv_def)
qed

lemma oa_append:
  "oa_inv algo array \<Longrightarrow> valid_oid oid \<Longrightarrow> oid_algo oid = 0 \<or> oid_algo oid = algo \<Longrightarrow>
   oa_inv algo (oid_array_append algo array oid)"
  by (auto simp: oa_inv_def uniform_def oid_array_append_def)

lemma oa_filter: "oa_inv algo array \<Longrightarrow> oa_inv algo (oid_array_filter array want)"
  by (auto simp: oa_inv_def uniform_def oid_array_filter_eq oid_array_filter_sorted intro: sorted_wrt_filter)

section \<open>Names of several algorithms\<close>

text \<open>
  \<open>void_hashcmp\<close> orders names of different algorithms by the algorithm, but the search of
  \<open>oid_array_lookup\<close> compares the hashes only; in an array that mixes algorithms it can miss a
  name that is there.
\<close>

lemma oid_array_lookup_mixed_algos:
  "snd (oid_array_lookup 32
     \<lparr>oa_oid = [\<lparr>oid_hash = replicate 32 7, oid_algo = 2\<rparr>, \<lparr>oid_hash = replicate 32 9, oid_algo = 1\<rparr>], oa_sorted = False\<rparr>
     \<lparr>oid_hash = replicate 32 7, oid_algo = 2\<rparr>) = Inr (- 1)"
  by (simp add: oid_array_lookup_def oid_array_sort_def void_hashcmp_def oid_pos_def oid_pos_guess.simps take2_def)

section \<open>Properties\<close>

text \<open>
  C28: an array of names of one algorithm is a searchable set.  After any of the operations (the
  invariant is kept by append, sort and filter) \<open>oid_array_lookup\<close> returns a position exactly
  for the names that are in the array, and that position of the sorted array holds the name.
\<close>

theorem oid_array_lookup_correct:
  assumes "oa_inv algo array" and "length (oa_oid array) \<le> INT_MAX" and "valid_oid oid" and "rawsz \<le> GIT_MAX_RAWSZ"
    and "oid_array_lookup rawsz array oid = (array', r)"
  shows "oa_inv algo array' \<and> mset (oa_oid array') = mset (oa_oid array) \<and>
    (if oid_hash oid \<in> oid_hash ` set (oa_oid array)
     then \<exists>i < length (oa_oid array'). r = Inr (int i) \<and> oid_hash (oa_oid array' ! i) = oid_hash oid
     else \<exists>i. r = Inr (- 1 - int i))"
proof -
  have array': "array' = oid_array_sort array" and r: "r = oid_pos rawsz oid (oa_oid array')"
    using assms(5) by (auto simp: oid_array_lookup_def Let_def)
  note srt = oa_sort [OF assms(1), folded array']
  have len: "length (oa_oid array') \<le> INT_MAX" using assms(2) srt(3) by (metis size_mset)
  have val: "\<forall>t \<in> set (oa_oid array'). valid_oid t" using srt(1) by (simp add: uniform_def)
  have set: "set (oa_oid array') = set (oa_oid array)" using srt(3) by (rule mset_eq_setD)
  note pos = oid_pos_correct [OF srt(2) len val assms(3,4), folded r]
  show ?thesis
  proof (cases "oid_hash oid \<in> oid_hash ` set (oa_oid array)")
    case True
    then obtain j where j: "j < length (oa_oid array')" "oid_hash (oa_oid array' ! j) = oid_hash oid"
      by (metis set image_iff in_set_conv_nth)
    then have "oidcmp (oa_oid array' ! j) oid = 0" using val assms(3) by (simp add: oidcmp_0)
    then have "\<not> oid_search.window (oa_oid array') oid i i" for i
      using j(1) unfolding oid_search.window_def by (metis less_irrefl not_less)
    then obtain i where "i < length (oa_oid array')" "r = Inr (int i)" "oidcmp (oa_oid array' ! i) oid = 0"
      using pos unfolding oid_pos_result_def by blast
    with True srt val assms(3) show ?thesis by (auto simp: oidcmp_0)
  next
    case False
    have "oidcmp (oa_oid array' ! i) oid \<noteq> 0" if "i < length (oa_oid array')" for i
    proof -
      have t: "oa_oid array' ! i \<in> set (oa_oid array')" using that by (rule nth_mem)
      then have "oid_hash (oa_oid array' ! i) \<noteq> oid_hash oid" using False set by (metis imageI)
      with t val assms(3) show ?thesis by (simp add: oidcmp_0)
    qed
    with pos have "\<exists>i. r = Inr (- 1 - int i)" unfolding oid_pos_result_def by blast
    with False srt show ?thesis by auto
  qed
qed

theorem oid_array_lookup_correct_witness:
  "\<exists>array' i. oid_array_lookup 20 \<lparr>oa_oid = [\<lparr>oid_hash = replicate 32 9, oid_algo = 1\<rparr>, \<lparr>oid_hash = replicate 32 7, oid_algo = 1\<rparr>], oa_sorted = False\<rparr>
      \<lparr>oid_hash = replicate 32 7, oid_algo = 1\<rparr> = (array', Inr (int i))"
proof -
  let ?a = "\<lparr>oa_oid = [\<lparr>oid_hash = replicate 32 9, oid_algo = 1\<rparr>, \<lparr>oid_hash = replicate 32 7, oid_algo = 1\<rparr>], oa_sorted = False\<rparr>"
  let ?o = "\<lparr>oid_hash = replicate 32 7, oid_algo = 1\<rparr>"
  obtain array' r where l: "oid_array_lookup 20 ?a ?o = (array', r)" by fastforce
  have "oa_inv 1 ?a" "length (oa_oid ?a) \<le> INT_MAX" "valid_oid ?o" "20 \<le> GIT_MAX_RAWSZ"
    by (simp_all add: oa_inv_def uniform_def GIT_MAX_RAWSZ_def INT_MAX_def)
  note found = oid_array_lookup_correct [OF this l, THEN conjunct2, THEN conjunct2]
  have "oid_hash ?o \<in> oid_hash ` set (oa_oid ?a)" by simp
  from found [unfolded if_P [OF this]] obtain i where "r = Inr (int i)" by blast
  with l show ?thesis by (intro exI) (simp only:)
qed

text \<open>
  \<open>oid_array_for_each_unique\<close> calls its callback once for every distinct name, in increasing
  order, and stops at the first non-zero return, as \<open>oid_array_for_each\<close> does on the list of
  distinct names.
\<close>

theorem for_each_unique_visits:
  assumes "oa_inv algo array"
  shows "\<exists>us. sorted_wrt (\<lambda>a b. oidcmp a b < 0) us \<and> set us = set (oa_oid array) \<and>
    snd (oid_array_for_each_unique array fn data) = oid_array_for_each \<lparr>oa_oid = us, oa_sorted = True\<rparr> fn data"
proof -
  let ?s = "oa_oid (oid_array_sort array)" let ?us = "remdups_adj ?s"
  note srt = oa_sort [OF assms]
  have "set ?us = set (oa_oid array)" using mset_eq_setD [OF srt(3)] by simp
  moreover have strict: "x = y" if "x \<in> set ?s" "y \<in> set ?s" "oidcmp x y = 0" for x y
    using that srt(1) by (simp add: uniform_def oidcmp_0)
  have "sorted_wrt (\<lambda>a b. oidcmp a b < 0) ?us"
    by (rule oidcmp.csorted_remdups_adj [OF strict srt(2) order_refl])
  moreover have "snd (oid_array_for_each_unique array fn data) = for_each_loop fn ?us data"
    using for_each_unique_loop_eq [OF uniform_oideq [OF srt(1)], of fn 0 data]
    by (simp add: oid_array_for_each_unique_def Let_def)
  ultimately show ?thesis by (auto simp: oid_array_for_each_def)
qed

theorem for_each_unique_visits_witness:
  "\<exists>us. set us = {\<lparr>oid_hash = replicate 32 9, oid_algo = 1\<rparr>} \<and>
     snd (oid_array_for_each_unique \<lparr>oa_oid = replicate 2 \<lparr>oid_hash = replicate 32 9, oid_algo = 1\<rparr>, oa_sorted = False\<rparr> (\<lambda>oid n. (0, n + 1)) (0::nat))
     = oid_array_for_each \<lparr>oa_oid = us, oa_sorted = True\<rparr> (\<lambda>oid n. (0, n + 1)) 0"
proof -
  have "oa_inv 1 \<lparr>oa_oid = replicate 2 \<lparr>oid_hash = replicate 32 9, oid_algo = 1\<rparr>, oa_sorted = False\<rparr>"
    by (simp add: oa_inv_def uniform_def GIT_MAX_RAWSZ_def)
  from for_each_unique_visits [OF this, of "\<lambda>oid n. (0, n + 1)" "0::nat"] show ?thesis
    by (elim exE conjE, intro exI conjI) (assumption | simp)+
qed

end
