(* ===== verification/Line_Ranges.thy ===== *)
theory Line_Ranges
  imports Stable_Sort
begin

text \<open>
  \<open>line-log.c\<close>: sets of line ranges and their way across a diff.  A range \<open>(start, end)\<close> holds the
  lines from \<open>start\<close> up to but excluding \<open>end\<close>; a range set is the list of its ranges.  A failing
  \<open>assert\<close> is \<open>Bug\<close>.  Line numbers (\<open>long\<close>) are integers.  The loop of \<open>range_set_difference\<close> need
  not end, so it takes fuel, and running out of it is \<open>None\<close>.  \<open>qsort\<close> is a parameter, since
  \<open>range_cmp\<close> does not determine the order of ranges with the same start.
\<close>

section \<open>Range sets\<close>

type_synonym range = "int \<times> int"
type_synonym range_set = "range list"

definition range_set_append_unsafe :: "range_set \<Rightarrow> int \<Rightarrow> int \<Rightarrow> cfault + range_set" where
  "range_set_append_unsafe rs a b = (if a \<le> b then Inr (rs @ [(a, b)]) else Inl Bug)"

definition range_set_append :: "range_set \<Rightarrow> int \<Rightarrow> int \<Rightarrow> cfault + range_set" where
  "range_set_append rs a b =
     (if rs = [] \<or> snd (last rs) \<le> a then range_set_append_unsafe rs a b else Inl Bug)"

definition range_cmp :: "range \<Rightarrow> range \<Rightarrow> int" where
  "range_cmp r s = (if fst r = fst s then 0 else if fst r < fst s then - 1 else 1)"

fun range_set_check_rest :: "range_set \<Rightarrow> bool" where
  "range_set_check_rest (r # s # rs) \<longleftrightarrow> snd r < fst s \<and> fst s < snd s \<and> range_set_check_rest (s # rs)"
| "range_set_check_rest _ \<longleftrightarrow> True"

definition range_set_check_invariants :: "range_set \<Rightarrow> bool" where
  "range_set_check_invariants rs \<longleftrightarrow> (rs \<noteq> [] \<longrightarrow> fst (rs ! 0) < snd (rs ! 0)) \<and> range_set_check_rest rs"

fun merge_ranges_loop :: "range_set \<Rightarrow> range_set \<Rightarrow> range_set" where
  "merge_ranges_loop out [] = out"
| "merge_ranges_loop out ((s, e) # rs) =
     (if s = e then merge_ranges_loop out rs
      else if out \<noteq> [] \<and> s \<le> snd (last out) then
        merge_ranges_loop (if snd (last out) < e then butlast out @ [(fst (last out), e)] else out) rs
      else merge_ranges_loop (out @ [(s, e)]) rs)"

definition sort_and_merge_range_set :: "(range_set \<Rightarrow> range_set) \<Rightarrow> range_set \<Rightarrow> cfault + range_set" where
  "sort_and_merge_range_set qsort rs =
     (let out = merge_ranges_loop [] (qsort rs) in
      if length out \<le> length rs \<and> range_set_check_invariants out then Inr out else Inl Bug)"

definition union_add :: "range_set \<Rightarrow> range \<Rightarrow> range_set" where
  "union_add out r =
     (if fst r = snd r then out
      else if out = [] \<or> snd (last out) < fst r then out @ [r]
      else if snd (last out) < snd r then butlast out @ [(fst (last out), snd r)]
      else out)"

function union_loop :: "range_set \<Rightarrow> range_set \<Rightarrow> range_set \<Rightarrow> range_set" where
  "union_loop out (ra # a) (rb # b) =
     (if fst ra < fst rb then union_loop (union_add out ra) a (rb # b)
      else if fst rb < fst ra then union_loop (union_add out rb) (ra # a) b
      else if snd ra < snd rb then union_loop (union_add out ra) a (rb # b)
      else union_loop (union_add out rb) (ra # a) b)"
| "union_loop out (ra # a) [] = union_loop (union_add out ra) a []"
| "union_loop out [] (rb # b) = union_loop (union_add out rb) [] b"
| "union_loop out [] [] = out"
  by pat_completeness auto
termination by (relation "measure (\<lambda>(out, a, b). length a + length b)") auto

definition range_set_union :: "range_set \<Rightarrow> range_set \<Rightarrow> range_set" where
  "range_set_union a b = union_loop [] a b"

fun difference_range :: "nat \<Rightarrow> range_set \<Rightarrow> int \<Rightarrow> int \<Rightarrow> range_set \<Rightarrow> (cfault + range_set \<times> range_set) option" where
  "difference_range fuel out start end b =
     (if start < end then
        (case fuel of
           0 \<Rightarrow> None
         | Suc fuel \<Rightarrow>
             (let b = dropWhile (\<lambda>r. snd r \<le> start) b in
              case b of
                [] \<Rightarrow> Some (map_sum id (\<lambda>out. (out, b)) (range_set_append out start end))
              | rb # _ \<Rightarrow>
                  if end < fst rb then Some (map_sum id (\<lambda>out. (out, b)) (range_set_append out start end))
                  else if fst rb \<le> start then difference_range fuel out (snd rb) end b
                  else if fst rb < end then
                    (case (if start < fst rb then range_set_append out start (fst rb) else Inr out) of
                       Inl e \<Rightarrow> Some (Inl e)
                     | Inr out \<Rightarrow> difference_range fuel out (snd rb) end b)
                  else difference_range fuel out start end b))
      else Some (Inr (out, b)))"

declare difference_range.simps [simp del]

fun difference_loop :: "nat \<Rightarrow> range_set \<Rightarrow> range_set \<Rightarrow> range_set \<Rightarrow> (cfault + range_set) option" where
  "difference_loop fuel out [] b = Some (Inr out)"
| "difference_loop fuel out ((start, end) # a) b =
     (case difference_range fuel out start end b of
        None \<Rightarrow> None
      | Some (Inl e) \<Rightarrow> Some (Inl e)
      | Some (Inr (out, b)) \<Rightarrow> difference_loop fuel out a b)"

definition range_set_difference :: "nat \<Rightarrow> range_set \<Rightarrow> range_set \<Rightarrow> (cfault + range_set) option" where
  "range_set_difference fuel a b = difference_loop fuel [] a b"

section \<open>Diffs\<close>

record diff_ranges =
  dr_parent :: range_set
  dr_target :: range_set

definition collect_diff_cb :: "int \<Rightarrow> int \<Rightarrow> int \<Rightarrow> int \<Rightarrow> diff_ranges \<Rightarrow> cfault + diff_ranges" where
  "collect_diff_cb start_a count_a start_b count_b d =
     (case (if 0 \<le> count_a then range_set_append (dr_parent d) start_a (start_a + count_a) else Inr (dr_parent d)) of
        Inl e \<Rightarrow> Inl e
      | Inr parent \<Rightarrow>
          (case (if 0 \<le> count_b then range_set_append (dr_target d) start_b (start_b + count_b) else Inr (dr_target d)) of
             Inl e \<Rightarrow> Inl e
           | Inr target \<Rightarrow> Inr \<lparr>dr_parent = parent, dr_target = target\<rparr>))"

definition ranges_overlap :: "range \<Rightarrow> range \<Rightarrow> bool" where
  "ranges_overlap a b \<longleftrightarrow> \<not> (snd a \<le> fst b \<or> snd b \<le> fst a)"

text \<open>
  \<open>hunks\<close> pairs the ranges of both sides; \<open>rs\<close> is the part of the range set from index \<open>j\<close> on.
  Reading past its end at the start is undefined.
\<close>

fun filter_touched_loop :: "(range \<times> range) list \<Rightarrow> range_set \<Rightarrow> diff_ranges \<Rightarrow> cfault + diff_ranges" where
  "filter_touched_loop [] rs out = Inr out"
| "filter_touched_loop ((p, t) # hunks) [] out = Inl Undef"
| "filter_touched_loop ((p, t) # hunks) (r # rs) out =
     (let rest = dropWhile (\<lambda>r. snd r < fst t) (r # rs) in
      case rest of
        [] \<Rightarrow> Inr out
      | q # _ \<Rightarrow>
          if ranges_overlap t q then
            (case range_set_append (dr_parent out) (fst p) (snd p) of
               Inl e \<Rightarrow> Inl e
             | Inr parent \<Rightarrow>
                 (case range_set_append (dr_target out) (fst t) (snd t) of
                    Inl e \<Rightarrow> Inl e
                  | Inr target \<Rightarrow> filter_touched_loop hunks rest \<lparr>dr_parent = parent, dr_target = target\<rparr>))
          else filter_touched_loop hunks rest out)"

definition diff_ranges_filter_touched :: "diff_ranges \<Rightarrow> range_set \<Rightarrow> cfault + diff_ranges" where
  "diff_ranges_filter_touched diff rs =
     filter_touched_loop (zip (dr_parent diff) (dr_target diff)) rs \<lparr>dr_parent = [], dr_target = []\<rparr>"

fun shift_skip :: "int \<Rightarrow> (range \<times> range) list \<Rightarrow> int \<Rightarrow> int \<times> (range \<times> range) list" where
  "shift_skip start ((p, t) # hunks) offset =
     (if fst t \<le> start then shift_skip start hunks (offset + ((snd p - fst p) - (snd t - fst t)))
      else (offset, (p, t) # hunks))"
| "shift_skip start [] offset = (offset, [])"

fun shift_diff_loop :: "range_set \<Rightarrow> range_set \<Rightarrow> (range \<times> range) list \<Rightarrow> int \<Rightarrow> cfault + range_set" where
  "shift_diff_loop out [] hunks offset = Inr out"
| "shift_diff_loop out ((s, e) # rs) hunks offset =
     (let (offset, hunks) = shift_skip s hunks offset in
      case range_set_append out (s + offset) (e + offset) of
        Inl err \<Rightarrow> Inl err
      | Inr out \<Rightarrow> shift_diff_loop out rs hunks offset)"

definition range_set_shift_diff :: "range_set \<Rightarrow> diff_ranges \<Rightarrow> cfault + range_set" where
  "range_set_shift_diff rs diff = shift_diff_loop [] rs (zip (dr_parent diff) (dr_target diff)) 0"

definition range_set_map_across_diff ::
  "nat \<Rightarrow> range_set \<Rightarrow> diff_ranges \<Rightarrow> (cfault + range_set \<times> diff_ranges) option" where
  "range_set_map_across_diff fuel rs diff =
     (case diff_ranges_filter_touched diff rs of
        Inl e \<Rightarrow> Some (Inl e)
      | Inr touched \<Rightarrow>
          (case range_set_difference fuel rs (dr_target touched) of
             None \<Rightarrow> None
           | Some (Inl e) \<Rightarrow> Some (Inl e)
           | Some (Inr tmp1) \<Rightarrow>
               (case range_set_shift_diff tmp1 diff of
                  Inl e \<Rightarrow> Some (Inl e)
                | Inr tmp2 \<Rightarrow> Some (Inr (range_set_union tmp2 (dr_parent touched), touched)))))"

section \<open>Ranges per file\<close>

type_synonym line_log_data = "(bytes \<times> range_set) list"

fun search_line_log_data :: "line_log_data \<Rightarrow> bytes \<Rightarrow> nat \<Rightarrow> nat option \<Rightarrow> nat option \<times> nat option" where
  "search_line_log_data [] path i ip = (None, ip)"
| "search_line_log_data ((q, rs) # list) path i ip =
     (let cmp = strcmp q path in
      if cmp = 0 then (Some i, ip)
      else search_line_log_data list path (i + 1) (if cmp < 0 then Some i else ip))"

definition line_log_data_insert :: "line_log_data \<Rightarrow> bytes \<Rightarrow> int \<Rightarrow> int \<Rightarrow> cfault + line_log_data" where
  "line_log_data_insert list path start end =
     (case search_line_log_data list path 0 None of
        (Some i, _) \<Rightarrow>
          map_sum id (\<lambda>rs. list[i := (fst (list ! i), rs)]) (range_set_append_unsafe (snd (list ! i)) start end)
      | (None, ip) \<Rightarrow>
          map_sum id
            (\<lambda>rs. case ip of
                    Some i \<Rightarrow> take (i + 1) list @ (path, rs) # drop (i + 1) list
                  | None \<Rightarrow> (path, rs) # list)
            (range_set_append [] start end))"

function line_log_data_merge :: "line_log_data \<Rightarrow> line_log_data \<Rightarrow> line_log_data" where
  "line_log_data_merge ((pa, ra) # a) ((pb, rb) # b) =
     (let cmp = strcmp pa pb in
      if cmp < 0 then (pa, ra) # line_log_data_merge a ((pb, rb) # b)
      else if cmp = 0 then (pa, range_set_union ra rb) # line_log_data_merge a b
      else (pb, rb) # line_log_data_merge ((pa, ra) # a) b)"
| "line_log_data_merge a [] = a"
| "line_log_data_merge [] (v # b) = v # b"
  by pat_completeness auto
termination by (relation "measure (\<lambda>(a, b). length a + length b)") auto

section \<open>Sets of lines\<close>

definition lines :: "range_set \<Rightarrow> int set" where
  "lines rs = (\<Union>(s, e) \<in> set rs. {s..<e})"

lemma lines_simps [simp]:
  "lines [] = {}" "lines (r # rs) = {fst r..<snd r} \<union> lines rs" "lines (a @ b) = lines a \<union> lines b"
  by (auto simp: lines_def)

text \<open>The canonical form that \<open>range_set_check_invariants\<close> asserts.\<close>

definition canonical :: "range_set \<Rightarrow> bool" where
  "canonical rs \<longleftrightarrow> sorted_wrt (\<lambda>r s. snd r < fst s) rs \<and> (\<forall>r \<in> set rs. fst r < snd r)"

lemma canonical_Cons: "canonical (r # rs) \<longleftrightarrow> fst r < snd r \<and> (\<forall>s \<in> set rs. snd r < fst s) \<and> canonical rs"
  by (auto simp: canonical_def)

lemma canonical_snoc: "canonical (rs @ [r]) \<longleftrightarrow> fst r < snd r \<and> (\<forall>s \<in> set rs. snd s < fst r) \<and> canonical rs"
  by (auto simp: canonical_def sorted_wrt_append)

lemma check_invariants_canonical: "range_set_check_invariants rs \<longleftrightarrow> canonical rs"
proof -
  have rest: "fst r < snd r \<Longrightarrow> range_set_check_rest (r # rs) \<longleftrightarrow> canonical (r # rs)" for r rs
  proof (induction rs arbitrary: r)
    case (Cons s rs)
    show ?case
    proof (cases "snd r < fst s \<and> fst s < snd s")
      case True
      then have "\<forall>t \<in> set (s # rs). snd r < fst t" if "canonical (s # rs)"
        using that by (auto simp: canonical_Cons)
      with True Cons show ?thesis by (auto simp: canonical_Cons)
    qed (auto simp: canonical_Cons)
  qed (simp add: canonical_def)
  show ?thesis
  proof (cases rs)
    case (Cons r rs')
    with rest [of r rs'] canonical_Cons [of r rs'] show ?thesis by (auto simp: range_set_check_invariants_def)
  qed (simp add: range_set_check_invariants_def canonical_def)
qed

section \<open>Merging and union\<close>

definition ordered :: "range_set \<Rightarrow> bool" where
  "ordered rs \<longleftrightarrow> sorted_wrt (\<lambda>r s. snd r \<le> fst s) rs \<and> (\<forall>r \<in> set rs. fst r \<le> snd r)"

lemma ordered_Cons: "ordered (r # rs) \<longleftrightarrow> fst r \<le> snd r \<and> (\<forall>s \<in> set rs. snd r \<le> fst s) \<and> ordered rs"
  by (auto simp: ordered_def)


definition by_start :: "range_set \<Rightarrow> bool" where
  "by_start rs \<longleftrightarrow> sorted_wrt (\<lambda>r s. fst r \<le> fst s) rs \<and> (\<forall>r \<in> set rs. fst r \<le> snd r)"

lemma by_start_Cons: "by_start (r # rs) \<longleftrightarrow> fst r \<le> snd r \<and> (\<forall>s \<in> set rs. fst r \<le> fst s) \<and> by_start rs"
  by (auto simp: by_start_def)

lemma ordered_by_start: "ordered rs \<Longrightarrow> by_start rs"
proof (induction rs)
  case (Cons r rs)
  then show ?case by (force simp: ordered_Cons by_start_Cons)
qed (simp add: by_start_def)

lemma union_add_spec:
  assumes "canonical out" and "fst r \<le> snd r" and "\<forall>q \<in> set out. fst q \<le> fst r"
  shows "canonical (union_add out r)" and "lines (union_add out r) = lines out \<union> {fst r..<snd r}"
    and "\<forall>q \<in> set (union_add out r). fst q \<le> fst r" and "length (union_add out r) \<le> Suc (length out)"
proof -
  have "canonical (union_add out r) \<and> lines (union_add out r) = lines out \<union> {fst r..<snd r} \<and>
    (\<forall>q \<in> set (union_add out r). fst q \<le> fst r) \<and> length (union_add out r) \<le> Suc (length out)"
  proof (cases out rule: rev_cases)
    case Nil
    with assms(2) show ?thesis by (auto simp: union_add_def canonical_def)
  next
    case (snoc init l)
    have init: "\<forall>q \<in> set init. snd q < fst l" "fst l < snd l" "canonical init" "fst l \<le> fst r"
      using assms snoc by (auto simp: canonical_snoc)
    consider "fst r = snd r" | "fst r \<noteq> snd r" "snd l < fst r" | "fst r \<noteq> snd r" "\<not> snd l < fst r" "snd l < snd r"
      | "fst r \<noteq> snd r" "\<not> snd l < fst r" "\<not> snd l < snd r" by blast
    then show ?thesis
    proof cases
      case 2
      then have "union_add out r = out @ [r]" using snoc by (simp add: union_add_def)
      moreover have "\<forall>s \<in> set out. snd s < fst r" using init 2 snoc by auto
      ultimately show ?thesis using 2 assms by (auto simp: canonical_snoc)
    next
      case 3
      then have "union_add out r = init @ [(fst l, snd r)]" using snoc by (simp add: union_add_def)
      then show ?thesis using 3 init assms snoc by (auto simp: canonical_snoc)
    next
      case 4
      then have "union_add out r = out" using snoc by (simp add: union_add_def)
      with 4 init assms snoc show ?thesis by auto
    qed (use assms in \<open>auto simp: union_add_def\<close>)
  qed
  then show "canonical (union_add out r)" and "lines (union_add out r) = lines out \<union> {fst r..<snd r}"
    and "\<forall>q \<in> set (union_add out r). fst q \<le> fst r" and "length (union_add out r) \<le> Suc (length out)" by auto
qed

lemma merge_ranges_foldl: "merge_ranges_loop out rs = foldl union_add out rs"
  by (induction out rs rule: merge_ranges_loop.induct) (auto simp: union_add_def)

lemma foldl_union_add:
  assumes "canonical out" and "by_start rs" and "\<forall>q \<in> set out. \<forall>r \<in> set rs. fst q \<le> fst r"
  shows "canonical (foldl union_add out rs) \<and> lines (foldl union_add out rs) = lines out \<union> lines rs \<and>
    length (foldl union_add out rs) \<le> length out + length rs"
  using assms
proof (induction rs arbitrary: out)
  case (Cons r rs)
  have r: "fst r \<le> snd r" "\<forall>q \<in> set out. fst q \<le> fst r" "by_start rs" "\<forall>s \<in> set rs. fst r \<le> fst s"
    using Cons.prems by (auto simp: by_start_Cons)
  note u = union_add_spec [OF Cons.prems(1) r(1,2)]
  have "\<forall>q \<in> set (union_add out r). \<forall>s \<in> set rs. fst q \<le> fst s" using u(3) r(4) by force
  from Cons.IH [OF u(1) r(3) this] u(2,4) show ?case by auto
qed simp

lemma union_loop_foldl:
  assumes "by_start a" and "by_start b"
  shows "\<exists>rs. union_loop out a b = foldl union_add out rs \<and> by_start rs \<and> set rs = set a \<union> set b"
  using assms
proof (induction out a b rule: union_loop.induct)
  case (1 out ra a rb b)
  have step: ?case if "union_loop out (ra # a) (rb # b) = union_loop (union_add out r) a' b'"
    "set (ra # a) \<union> set (rb # b) = insert r (set a' \<union> set b')" "\<forall>s \<in> set a' \<union> set b'. fst r \<le> fst s" "fst r \<le> snd r"
    "\<exists>rs. union_loop (union_add out r) a' b' = foldl union_add (union_add out r) rs \<and> by_start rs \<and> set rs = set a' \<union> set b'"
    for r a' b'
  proof -
    from that(5) obtain rs where "union_loop (union_add out r) a' b' = foldl union_add (union_add out r) rs"
      "by_start rs" "set rs = set a' \<union> set b'" by blast
    with that(1-4) show ?thesis by (intro exI [of _ "r # rs"]) (simp add: by_start_Cons)
  qed
  have ab: "fst ra \<le> snd ra" "by_start a" "\<forall>s \<in> set a. fst ra \<le> fst s"
    "fst rb \<le> snd rb" "by_start b" "\<forall>s \<in> set b. fst rb \<le> fst s" using "1.prems" by (auto simp: by_start_Cons)
  consider "fst ra < fst rb" | "\<not> fst ra < fst rb" "fst rb < fst ra"
    | "\<not> fst ra < fst rb" "\<not> fst rb < fst ra" "snd ra < snd rb"
    | "\<not> fst ra < fst rb" "\<not> fst rb < fst ra" "\<not> snd ra < snd rb" by blast
  then show ?case
  proof cases
    case 1
    show ?thesis by (rule step [of ra a "rb # b"]) (use 1 "1.IH"(1) "1.prems" ab in force)+
  next
    case 2
    show ?thesis by (rule step [of rb "ra # a" b]) (use 2 "1.IH"(2) "1.prems" ab in force)+
  next
    case 3
    show ?thesis by (rule step [of ra a "rb # b"]) (use 3 "1.IH"(3) "1.prems" ab in force)+
  next
    case 4
    show ?thesis by (rule step [of rb "ra # a" b]) (use 4 "1.IH"(4) "1.prems" ab in force)+
  qed
next
  case (2 out ra a)
  then obtain rs where "union_loop (union_add out ra) a [] = foldl union_add (union_add out ra) rs"
    "by_start rs" "set rs = set a" by (auto simp: by_start_Cons)
  with 2 show ?case by (intro exI [of _ "ra # rs"]) (simp add: by_start_Cons)
next
  case (3 out rb b)
  then obtain rs where "union_loop (union_add out rb) [] b = foldl union_add (union_add out rb) rs"
    "by_start rs" "set rs = set b" by (auto simp: by_start_Cons)
  with 3 show ?case by (intro exI [of _ "rb # rs"]) (simp add: by_start_Cons)
next
  case (4 out)
  then show ?case by (intro exI [of _ "[]"]) simp
qed

lemma range_set_union_spec:
  assumes "by_start a" and "by_start b"
  shows "canonical (range_set_union a b)" and "lines (range_set_union a b) = lines a \<union> lines b"
proof -
  obtain rs where rs: "union_loop [] a b = foldl union_add [] rs" "by_start rs" "set rs = set a \<union> set b"
    using union_loop_foldl [OF assms] by blast
  from foldl_union_add [OF _ rs(2), of "[]"] rs(1)
  have "canonical (range_set_union a b)" "lines (range_set_union a b) = lines rs"
    by (simp_all add: range_set_union_def canonical_def)
  with rs(3) show "canonical (range_set_union a b)" and "lines (range_set_union a b) = lines a \<union> lines b"
    by (auto simp: lines_def)
qed

interpretation range_cmp: comparison range_cmp
  by unfold_locales (auto simp: range_cmp_def split: if_splits)

lemma range_cmp_le: "range_cmp r s \<le> 0 \<longleftrightarrow> fst r \<le> fst s"
  by (auto simp: range_cmp_def)

section \<open>Difference\<close>

lemma range_set_append_ok:
  assumes "ordered out" and "\<forall>q \<in> set out. snd q \<le> a" and "a \<le> b"
  shows "range_set_append out a b = Inr (out @ [(a, b)])" and "ordered (out @ [(a, b)])"
proof -
  have "out = [] \<or> snd (last out) \<le> a" using assms(2) by (cases out rule: rev_cases) auto
  then show "range_set_append out a b = Inr (out @ [(a, b)])" and "ordered (out @ [(a, b)])"
    using assms by (auto simp: range_set_append_def range_set_append_unsafe_def ordered_def sorted_wrt_append)
qed

text \<open>What is left of \<open>b\<close> once the lines before \<open>start\<close> are done with.\<close>

definition pending :: "int \<Rightarrow> range_set \<Rightarrow> nat" where
  "pending start b = length (filter (\<lambda>r. start < snd r) b)"

lemma pending_le: "pending start b \<le> length b"
  by (simp add: pending_def)

lemma pending_less: "rb \<in> set b \<Longrightarrow> start < snd rb \<Longrightarrow> pending (snd rb) b < pending start b"
proof (induction b)
  case (Cons r b)
  have "pending (snd rb) b \<le> pending start b" for b
    using Cons.prems(2) by (induction b) (auto simp: pending_def)
  with Cons show ?case by (fastforce simp: pending_def less_Suc_eq_le)
qed simp

lemma pending_drop: "pending start (dropWhile (\<lambda>r. snd r \<le> start) b) = pending start b"
  by (induction b) (auto simp: pending_def)

lemma lines_ordered_ge: "ordered (r # rs) \<Longrightarrow> x \<in> lines (r # rs) \<Longrightarrow> fst r \<le> x"
  by (fastforce simp: ordered_Cons lines_def)

definition split_before :: "range_set \<Rightarrow> int \<Rightarrow> range_set \<Rightarrow> bool" where
  "split_before b x b' \<longleftrightarrow> (\<exists>pre. b = pre @ b' \<and> (\<forall>r \<in> set pre. snd r \<le> x))"

lemma split_before_refl [simp]: "split_before b x b"
  by (simp add: split_before_def)

lemma split_before_trans: "split_before b x b' \<Longrightarrow> split_before b' y b'' \<Longrightarrow> x \<le> z \<Longrightarrow> y \<le> z \<Longrightarrow> split_before b z b''"
proof -
  assume le: "x \<le> z" "y \<le> z" and "split_before b x b'" "split_before b' y b''"
  then obtain p q where "b = (p @ q) @ b''" "\<forall>r \<in> set p. snd r \<le> x" "\<forall>r \<in> set q. snd r \<le> y"
    by (auto simp: split_before_def)
  with le show ?thesis unfolding split_before_def by (intro exI [of _ "p @ q"]) auto
qed

lemma split_before_drop: "split_before b x (dropWhile (\<lambda>r. snd r \<le> x) b)"
  unfolding split_before_def by (rule exI [of _ "takeWhile (\<lambda>r. snd r \<le> x) b"]) (auto dest: set_takeWhileD)

lemma split_before_lines: "split_before b x b' \<Longrightarrow> x \<le> y \<Longrightarrow> lines b \<inter> {y..} = lines b' \<inter> {y..}"
  by (force simp: split_before_def lines_def)

lemma split_before_diff: "split_before b x b' \<Longrightarrow> x \<le> y \<Longrightarrow> {y..<z} - lines b = {y..<z} - lines b'"
proof -
  assume "split_before b x b'" "x \<le> y"
  then have "lines b \<inter> {y..} = lines b' \<inter> {y..}" by (rule split_before_lines)
  then have "v \<in> lines b \<longleftrightarrow> v \<in> lines b'" if "y \<le> v" for v using that by blast
  then show ?thesis by fastforce
qed

lemma split_before_ordered: "split_before b x b' \<Longrightarrow> ordered b \<Longrightarrow> ordered b'"
  by (auto simp: split_before_def ordered_def sorted_wrt_append)

lemma split_before_set: "split_before b x b' \<Longrightarrow> set b' \<subseteq> set b"
  by (auto simp: split_before_def)

definition difference_post :: "range_set \<Rightarrow> int \<Rightarrow> int \<Rightarrow> range_set \<Rightarrow> (cfault + range_set \<times> range_set) option \<Rightarrow> bool" where
  "difference_post out x y b res \<longleftrightarrow>
     (\<exists>out' b'. res = Some (Inr (out', b')) \<and> ordered out' \<and> (\<forall>q \<in> set out'. q \<in> set out \<or> snd q \<le> y) \<and>
        lines out' = lines out \<union> ({x..<y} - lines b) \<and> split_before b y b')"

lemma difference_range_drop:
  assumes "start < end"
  shows "difference_range (Suc fuel) out start end b =
    (case dropWhile (\<lambda>r. snd r \<le> start) b of
       [] \<Rightarrow> Some (map_sum id (\<lambda>out. (out, [])) (range_set_append out start end))
     | rb # b' \<Rightarrow>
         if end < fst rb then Some (map_sum id (\<lambda>out. (out, rb # b')) (range_set_append out start end))
         else if fst rb \<le> start then difference_range fuel out (snd rb) end (rb # b')
         else if fst rb < end then
           (case range_set_append out start (fst rb) of
              Inl e \<Rightarrow> Some (Inl e)
            | Inr out \<Rightarrow> difference_range fuel out (snd rb) end (rb # b'))
         else difference_range fuel out start end (rb # b'))"
proof (cases "dropWhile (\<lambda>r. snd r \<le> start) b")
  case Nil
  with assms show ?thesis
    by (subst difference_range.simps) (simp add: Let_def del: dropWhile_eq_Nil_conv)
next
  case (Cons rb b')
  with assms show ?thesis by (subst difference_range.simps) (simp add: Let_def not_le split: sum.split)
qed

lemma difference_postI:
  assumes "ordered out'" and "\<forall>q \<in> set out'. q \<in> set out \<or> snd q \<le> y"
    and "lines out' = lines out \<union> ({x..<y} - lines b)" and "split_before b y b'"
  shows "difference_post out x y b (Some (Inr (out', b')))"
  using assms by (auto simp: difference_post_def)

lemma difference_post_weaken:
  assumes "difference_post out1 x1 y b1 res"
    and "\<forall>q \<in> set out1. q \<in> set out \<or> snd q \<le> y" and "split_before b y b1"
    and "lines out1 \<union> ({x1..<y} - lines b1) = lines out \<union> ({x..<y} - lines b)"
  shows "difference_post out x y b res"
proof -
  obtain out' b' where res: "res = Some (Inr (out', b'))" "ordered out'"
    "\<forall>q \<in> set out'. q \<in> set out1 \<or> snd q \<le> y" "lines out' = lines out1 \<union> ({x1..<y} - lines b1)"
    "split_before b1 y b'" using assms(1) by (auto simp: difference_post_def)
  show ?thesis unfolding res(1)
    by (rule difference_postI) (use res assms split_before_trans [OF assms(3) res(5)] in auto)
qed

lemma difference_range_spec:
  assumes "pending start b < fuel" and "ordered b" and "\<forall>r \<in> set b. fst r \<noteq> end"
    and "ordered out" and "\<forall>q \<in> set out. snd q \<le> start"
  shows "difference_post out start end b (difference_range fuel out start end b)"
  using assms
proof (induction fuel arbitrary: out start b)
  case (Suc fuel)
  define bd where "bd = dropWhile (\<lambda>r. snd r \<le> start) b"
  have bd: "split_before b start bd" "ordered bd" "pending start bd = pending start b" "\<forall>r \<in> set bd. fst r \<noteq> end"
    unfolding bd_def using split_before_drop pending_drop split_before_ordered [OF split_before_drop Suc.prems(2)]
      split_before_set [OF split_before_drop] Suc.prems(3) by blast+
  show ?case
  proof (cases "start < end")
    case False
    then have "difference_range (Suc fuel) out start end b = Some (Inr (out, b))"
      by (simp add: difference_range.simps)
    with False Suc.prems show ?thesis by (auto intro!: difference_postI)
  next
    case True
    note app = range_set_append_ok [OF Suc.prems(4,5)]
    note run = difference_range_drop [OF True, of fuel out b, folded bd_def]
    have sp: "split_before b end bd" by (rule split_before_trans [OF bd(1) split_before_refl [of bd "end"]]) (use True in auto)
    note L = split_before_diff [OF bd(1) order_refl, of "end"]
    show ?thesis
    proof (cases bd)
      case Nil
      with run app [of "end"] True have eq: "difference_range (Suc fuel) out start end b = Some (Inr (out @ [(start, end)], bd))"
        by simp
      show ?thesis unfolding eq using app(2) [of "end"] True sp by (intro difference_postI) (simp_all add: L Nil)
    next
      case (Cons rb b')
      have rb: "start < snd rb" using hd_dropWhile [of "\<lambda>r. snd r \<le> start" b] Cons unfolding bd_def [symmetric] by auto
      have fuel: "pending (snd rb) bd < fuel" using pending_less [of rb bd start] rb Cons bd(3) Suc.prems(1) by auto
      have ge: "fst rb \<le> x" if "x \<in> lines bd" for x using lines_ordered_ge bd(2) that Cons by blast
      have rble: "fst rb \<le> snd rb" "fst rb \<noteq> end" using bd(2,4) Cons by (auto simp: ordered_Cons)
      consider "end < fst rb" | "fst rb \<le> start" | "start < fst rb" "fst rb < end" using rble by linarith
      then show ?thesis
      proof cases
        case 1
        with run app [of "end"] True Cons
        have eq: "difference_range (Suc fuel) out start end b = Some (Inr (out @ [(start, end)], bd))" by simp
        have "{start..<end} - lines bd = {start..<end}" using ge 1 by fastforce
        then show ?thesis unfolding eq using app(2) [of "end"] True sp by (intro difference_postI) (simp_all add: L)
      next
        case 2
        then have "difference_range (Suc fuel) out start end b = difference_range fuel out (snd rb) end bd"
          using run Cons True by simp
        moreover have "difference_post out (snd rb) end bd (difference_range fuel out (snd rb) end bd)"
          using Suc.IH [OF fuel bd(2,4) Suc.prems(4)] Suc.prems(5) rb by force
        moreover have "{snd rb..<end} - lines bd = {start..<end} - lines bd" using 2 rb Cons by auto
        ultimately show ?thesis using sp by (simp add: L difference_post_weaken)
      next
        case 3
        then have "difference_range (Suc fuel) out start end b =
          difference_range fuel (out @ [(start, fst rb)]) (snd rb) end bd"
          using run Cons True app(1) [of "fst rb"] by simp
        moreover have "difference_post (out @ [(start, fst rb)]) (snd rb) end bd
          (difference_range fuel (out @ [(start, fst rb)]) (snd rb) end bd)"
          by (rule Suc.IH [OF fuel bd(2,4)]) (use Suc.prems(5) rb rble 3 app(2) [of "fst rb"] in force)+
        moreover have "lines (out @ [(start, fst rb)]) \<union> ({snd rb..<end} - lines bd) =
          lines out \<union> ({start..<end} - lines b)" unfolding L using 3 rb Cons ge by force
        ultimately show ?thesis using sp 3 by (simp add: difference_post_weaken)
      qed
    qed
  qed
qed simp

lemma difference_loop_spec:
  assumes "length b < fuel" and "ordered a" and "ordered b" and "\<forall>r \<in> set a. \<forall>t \<in> set b. fst t \<noteq> snd r"
    and "ordered out" and "\<forall>q \<in> set out. \<forall>r \<in> set a. snd q \<le> fst r"
  shows "\<exists>out'. difference_loop fuel out a b = Some (Inr out') \<and> ordered out' \<and>
    lines out' = lines out \<union> (lines a - lines b)"
  using assms
proof (induction a arbitrary: out b)
  case (Cons r a)
  obtain s e where r: "r = (s, e)" by (cases r)
  have "difference_post out s e b (difference_range fuel out s e b)"
    by (rule difference_range_spec)
      (use Cons.prems pending_le [of s b] in \<open>auto simp: r ordered_Cons\<close>)
  then obtain out1 b1 where run: "difference_range fuel out s e b = Some (Inr (out1, b1))"
    and o1: "ordered out1" "\<forall>q \<in> set out1. q \<in> set out \<or> snd q \<le> e" "lines out1 = lines out \<union> ({s..<e} - lines b)"
    and b1: "split_before b e b1" by (auto simp: difference_post_def)
  have a: "ordered a" "\<forall>r \<in> set a. e \<le> fst r" using Cons.prems(2) by (auto simp: r ordered_Cons)
  have "length b1 \<le> length b" using b1 by (auto simp: split_before_def)
  moreover have "\<forall>r \<in> set a. \<forall>t \<in> set b1. fst t \<noteq> snd r" using split_before_set [OF b1] Cons.prems(4) by auto
  moreover have "\<forall>q \<in> set out1. \<forall>r \<in> set a. snd q \<le> fst r" using o1(2) a(2) Cons.prems(6) by force
  ultimately obtain out' where out': "difference_loop fuel out1 a b1 = Some (Inr out')" "ordered out'"
    "lines out' = lines out1 \<union> (lines a - lines b1)"
    using Cons.IH [of b1 out1] Cons.prems a(1) o1(1) split_before_ordered [OF b1] by auto
  have "x \<in> lines b \<longleftrightarrow> x \<in> lines b1" if "x \<in> lines a" for x
  proof -
    have "e \<le> x" using that a(2) by (fastforce simp: lines_def)
    then show ?thesis using split_before_lines [OF b1 order_refl] by blast
  qed
  then have "lines a - lines b1 = lines a - lines b" by blast
  then have "lines out' = lines out \<union> (lines (r # a) - lines b)"
    unfolding out'(3) o1(3) by (simp add: r Un_Diff Un_assoc)
  then show ?case using run out' by (simp add: r)
qed simp

lemma difference_range_stuck:
  assumes "start < fst rb" and "fst rb \<le> snd rb"
  shows "difference_range fuel out start (fst rb) (rb # b) = None"
proof (induction fuel)
  case 0
  show ?case using assms by (simp add: difference_range.simps)
next
  case (Suc fuel)
  have "dropWhile (\<lambda>r. snd r \<le> start) (rb # b) = rb # b" using assms by simp
  then show ?case using assms Suc by (simp add: difference_range_drop [OF assms(1)] del: dropWhile.simps)
qed

section \<open>The hunks that touch a range\<close>


lemma filter_touched_first:
  assumes "canonical rs" and "dropWhile (\<lambda>r. snd r < fst t) rs = q # rest" and "fst t < snd q"
  shows "\<forall>r \<in> set rs. snd r \<noteq> fst t" and "(\<exists>r \<in> set rs. ranges_overlap t r) \<longleftrightarrow> ranges_overlap t q"
proof -
  define pre where "pre = takeWhile (\<lambda>r. snd r < fst t) rs"
  have rs: "rs = pre @ q # rest" unfolding pre_def by (metis assms(2) takeWhile_dropWhile_id)
  have pre: "\<forall>r \<in> set pre. snd r < fst t" unfolding pre_def by (auto dest: set_takeWhileD)
  have rest: "fst q < snd q" "\<forall>r \<in> set rest. snd q < fst r \<and> fst r < snd r"
    using assms(1) rs by (auto simp: canonical_def sorted_wrt_append)
  show "\<forall>r \<in> set rs. snd r \<noteq> fst t" using rs pre rest assms(3) by fastforce
  show "(\<exists>r \<in> set rs. ranges_overlap t r) \<longleftrightarrow> ranges_overlap t q"
    using rs pre rest assms(3) by (fastforce simp: ranges_overlap_def)
qed

lemma canonical_dropWhile: "canonical rs \<Longrightarrow> canonical (dropWhile P rs)"
  by (induction rs) (auto simp: canonical_Cons)

lemma dropWhile_before: "r \<in> set rs \<Longrightarrow> r \<in> set (dropWhile (\<lambda>r. snd r < v) rs) \<or> snd r < (v :: int)"
  by (induction rs) (auto split: if_splits)




lemma ordered_append: "ordered (a @ b) \<longleftrightarrow> ordered a \<and> ordered b \<and> (\<forall>r \<in> set a. \<forall>s \<in> set b. snd r \<le> fst s)"
  by (auto simp: ordered_def sorted_wrt_append)

lemma filter_touched_exact:
  assumes "canonical rs" and "rs \<noteq> []" and "\<forall>t \<in> snd ` set hunks. \<forall>r \<in> set rs. snd r \<noteq> fst t"
    and "ordered (dr_parent out @ map fst hunks)" and "ordered (dr_target out @ map snd hunks)"
  shows "filter_touched_loop hunks rs out =
    Inr \<lparr>dr_parent = dr_parent out @ map fst (filter (\<lambda>h. \<exists>r \<in> set rs. ranges_overlap (snd h) r) hunks),
         dr_target = dr_target out @ map snd (filter (\<lambda>h. \<exists>r \<in> set rs. ranges_overlap (snd h) r) hunks)\<rparr>"
  using assms
proof (induction hunks rs out rule: filter_touched_loop.induct)
  case (3 p t hunks r rs out)
  define rest where "rest = dropWhile (\<lambda>r. snd r < fst t) (r # rs)"
  have rest: "canonical rest" unfolding rest_def by (rule canonical_dropWhile [OF "3.prems"(1)])
  have hunks: "\<forall>h \<in> set hunks. fst t \<le> fst (snd h)"
    using ordered_by_start [of "t # map snd hunks"] "3.prems"(5) by (auto simp: ordered_append by_start_Cons)
  have sub: "set rest \<subseteq> set (r # rs)" unfolding rest_def using set_dropWhileD by fast
  have same: "(\<exists>x \<in> set (r # rs). ranges_overlap (snd h) x) \<longleftrightarrow> (\<exists>x \<in> set rest. ranges_overlap (snd h) x)"
    if "fst t \<le> fst (snd h)" for h
  proof
    assume "\<exists>x \<in> set (r # rs). ranges_overlap (snd h) x"
    then obtain x where x: "x \<in> set (r # rs)" "ranges_overlap (snd h) x" by blast
    with that have "\<not> snd x < fst t" by (simp add: ranges_overlap_def)
    with dropWhile_before [OF x(1), of "fst t"] x(2) show "\<exists>x \<in> set rest. ranges_overlap (snd h) x"
      unfolding rest_def by blast
  qed (use sub in blast)
  have same_hunks: "filter (\<lambda>h. \<exists>x \<in> set (r # rs). ranges_overlap (snd h) x) hunks =
    filter (\<lambda>h. \<exists>x \<in> set rest. ranges_overlap (snd h) x) hunks"
    by (rule filter_cong [OF refl]) (use same hunks in blast)
  have ends: "\<forall>t \<in> snd ` set hunks. \<forall>r \<in> set rest. snd r \<noteq> fst t" "\<forall>r \<in> set rest. snd r \<noteq> fst t"
    using "3.prems"(3) sub by (simp_all del: set_simps) force+
  show ?case
  proof (cases rest)
    case Nil
    have "\<not> (\<exists>x \<in> set (r # rs). ranges_overlap t x)" using same [of "(p, t)"] Nil by simp
    moreover have "filter (\<lambda>h. \<exists>x \<in> set (r # rs). ranges_overlap (snd h) x) hunks = []" unfolding same_hunks Nil by simp
    ultimately have "filter (\<lambda>h. \<exists>x \<in> set (r # rs). ranges_overlap (snd h) x) ((p, t) # hunks) = []"
      by (simp del: set_simps)
    with Nil show ?thesis by (simp add: rest_def [symmetric] Let_def del: dropWhile.simps filter.simps)
  next
    case (Cons q rest')
    have "snd q \<noteq> fst t" using ends(2) Cons by simp
    then have "fst t < snd q" using hd_dropWhile [of "\<lambda>r. snd r < fst t" "r # rs"] Cons unfolding rest_def [symmetric] by auto
    note first = filter_touched_first(2) [OF "3.prems"(1) Cons [unfolded rest_def] this]
    show ?thesis
    proof (cases "ranges_overlap t q")
      case True
      have app: "range_set_append (dr_parent out) (fst p) (snd p) = Inr (dr_parent out @ [p])"
        "range_set_append (dr_target out) (fst t) (snd t) = Inr (dr_target out @ [t])"
        using range_set_append_ok(1) "3.prems"(4,5) by (simp_all add: ordered_append ordered_Cons)
      show ?thesis
        using "3.IH"(1) [OF rest_def Cons True app rest _ ends(1)] "3.prems"(4,5) True first same_hunks Cons app
        by (simp add: rest_def [symmetric] Let_def del: dropWhile.simps set_simps)
    next
      case False
      have ord: "ordered (dr_parent out @ map fst hunks)" "ordered (dr_target out @ map snd hunks)"
        using "3.prems"(4,5) by (simp_all add: ordered_append ordered_Cons)
      show ?thesis using "3.IH"(2) [OF rest_def Cons False rest _ ends(1) ord] False first same_hunks Cons
        by (simp add: rest_def [symmetric] Let_def del: dropWhile.simps set_simps)
    qed
  qed
qed auto

section \<open>Properties\<close>

text \<open>
  C31: Sorting and merging.  Whatever order \<open>qsort\<close> gives to ranges with equal starts, the assertions
  of \<open>sort_and_merge_range_set\<close> hold, and the result is canonical and holds the same lines.
\<close>

theorem sort_and_merge_range_set_correct:
  assumes "mset (qsort rs) = mset rs" and "sorted_wrt (\<lambda>r s. range_cmp r s \<le> 0) (qsort rs)"
    and "\<forall>r \<in> set rs. fst r \<le> snd r"
  shows "\<exists>out. sort_and_merge_range_set qsort rs = Inr out \<and> range_set_check_invariants out \<and> lines out = lines rs"
proof -
  have set: "set (qsort rs) = set rs" "length (qsort rs) = length rs"
    using assms(1) by (metis set_mset_mset, metis size_mset)
  then have "by_start (qsort rs)" using assms(2,3) by (simp add: by_start_def range_cmp_le)
  from foldl_union_add [OF _ this, of "[]"] set show ?thesis
    by (auto simp: sort_and_merge_range_set_def merge_ranges_foldl check_invariants_canonical canonical_def lines_def Let_def)
qed

theorem sort_and_merge_range_set_correct_witness:
  "\<exists>out. sort_and_merge_range_set (cisort range_cmp) [(5, 8), (1, 3), (2, 4), (9, 9)] = Inr out \<and>
     range_set_check_invariants out \<and> lines out = lines [(5, 8), (1, 3), (2, 4), (9, 9)]"
  by (rule sort_and_merge_range_set_correct) (simp_all add: range_cmp_def)

text \<open>
  C30: Union.  For two sets of ranges in the order of their starts, which may overlap or touch,
  \<open>range_set_union\<close> returns the canonical set of the lines in either.
\<close>

theorem range_set_union_correct:
  assumes "sorted_wrt (\<lambda>r s. fst r \<le> fst s) a" and "\<forall>r \<in> set a. fst r \<le> snd r"
    and "sorted_wrt (\<lambda>r s. fst r \<le> fst s) b" and "\<forall>r \<in> set b. fst r \<le> snd r"
  shows "range_set_check_invariants (range_set_union a b) \<and> lines (range_set_union a b) = lines a \<union> lines b"
  using range_set_union_spec [of a b] assms by (simp add: by_start_def check_invariants_canonical)

theorem range_set_union_correct_witness:
  "range_set_check_invariants (range_set_union [(1, 4), (6, 6), (8, 9)] [(2, 3), (4, 7)]) \<and>
   lines (range_set_union [(1, 4), (6, 6), (8, 9)] [(2, 3), (4, 7)]) =
   lines [(1, 4), (6, 6), (8, 9)] \<union> lines [(2, 3), (4, 7)]"
  by (rule range_set_union_correct) simp_all

text \<open>
  C11: Difference.  If no range of \<open>a\<close> ends where a range of \<open>b\<close> starts, \<open>range_set_difference\<close>
  ends within one pass over \<open>b\<close> for each range of \<open>a\<close>, passes its assertions, and returns
  the lines of \<open>a\<close> that are not in \<open>b\<close>, in order.
\<close>

theorem range_set_difference_correct:
  assumes "ordered a" and "ordered b" and "\<forall>r \<in> set a. \<forall>t \<in> set b. fst t \<noteq> snd r"
  shows "\<exists>out. range_set_difference (length b + 1) a b = Some (Inr out) \<and> ordered out \<and> lines out = lines a - lines b"
  using difference_loop_spec [of b "length b + 1" a "[]"] assms by (simp add: range_set_difference_def ordered_def)

theorem range_set_difference_correct_witness:
  "\<exists>out. range_set_difference (length [(2 :: int, 4 :: int), (6, 8), (20, 30)] + 1) [(1, 5), (7, 9)] [(2, 4), (6, 8), (20, 30)] = Some (Inr out) \<and>
     ordered out \<and> lines out = lines [(1, 5), (7, 9)] - lines [(2, 4), (6, 8), (20, 30)]"
  by (rule range_set_difference_correct) (simp_all add: ordered_def)

text \<open>
  When a range of \<open>a\<close> ends where a range of \<open>b\<close> starts, the loop makes no progress: neither test
  against \<open>b->ranges[j].start\<close> is true, and no fuel is enough.
\<close>

lemma range_set_difference_diverges: "range_set_difference fuel [(0, 5)] [(5, 7)] = None"
  using difference_range_stuck [of 0 "(5, 7)" fuel "[]" "[]"] by (simp add: range_set_difference_def)



text \<open>
  Touched hunks.  If no hunk starts where a range ends, the touched hunks are
  the hunks that overlap a range in the target, with both their sides.
\<close>

theorem diff_ranges_filter_touched_correct:
  assumes "range_set_check_invariants rs" and "rs \<noteq> []"
    and "ordered (map fst hunks)" and "ordered (map snd hunks)"
    and "\<forall>h \<in> set hunks. \<forall>r \<in> set rs. fst (snd h) \<noteq> snd r"
  shows "diff_ranges_filter_touched \<lparr>dr_parent = map fst hunks, dr_target = map snd hunks\<rparr> rs =
    Inr \<lparr>dr_parent = map fst (filter (\<lambda>h. \<exists>r \<in> set rs. ranges_overlap (snd h) r) hunks),
         dr_target = map snd (filter (\<lambda>h. \<exists>r \<in> set rs. ranges_overlap (snd h) r) hunks)\<rparr>"
  using filter_touched_exact [of rs hunks "\<lparr>dr_parent = [], dr_target = []\<rparr>"] assms
  by (simp add: diff_ranges_filter_touched_def check_invariants_canonical zip_map_fst_snd) force

theorem diff_ranges_filter_touched_correct_witness:
  "diff_ranges_filter_touched \<lparr>dr_parent = [(2, 3), (9, 9)], dr_target = [(2, 5), (11, 11)]\<rparr> [(1, 4), (15, 20)] =
    Inr \<lparr>dr_parent = [(2, 3)], dr_target = [(2, 5)]\<rparr>"
  using diff_ranges_filter_touched_correct [of "[(1, 4), (15, 20)]" "[((2, 3), (2, 5)), ((9, 9), (11, 11))]"]
  by (simp add: range_set_check_invariants_def ordered_def ranges_overlap_def)

text \<open>Ranges in order are appended one by one.\<close>

lemma append_canonical:
  "canonical (out @ (s, e) # rs) \<Longrightarrow> range_set_append out s e = Inr (out @ [(s, e)])"
  by (cases out rule: rev_cases)
    (auto simp: canonical_def range_set_append_def range_set_append_unsafe_def sorted_wrt_append less_imp_le)

lemma difference_loop_nothing:
  assumes "0 < fuel" and "canonical (out @ rs)"
  shows "difference_loop fuel out rs [] = Some (Inr (out @ rs))"
  using assms(2)
proof (induction rs arbitrary: out)
  case (Cons r rs)
  obtain s e where r: "r = (s, e)" by (cases r)
  have "s < e" using Cons.prems by (auto simp: r canonical_def)
  moreover obtain fuel' where "fuel = Suc fuel'" using assms(1) by (cases fuel) auto
  ultimately have "difference_range fuel out s e [] = Some (Inr (out @ [(s, e)], []))"
    using append_canonical [of out s e rs] Cons.prems by (simp add: r difference_range.simps)
  then show ?case using Cons.IH [of "out @ [r]"] Cons.prems by (simp add: r)
qed simp

lemma shift_diff_loop_before:
  assumes "canonical (out @ rs @ rest)" and "\<forall>r \<in> set rs. fst r < fst t"
  shows "shift_diff_loop out (rs @ rest) ((p, t) # hunks) 0 = shift_diff_loop (out @ rs) rest ((p, t) # hunks) 0"
  using assms
proof (induction rs arbitrary: out)
  case (Cons r rs)
  obtain s e where r: "r = (s, e)" by (cases r)
  have "range_set_append out s e = Inr (out @ [(s, e)])" using append_canonical [of out s e "rs @ rest"] Cons.prems(1) by (simp add: r)
  then show ?case using Cons.IH [of "out @ [r]"] Cons.prems by (simp add: r)
qed simp

text \<open>
  C32: A hunk between two ranges.  Let a hunk start where a range of the set ends and reach beyond the
  start of the next range.  The hunk overlaps that range, but the search for it stops at the first one,
  so the hunk is not found touched, although it is the only one of the diff.  If the hunk adds so many
  lines to the target that the second range, shifted back by them, starts before the first one
  ends, then the assertion of \<open>range_set_append\<close> fails.
\<close>

theorem adjacent_hunk_untouched:
  assumes "range_set_check_invariants (pre @ (a, b) # (c, d) # post)" and "c < t"
  shows "ranges_overlap (b, t) (c, d) \<and>
    diff_ranges_filter_touched \<lparr>dr_parent = [(p, q)], dr_target = [(b, t)]\<rparr> (pre @ (a, b) # (c, d) # post) =
      Inr \<lparr>dr_parent = [], dr_target = []\<rparr> \<and>
    (c + (q - p) < t \<and> 0 < fuel \<longrightarrow>
      range_set_map_across_diff fuel (pre @ (a, b) # (c, d) # post) \<lparr>dr_parent = [(p, q)], dr_target = [(b, t)]\<rparr> = Some (Inl Bug))"
proof -
  define rs where "rs = pre @ (a, b) # (c, d) # post"
  define diff where "diff = \<lparr>dr_parent = [(p, q)], dr_target = [(b, t)]\<rparr>"
  have can: "canonical rs" unfolding rs_def using assms(1) by (simp add: check_invariants_canonical)
  have ord: "a < b" "b < c" "c < d" "\<forall>r \<in> set pre. snd r < b" "\<forall>r \<in> set pre. fst r < snd r"
    using can by (auto simp: rs_def canonical_def sorted_wrt_append)
  have before: "\<forall>r \<in> set (pre @ [(a, b)]). fst r < b" using ord(1,4,5) by (auto intro: less_trans dest!: bspec)
  have over: "ranges_overlap (b, t) (c, d)" using ord assms(2) by (simp add: ranges_overlap_def)
  have "dropWhile (\<lambda>r. snd r < b) rs = (a, b) # (c, d) # post" using ord(4) by (simp add: rs_def dropWhile_append2)
  moreover obtain r0 rs0 where r0: "rs = r0 # rs0" unfolding rs_def by (cases pre) auto
  ultimately have filt: "diff_ranges_filter_touched diff rs = Inr \<lparr>dr_parent = [], dr_target = []\<rparr>"
    by (simp add: diff_ranges_filter_touched_def diff_def ranges_overlap_def)
  have "range_set_map_across_diff fuel rs diff = Some (Inl Bug)" if h: "c + (q - p) < t" "0 < fuel"
  proof -
    have "range_set_difference fuel rs [] = Some (Inr rs)"
      using difference_loop_nothing [of fuel "[]" rs] can h(2) by (simp add: range_set_difference_def)
    moreover have "range_set_shift_diff rs diff = Inl Bug"
    proof -
      have "range_set_shift_diff rs diff = shift_diff_loop (pre @ [(a, b)]) ((c, d) # post) [((p, q), (b, t))] 0"
        using shift_diff_loop_before [of "[]" "pre @ [(a, b)]" "(c, d) # post" "(b, t)" "(p, q)" "[]"] can before
        by (simp add: range_set_shift_diff_def diff_def rs_def)
      also have "\<dots> = Inl Bug" using ord h by (simp add: range_set_append_def)
      finally show ?thesis .
    qed
    ultimately show ?thesis using filt by (simp add: range_set_map_across_diff_def)
  qed
  with over filt show ?thesis unfolding rs_def diff_def by blast
qed

theorem adjacent_hunk_untouched_witness:
  "ranges_overlap (5, 7) (6, 8) \<and>
   diff_ranges_filter_touched \<lparr>dr_parent = [(5, 5)], dr_target = [(5, 7)]\<rparr> [(0, 5), (6, 8)] = Inr \<lparr>dr_parent = [], dr_target = []\<rparr> \<and>
   range_set_map_across_diff 2 [(0, 5), (6, 8)] \<lparr>dr_parent = [(5, 5)], dr_target = [(5, 7)]\<rparr> = Some (Inl Bug)"
  using adjacent_hunk_untouched [of "[]" 0 5 6 8 "[]" 7 5 5 2] by (simp add: range_set_check_invariants_def)

end
