(* ===== verification/Hashmap.thy ===== *)
theory Hashmap
  imports Git_Prelude
begin

text \<open>
  \<open>hashmap.c\<close>: the FNV-1 hash functions, hash maps with chained buckets that grow and shrink,
  iteration over them, and the pool of interned strings.  An entry carries its address, so two
  pointers are equal exactly if the records are; the \<open>next\<close> pointers are the order in the list of a
  bucket.  \<open>hm_table\<close> and \<open>hm_cmpfn\<close> are \<open>None\<close> for NULL.  An access outside the table or a call of a NULL
  comparison function is \<open>Undef\<close>.  Counters and sizes are 32-bit words as in the code.
\<close>

section \<open>Hash functions\<close>

definition FNV32_BASE :: u32 where "FNV32_BASE = 0x811c9dc5"
definition FNV32_PRIME :: u32 where "FNV32_PRIME = 0x01000193"

definition fnv_upper :: "u32 \<Rightarrow> u32" where
  "fnv_upper c = (if 97 \<le> c \<and> c \<le> 122 then c - (97 - 65) else c)"

fun strhash_loop :: "bytes \<Rightarrow> u32 \<Rightarrow> u32" where
  "strhash_loop [] hash = hash"
| "strhash_loop (b # str) hash =
     (let c = ucast b in if c = 0 then hash else strhash_loop str ((hash * FNV32_PRIME) XOR c))"

definition strhash :: "bytes \<Rightarrow> u32" where
  "strhash str = strhash_loop str FNV32_BASE"

fun strihash_loop :: "bytes \<Rightarrow> u32 \<Rightarrow> u32" where
  "strihash_loop [] hash = hash"
| "strihash_loop (b # str) hash =
     (let c = ucast b in
      if c = 0 then hash else strihash_loop str ((hash * FNV32_PRIME) XOR fnv_upper c))"

definition strihash :: "bytes \<Rightarrow> u32" where
  "strihash str = strihash_loop str FNV32_BASE"

definition memhash :: "bytes \<Rightarrow> u32" where
  "memhash buf = foldl (\<lambda>hash c. (hash * FNV32_PRIME) XOR ucast c) FNV32_BASE buf"

definition memihash_cont :: "u32 \<Rightarrow> bytes \<Rightarrow> u32" where
  "memihash_cont hash_seed buf = foldl (\<lambda>hash c. (hash * FNV32_PRIME) XOR fnv_upper (ucast c)) hash_seed buf"

definition memihash :: "bytes \<Rightarrow> u32" where
  "memihash buf = foldl (\<lambda>hash c. (hash * FNV32_PRIME) XOR fnv_upper (ucast c)) FNV32_BASE buf"

section \<open>The map\<close>

definition HASHMAP_INITIAL_SIZE :: u32 where "HASHMAP_INITIAL_SIZE = 64"
definition HASHMAP_RESIZE_BITS :: nat where "HASHMAP_RESIZE_BITS = 2"
definition HASHMAP_LOAD_FACTOR :: nat where "HASHMAP_LOAD_FACTOR = 80"

record 'a hashmap_entry =
  ent_addr :: nat
  ent_hash :: u32
  ent_data :: 'a

type_synonym ('a, 'k) hashmap_cmp_fn = "'a hashmap_entry \<Rightarrow> 'a hashmap_entry \<Rightarrow> 'k option \<Rightarrow> int"

record ('a, 'k) hashmap =
  hm_table :: "'a hashmap_entry list list option"
  hm_cmpfn :: "('a, 'k) hashmap_cmp_fn option"
  hm_private_size :: u32
  hm_tablesize :: u32
  hm_grow_at :: u32
  hm_shrink_at :: u32
  hm_do_count_items :: bool

definition alloc_table :: "('a, 'k) hashmap \<Rightarrow> u32 \<Rightarrow> ('a, 'k) hashmap" where
  "alloc_table hm sz =
     (let grow_at = of_nat (unat sz * HASHMAP_LOAD_FACTOR div 100) in
      hm\<lparr>hm_tablesize := sz, hm_table := Some (replicate (unat sz) []), hm_grow_at := grow_at,
          hm_shrink_at := if sz \<le> HASHMAP_INITIAL_SIZE then 0
                          else grow_at div (push_bit HASHMAP_RESIZE_BITS 1 + 1)\<rparr>)"

definition entry_equals ::
  "('a, 'k) hashmap \<Rightarrow> 'a hashmap_entry \<Rightarrow> 'a hashmap_entry \<Rightarrow> 'k option \<Rightarrow> cfault + bool" where
  "entry_equals hm e1 e2 keydata =
     (if e1 = e2 then Inr True
      else if ent_hash e1 = ent_hash e2 then
        (case hm_cmpfn hm of None \<Rightarrow> Inl Undef | Some cmpfn \<Rightarrow> Inr (cmpfn e1 e2 keydata = 0))
      else Inr False)"

definition hashmap_bucket :: "('a, 'k) hashmap \<Rightarrow> u32 \<Rightarrow> nat" where
  "hashmap_bucket hm hash = unat (hash AND (hm_tablesize hm - 1))"

definition bucket :: "('a, 'k) hashmap \<Rightarrow> 'a hashmap_entry \<Rightarrow> nat" where
  "bucket hm key = unat (ent_hash key AND (hm_tablesize hm - 1))"

definition push_entry :: "('a, 'k) hashmap \<Rightarrow> 'a hashmap_entry \<Rightarrow> cfault + ('a, 'k) hashmap" where
  "push_entry hm e =
     (case hm_table hm of
        None \<Rightarrow> Inl Undef
      | Some table \<Rightarrow>
          (let b = bucket hm e in
           if b < length table then Inr (hm\<lparr>hm_table := Some (table[b := e # table ! b])\<rparr>) else Inl Undef))"

fun rehash_chain :: "('a, 'k) hashmap \<Rightarrow> 'a hashmap_entry list \<Rightarrow> cfault + ('a, 'k) hashmap" where
  "rehash_chain hm [] = Inr hm"
| "rehash_chain hm (e # next) =
     (case push_entry hm e of Inl err \<Rightarrow> Inl err | Inr hm \<Rightarrow> rehash_chain hm next)"

fun rehash_loop :: "('a, 'k) hashmap \<Rightarrow> 'a hashmap_entry list list \<Rightarrow> cfault + ('a, 'k) hashmap" where
  "rehash_loop hm [] = Inr hm"
| "rehash_loop hm (chain # oldtable) =
     (case rehash_chain hm chain of Inl err \<Rightarrow> Inl err | Inr hm \<Rightarrow> rehash_loop hm oldtable)"

definition rehash :: "('a, 'k) hashmap \<Rightarrow> u32 \<Rightarrow> cfault + ('a, 'k) hashmap" where
  "rehash hm newsize =
     (case hm_table hm of
        None \<Rightarrow> Inl Undef
      | Some oldtable \<Rightarrow> rehash_loop (alloc_table hm newsize) oldtable)"

text \<open>The position in its chain of the pointer that \<open>find_entry_ptr\<close> returns; the length of the chain for NULL.\<close>

fun find_in_chain :: "('a, 'k) hashmap \<Rightarrow> 'a hashmap_entry list \<Rightarrow> 'a hashmap_entry \<Rightarrow> 'k option \<Rightarrow> cfault + nat" where
  "find_in_chain hm [] key keydata = Inr 0"
| "find_in_chain hm (e # next) key keydata =
     (case entry_equals hm e key keydata of
        Inl err \<Rightarrow> Inl err
      | Inr True \<Rightarrow> Inr 0
      | Inr False \<Rightarrow> map_sum id Suc (find_in_chain hm next key keydata))"

definition find_entry_ptr :: "('a, 'k) hashmap \<Rightarrow> 'a hashmap_entry \<Rightarrow> 'k option \<Rightarrow> cfault + nat \<times> nat" where
  "find_entry_ptr hm key keydata =
     (case hm_table hm of
        None \<Rightarrow> Inl Undef
      | Some table \<Rightarrow>
          (let b = bucket hm key in
           if b < length table then map_sum id (Pair b) (find_in_chain hm (table ! b) key keydata) else Inl Undef))"

definition always_equal :: "('a, 'k) hashmap_cmp_fn" where
  "always_equal e1 e2 keydata = 0"

text \<open>The loop of \<open>hashmap_init\<close> need not end: \<open>size\<close> wraps to 0.\<close>

partial_function (option) init_size_loop :: "u64 \<Rightarrow> u32 \<Rightarrow> u32 option" where
  "init_size_loop initial_size sz =
     (if ucast sz < initial_size then init_size_loop initial_size (push_bit HASHMAP_RESIZE_BITS sz)
      else Some sz)"

definition hashmap_init :: "('a, 'k) hashmap_cmp_fn option \<Rightarrow> u64 \<Rightarrow> ('a, 'k) hashmap option" where
  "hashmap_init equals_function initial_size =
     (let hm = \<lparr>hm_table = None, hm_cmpfn = Some (case equals_function of Some f \<Rightarrow> f | None \<Rightarrow> always_equal),
                 hm_private_size = 0, hm_tablesize = 0, hm_grow_at = 0, hm_shrink_at = 0, hm_do_count_items = False\<rparr>;
          initial_size = ucast (ucast (initial_size * 100 div of_nat HASHMAP_LOAD_FACTOR) :: u32) in
      case init_size_loop initial_size HASHMAP_INITIAL_SIZE of
        None \<Rightarrow> None
      | Some sz \<Rightarrow> Some ((alloc_table hm sz)\<lparr>hm_do_count_items := True\<rparr>))"

definition hashmap_partial_clear :: "('a, 'k) hashmap \<Rightarrow> ('a, 'k) hashmap" where
  "hashmap_partial_clear hm =
     (case hm_table hm of
        None \<Rightarrow> hm
      | Some table \<Rightarrow>
          hm\<lparr>hm_table := Some (replicate (unat (hm_tablesize hm)) []), hm_shrink_at := 0, hm_private_size := 0\<rparr>)"

definition hashmap_clear :: "('a, 'k) hashmap \<Rightarrow> ('a, 'k) hashmap" where
  "hashmap_clear hm =
     (case hm_table hm of
        None \<Rightarrow> hm
      | Some table \<Rightarrow>
          \<lparr>hm_table = None, hm_cmpfn = None, hm_private_size = 0, hm_tablesize = 0, hm_grow_at = 0,
           hm_shrink_at = 0, hm_do_count_items = False\<rparr>)"

definition chain_entry :: "('a, 'k) hashmap \<Rightarrow> nat \<times> nat \<Rightarrow> 'a hashmap_entry option" where
  "chain_entry hm p =
     (case hm_table hm of
        None \<Rightarrow> None
      | Some table \<Rightarrow> if snd p < length (table ! fst p) then Some (table ! fst p ! snd p) else None)"

definition hashmap_get ::
  "('a, 'k) hashmap \<Rightarrow> 'a hashmap_entry \<Rightarrow> 'k option \<Rightarrow> cfault + 'a hashmap_entry option" where
  "hashmap_get hm key keydata =
     (if hm_table hm = None then Inr None
      else map_sum id (chain_entry hm) (find_entry_ptr hm key keydata))"

text \<open>\<open>next\<close> is the chain that starts at \<open>entry->next\<close>.\<close>

fun hashmap_get_next ::
  "('a, 'k) hashmap \<Rightarrow> 'a hashmap_entry \<Rightarrow> 'a hashmap_entry list \<Rightarrow> cfault + 'a hashmap_entry option" where
  "hashmap_get_next hm entry [] = Inr None"
| "hashmap_get_next hm entry (e # next) =
     (case entry_equals hm entry e None of
        Inl err \<Rightarrow> Inl err
      | Inr True \<Rightarrow> Inr (Some e)
      | Inr False \<Rightarrow> hashmap_get_next hm entry next)"

definition hashmap_add :: "('a, 'k) hashmap \<Rightarrow> 'a hashmap_entry \<Rightarrow> cfault + ('a, 'k) hashmap" where
  "hashmap_add hm entry =
     (let hm = (if hm_table hm = None then alloc_table hm HASHMAP_INITIAL_SIZE else hm) in
      case push_entry hm entry of
        Inl err \<Rightarrow> Inl err
      | Inr hm \<Rightarrow>
          if hm_do_count_items hm then
            (let hm = hm\<lparr>hm_private_size := hm_private_size hm + 1\<rparr> in
             if hm_grow_at hm < hm_private_size hm
             then rehash hm (push_bit HASHMAP_RESIZE_BITS (hm_tablesize hm))
             else Inr hm)
          else Inr hm)"

definition hashmap_remove ::
  "('a, 'k) hashmap \<Rightarrow> 'a hashmap_entry \<Rightarrow> 'k option \<Rightarrow> cfault + 'a hashmap_entry option \<times> ('a, 'k) hashmap" where
  "hashmap_remove hm key keydata =
     (case hm_table hm of
        None \<Rightarrow> Inr (None, hm)
      | Some table \<Rightarrow>
          (case find_entry_ptr hm key keydata of
             Inl err \<Rightarrow> Inl err
           | Inr (b, i) \<Rightarrow>
               (case chain_entry hm (b, i) of
                  None \<Rightarrow> Inr (None, hm)
                | Some old \<Rightarrow>
                    (let hm = hm\<lparr>hm_table := Some (table[b := take i (table ! b) @ drop (i + 1) (table ! b)])\<rparr> in
                     if hm_do_count_items hm then
                       (let hm = hm\<lparr>hm_private_size := hm_private_size hm - 1\<rparr> in
                        if hm_private_size hm < hm_shrink_at hm
                        then map_sum id (Pair (Some old)) (rehash hm (drop_bit HASHMAP_RESIZE_BITS (hm_tablesize hm)))
                        else Inr (Some old, hm))
                     else Inr (Some old, hm)))))"

definition hashmap_put :: "('a, 'k) hashmap \<Rightarrow> 'a hashmap_entry \<Rightarrow> cfault + 'a hashmap_entry option \<times> ('a, 'k) hashmap" where
  "hashmap_put hm entry =
     (case hashmap_remove hm entry None of
        Inl err \<Rightarrow> Inl err
      | Inr (old, hm) \<Rightarrow> map_sum id (Pair old) (hashmap_add hm entry))"

section \<open>Iteration\<close>

text \<open>\<open>it_next\<close> is the chain that the \<open>next\<close> pointer of the iterator starts.\<close>

record 'a hashmap_iter =
  it_tablepos :: nat
  it_next :: "'a hashmap_entry list"

definition hashmap_iter_init :: "'a hashmap_iter" where
  "hashmap_iter_init = \<lparr>it_tablepos = 0, it_next = []\<rparr>"

function iter_next_loop ::
  "('a, 'k) hashmap \<Rightarrow> 'a hashmap_entry list list \<Rightarrow> nat \<Rightarrow> 'a hashmap_entry list \<Rightarrow> 'a hashmap_entry option \<times> 'a hashmap_iter" where
  "iter_next_loop hm table pos current =
     (case current of
        e # next \<Rightarrow> (Some e, \<lparr>it_tablepos = pos, it_next = next\<rparr>)
      | [] \<Rightarrow>
          if unat (hm_tablesize hm) \<le> pos then (None, \<lparr>it_tablepos = pos, it_next = []\<rparr>)
          else iter_next_loop hm table (pos + 1) (table ! pos))"
  by pat_completeness auto
termination by (relation "measure (\<lambda>(hm, table, pos, current). unat (hm_tablesize hm) - pos)") auto

declare iter_next_loop.simps [simp del]

definition hashmap_iter_next :: "('a, 'k) hashmap \<Rightarrow> 'a hashmap_iter \<Rightarrow> 'a hashmap_entry option \<times> 'a hashmap_iter" where
  "hashmap_iter_next hm iter =
     iter_next_loop hm (case hm_table hm of Some table \<Rightarrow> table | None \<Rightarrow> []) (it_tablepos iter) (it_next iter)"

section \<open>Interned strings\<close>

text \<open>
  The address of an entry stands for the address of its \<open>data\<close>.  \<open>keydata\<close> is a pointer with the
  bytes at it.  The key on the stack has address 0.  \<open>addr\<close> is what the allocator returns.
\<close>

record pool_entry =
  pe_len :: nat
  pe_data :: bytes

definition pool_entry_cmp :: "(pool_entry, nat \<times> bytes) hashmap_cmp_fn" where
  "pool_entry_cmp e1 e2 keydata =
     (case keydata of
        None \<Rightarrow> 1
      | Some (ptr, data) \<Rightarrow>
          if ent_addr e1 \<noteq> ptr \<and> (pe_len (ent_data e1) \<noteq> pe_len (ent_data e2) \<or>
               memcmp (pe_data (ent_data e1)) data (pe_len (ent_data e1)) \<noteq> 0) then 1 else 0)"

type_synonym pool = "(pool_entry, nat \<times> bytes) hashmap"

definition memintern :: "nat \<Rightarrow> pool \<Rightarrow> nat \<Rightarrow> bytes \<Rightarrow> (cfault + nat \<times> pool) option" where
  "memintern addr hm ptr data =
     (case (if hm_tablesize hm = 0 then hashmap_init (Some pool_entry_cmp) 0 else Some hm) of
        None \<Rightarrow> None
      | Some hm \<Rightarrow>
          (let key = \<lparr>ent_addr = 0, ent_hash = memhash data, ent_data = \<lparr>pe_len = length data, pe_data = []\<rparr>\<rparr> in
           case hashmap_get hm key (Some (ptr, data)) of
             Inl err \<Rightarrow> Some (Inl err)
           | Inr (Some e) \<Rightarrow> Some (Inr (ent_addr e, hm))
           | Inr None \<Rightarrow>
               (let e = \<lparr>ent_addr = addr, ent_hash = ent_hash key, ent_data = \<lparr>pe_len = length data, pe_data = data\<rparr>\<rparr> in
                Some (map_sum id (Pair addr) (hashmap_add hm e)))))"

section \<open>The contract of a keyed store\<close>

lemma filter_mset_empty_iff: "filter_mset P M = {#} \<longleftrightarrow> (\<forall>x \<in># M. \<not> P x)"
  by (induction M) auto

text \<open>
  \<open>eqv e k\<close>: entry \<open>e\<close> matches key \<open>k\<close>.  \<open>room\<close> says that one more entry can be added.
\<close>

locale keyed_store =
  fixes inv :: "'s \<Rightarrow> bool" and entries :: "'s \<Rightarrow> 'e multiset" and eqv :: "'s \<Rightarrow> 'e \<Rightarrow> 'k \<Rightarrow> bool"
    and room :: "'s \<Rightarrow> bool"
    and get :: "'s \<Rightarrow> 'k \<Rightarrow> cfault + 'e option" and add :: "'s \<Rightarrow> 'e \<Rightarrow> cfault + 's"
    and remove :: "'s \<Rightarrow> 'k \<Rightarrow> cfault + 'e option \<times> 's"
  assumes get_law: "inv s \<Longrightarrow> (get s k = Inr None \<and> (\<forall>e \<in># entries s. \<not> eqv s e k)) \<or>
      (\<exists>e. get s k = Inr (Some e) \<and> e \<in># entries s \<and> eqv s e k)"
    and add_law: "inv s \<Longrightarrow> room s \<Longrightarrow>
      \<exists>s'. add s e = Inr s' \<and> inv s' \<and> entries s' = add_mset e (entries s) \<and> eqv s' = eqv s"
    and remove_law: "inv s \<Longrightarrow> (remove s k = Inr (None, s) \<and> (\<forall>e \<in># entries s. \<not> eqv s e k)) \<or>
      (\<exists>e s'. remove s k = Inr (Some e, s') \<and> e \<in># entries s \<and> eqv s e k \<and> inv s' \<and>
         entries s' = entries s - {#e#} \<and> eqv s' = eqv s \<and> (room s \<longrightarrow> room s'))"
begin

lemma get_none_iff: "inv s \<Longrightarrow> get s k = Inr None \<longleftrightarrow> (\<forall>e \<in># entries s. \<not> eqv s e k)"
  using get_law [of s k] by auto

lemma get_someD: "inv s \<Longrightarrow> get s k = Inr (Some e) \<Longrightarrow> e \<in># entries s \<and> eqv s e k"
  using get_law [of s k] by auto

lemma get_after_add:
  assumes "inv s" and "room s" and "get s k = Inr None" and "eqv s e k"
  shows "\<exists>s'. add s e = Inr s' \<and> inv s' \<and> get s' k = Inr (Some e)"
proof -
  obtain s' where s': "add s e = Inr s'" "inv s'" "entries s' = add_mset e (entries s)" "eqv s' = eqv s"
    using add_law [OF assms(1,2)] by blast
  have none: "\<forall>x \<in># entries s. \<not> eqv s x k" using assms get_none_iff by blast
  have "get s' k \<noteq> Inr None" using s' assms(4) get_none_iff by simp
  then obtain x where "get s' k = Inr (Some x)" "x \<in># entries s'" "eqv s' x k" using get_law [OF s'(2), of k] by auto
  moreover then have "x = e" using none s'(3,4) by auto
  ultimately show ?thesis using s' by blast
qed

text \<open>Replacing: if at most one entry matches the key, the entry put in its place is found afterwards.\<close>

lemma get_after_replace:
  assumes "inv s" and "room s" and "eqv s e k" and "size (filter_mset (\<lambda>x. eqv s x k) (entries s)) \<le> 1"
  shows "\<exists>old s1 s'. remove s k = Inr (old, s1) \<and> get s k = Inr old \<and> add s1 e = Inr s' \<and> inv s' \<and>
    get s' k = Inr (Some e) \<and>
    entries s' = add_mset e (case old of None \<Rightarrow> entries s | Some x \<Rightarrow> entries s - {#x#})"
proof -
  obtain old s1 where s1: "remove s k = Inr (old, s1)" "inv s1" "room s1" "eqv s1 = eqv s"
    "entries s1 = (case old of None \<Rightarrow> entries s | Some x \<Rightarrow> entries s - {#x#})"
    and old: "case old of None \<Rightarrow> \<forall>x \<in># entries s. \<not> eqv s x k | Some x \<Rightarrow> x \<in># entries s \<and> eqv s x k"
    using remove_law [OF assms(1), of k] assms(1,2) by fastforce
  have none: "filter_mset (\<lambda>x. eqv s x k) (entries s1) = {#}"
  proof (cases old)
    case None
    then show ?thesis using old s1(5) by (simp add: filter_mset_empty_iff)
  next
    case (Some x)
    then obtain M where M: "entries s = add_mset x M" using old by (auto dest: multi_member_split)
    then show ?thesis using assms(4) old s1(5) Some by simp
  qed
  then have "get s1 k = Inr None" using get_none_iff [OF s1(2)] s1(4) by (simp add: filter_mset_empty_iff)
  from get_after_add [OF s1(2,3) this] obtain s' where s': "add s1 e = Inr s'" "inv s'" "get s' k = Inr (Some e)"
    using assms(3) s1(4) by auto
  moreover have "entries s' = add_mset e (entries s1)" using add_law [OF s1(2,3), of e] s'(1) by auto
  moreover have "get s k = Inr old"
  proof (cases old)
    case None
    then show ?thesis using old get_none_iff [OF assms(1)] by simp
  next
    case (Some x)
    then have "get s k \<noteq> Inr None" using old get_none_iff [OF assms(1)] by auto
    then obtain y where y: "get s k = Inr (Some y)" "y \<in># entries s" "eqv s y k" using get_law [OF assms(1), of k] by auto
    have "y = x"
    proof (rule ccontr)
      assume "y \<noteq> x"
      then have "y \<in># filter_mset (\<lambda>x. eqv s x k) (entries s1)" using y s1(5) Some by (simp add: in_diff_count)
      with none show False by auto
    qed
    with y Some show ?thesis by simp
  qed
  ultimately show ?thesis using s1(1,5) by (intro exI [of _ old] exI [of _ s1] exI [of _ s']) simp
qed

end

section \<open>The invariant\<close>

lemma unat_and_less: "t \<noteq> 0 \<Longrightarrow> unat (h AND (t - 1)) < unat (t :: u32)"
proof -
  assume t: "t \<noteq> 0"
  have "h AND (t - 1) \<le> t - 1" by (rule word_and_le1)
  also have "t - 1 < t" using t by (simp add: word_gt_0 [symmetric] measure_unat word_less_nat_alt)
  finally show ?thesis by (simp add: word_less_nat_alt)
qed

definition hm_sizes :: "u32 list" where
  "hm_sizes = [0x40, 0x100, 0x400, 0x1000, 0x4000, 0x10000, 0x40000, 0x100000, 0x400000, 0x1000000, 0x4000000,
     0x10000000, 0x40000000]"

definition grow_of :: "u32 \<Rightarrow> u32" where
  "grow_of t = of_nat (unat t * HASHMAP_LOAD_FACTOR div 100)"

definition placed :: "u32 \<Rightarrow> 'a hashmap_entry list list \<Rightarrow> bool" where
  "placed t tbl \<longleftrightarrow> length tbl = unat t \<and> (\<forall>i < length tbl. \<forall>e \<in> set (tbl ! i). unat (ent_hash e AND (t - 1)) = i)"

definition hm_entries :: "('a, 'k) hashmap \<Rightarrow> 'a hashmap_entry multiset" where
  "hm_entries hm = (case hm_table hm of None \<Rightarrow> {#} | Some tbl \<Rightarrow> mset (concat tbl))"

definition hm_inv :: "('a, 'k) hashmap \<Rightarrow> bool" where
  "hm_inv hm \<longleftrightarrow> hm_tablesize hm \<in> set hm_sizes \<and> hm_cmpfn hm \<noteq> None \<and> hm_do_count_items hm \<and>
     (\<exists>tbl. hm_table hm = Some tbl \<and> placed (hm_tablesize hm) tbl \<and> unat (hm_private_size hm) = length (concat tbl)) \<and>
     hm_grow_at hm = grow_of (hm_tablesize hm) \<and> hm_private_size hm \<le> hm_grow_at hm \<and>
     (hm_shrink_at hm = 0 \<or> hm_tablesize hm \<noteq> 0x40 \<and> hm_shrink_at hm = hm_grow_at hm div 5)"

lemma mset_concat_push:
  "i < length tbl \<Longrightarrow> mset (concat (tbl[i := e # tbl ! i])) = add_mset e (mset (concat tbl))"
  by (induction tbl arbitrary: i) (auto split: nat.split)

lemma placed_push: "placed t tbl \<Longrightarrow> unat (ent_hash e AND (t - 1)) = i \<Longrightarrow> placed t (tbl[i := e # tbl ! i])"
  by (cases "i < length tbl") (auto simp: placed_def nth_list_update split: if_splits)

lemma placed_empty: "placed t (replicate (unat t) [])"
  by (simp add: placed_def)

lemma push_entry_ok:
  assumes "hm_table hm = Some tbl" and "placed (hm_tablesize hm) tbl" and "hm_tablesize hm \<noteq> 0"
  shows "\<exists>tbl'. push_entry hm e = Inr (hm\<lparr>hm_table := Some tbl'\<rparr>) \<and> placed (hm_tablesize hm) tbl' \<and>
    mset (concat tbl') = add_mset e (mset (concat tbl))"
proof -
  have "bucket hm e < length tbl" using assms(2) unat_and_less [OF assms(3)] by (simp add: placed_def bucket_def)
  then show ?thesis using assms(1,2) placed_push [OF assms(2), of e "bucket hm e"]
    by (auto simp: push_entry_def bucket_def Let_def mset_concat_push)
qed

lemma rehash_chain_ok:
  assumes "hm_table hm = Some tbl" and "placed (hm_tablesize hm) tbl" and "hm_tablesize hm \<noteq> 0"
  shows "\<exists>tbl'. rehash_chain hm es = Inr (hm\<lparr>hm_table := Some tbl'\<rparr>) \<and> placed (hm_tablesize hm) tbl' \<and>
    mset (concat tbl') = mset es + mset (concat tbl)"
  using assms
proof (induction es arbitrary: hm tbl)
  case (Cons e es)
  obtain tbl1 where t1: "push_entry hm e = Inr (hm\<lparr>hm_table := Some tbl1\<rparr>)" "placed (hm_tablesize hm) tbl1"
    "mset (concat tbl1) = add_mset e (mset (concat tbl))" using push_entry_ok [OF Cons.prems] by blast
  then show ?case using Cons.IH [of "hm\<lparr>hm_table := Some tbl1\<rparr>" tbl1] Cons.prems(3) by auto
next
  case Nil
  then show ?case by (intro exI [of _ tbl]) simp
qed

lemma rehash_loop_ok:
  assumes "hm_table hm = Some tbl" and "placed (hm_tablesize hm) tbl" and "hm_tablesize hm \<noteq> 0"
  shows "\<exists>tbl'. rehash_loop hm old = Inr (hm\<lparr>hm_table := Some tbl'\<rparr>) \<and> placed (hm_tablesize hm) tbl' \<and>
    mset (concat tbl') = mset (concat old) + mset (concat tbl)"
  using assms
proof (induction old arbitrary: hm tbl)
  case (Cons es old)
  obtain tbl1 where t1: "rehash_chain hm es = Inr (hm\<lparr>hm_table := Some tbl1\<rparr>)" "placed (hm_tablesize hm) tbl1"
    "mset (concat tbl1) = mset es + mset (concat tbl)" using rehash_chain_ok [OF Cons.prems] by blast
  then show ?case using Cons.IH [of "hm\<lparr>hm_table := Some tbl1\<rparr>" tbl1] Cons.prems(3) by (auto simp: ac_simps)
next
  case Nil
  then show ?case by (intro exI [of _ tbl]) simp
qed

lemma alloc_table_simps [simp]:
  "hm_table (alloc_table hm t) = Some (replicate (unat t) [])" "hm_tablesize (alloc_table hm t) = t"
  "hm_grow_at (alloc_table hm t) = grow_of t" "hm_cmpfn (alloc_table hm t) = hm_cmpfn hm"
  "hm_do_count_items (alloc_table hm t) = hm_do_count_items hm"
  "hm_private_size (alloc_table hm t) = hm_private_size hm"
  "hm_shrink_at (alloc_table hm t) = (if t \<le> 0x40 then 0 else grow_of t div 5)"
  by (simp_all add: alloc_table_def grow_of_def Let_def HASHMAP_INITIAL_SIZE_def HASHMAP_RESIZE_BITS_def)

lemma rehash_ok:
  assumes "hm_table hm = Some old" and "t \<noteq> 0"
  shows "\<exists>tbl'. rehash hm t = Inr ((alloc_table hm t)\<lparr>hm_table := Some tbl'\<rparr>) \<and> placed t tbl' \<and>
    mset (concat tbl') = mset (concat old)"
  using rehash_loop_ok [of "alloc_table hm t" "replicate (unat t) []" old] assms placed_empty [of t]
  by (simp add: rehash_def)

lemma hm_sizes_facts:
  assumes "t \<in> set hm_sizes"
  shows "t \<noteq> 0" and "push_bit HASHMAP_RESIZE_BITS t \<in> set hm_sizes \<longleftrightarrow> t \<noteq> 0x40000000"
    and "t \<noteq> 0x40 \<Longrightarrow> drop_bit HASHMAP_RESIZE_BITS t \<in> set hm_sizes"
    and "t \<noteq> 0x40000000 \<Longrightarrow> grow_of t + 1 \<le> grow_of (push_bit HASHMAP_RESIZE_BITS t)"
    and "t \<noteq> 0x40 \<Longrightarrow> grow_of t div 5 \<le> grow_of (drop_bit HASHMAP_RESIZE_BITS t)"
    and "grow_of t \<le> 858993459" and "grow_of t = 858993459 \<longleftrightarrow> t = 0x40000000" and "t \<le> 0x40 \<longleftrightarrow> t = 0x40"
  using assms unfolding hm_sizes_def
  by (auto simp: HASHMAP_RESIZE_BITS_def grow_of_def HASHMAP_LOAD_FACTOR_def)

definition hm_eqv :: "('a, 'k) hashmap \<Rightarrow> 'a hashmap_entry \<Rightarrow> 'a hashmap_entry \<times> 'k option \<Rightarrow> bool" where
  "hm_eqv hm e k \<longleftrightarrow> e = fst k \<or> ent_hash e = ent_hash (fst k) \<and> the (hm_cmpfn hm) e (fst k) (snd k) = 0"

definition hm_room :: "('a, 'k) hashmap \<Rightarrow> bool" where
  "hm_room hm \<longleftrightarrow> hm_private_size hm \<noteq> 858993459"

lemma entry_equals_eq: "hm_cmpfn hm \<noteq> None \<Longrightarrow> entry_equals hm e key kd = Inr (hm_eqv hm e (key, kd))"
  by (auto simp: entry_equals_def hm_eqv_def)

lemma find_in_chain_eq:
  assumes "hm_cmpfn hm \<noteq> None"
  shows "find_in_chain hm es key kd = Inr (length (takeWhile (\<lambda>e. \<not> hm_eqv hm e (key, kd)) es))"
  by (induction es) (auto simp: entry_equals_eq [OF assms] split: bool.split)

lemma hm_find:
  fixes hm :: "('a, 'k) hashmap" and key :: "'a hashmap_entry" and kd :: "'k option"
  assumes "hm_inv hm" and "hm_table hm = Some tbl"
  defines "i \<equiv> length (takeWhile (\<lambda>e. \<not> hm_eqv hm e (key, kd)) (tbl ! bucket hm key))"
  shows "find_entry_ptr hm key kd = Inr (bucket hm key, i)" and "bucket hm key < length tbl"
    and "i < length (tbl ! bucket hm key) \<Longrightarrow>
      hm_eqv hm (tbl ! bucket hm key ! i) (key, kd) \<and> tbl ! bucket hm key ! i \<in># hm_entries hm"
    and "\<not> i < length (tbl ! bucket hm key) \<Longrightarrow> e \<in># hm_entries hm \<Longrightarrow> \<not> hm_eqv hm e (key, kd)"
proof -
  have inv: "placed (hm_tablesize hm) tbl" "hm_cmpfn hm \<noteq> None" "hm_tablesize hm \<noteq> 0"
    using assms(1,2) hm_sizes_facts(1) by (auto simp: hm_inv_def)
  show b: "bucket hm key < length tbl" using inv(1) unat_and_less [OF inv(3)] by (simp add: placed_def bucket_def)
  then show "find_entry_ptr hm key kd = Inr (bucket hm key, i)"
    using find_in_chain_eq [OF inv(2)] by (simp add: find_entry_ptr_def assms(2) i_def Let_def)
  show "hm_eqv hm (tbl ! bucket hm key ! i) (key, kd) \<and> tbl ! bucket hm key ! i \<in># hm_entries hm"
    if "i < length (tbl ! bucket hm key)"
    using that b nth_length_takeWhile [of "\<lambda>e. \<not> hm_eqv hm e (key, kd)" "tbl ! bucket hm key"]
    by (auto simp: i_def hm_entries_def assms(2) intro!: bexI [of _ "tbl ! bucket hm key"])
  show "\<not> hm_eqv hm e (key, kd)" if none: "\<not> i < length (tbl ! bucket hm key)" and e: "e \<in># hm_entries hm"
  proof
    assume eqv: "hm_eqv hm e (key, kd)"
    obtain j where j: "j < length tbl" "e \<in> set (tbl ! j)"
      using e by (auto simp: hm_entries_def assms(2) in_set_conv_nth [of _ tbl])
    have "bucket hm e = j" using inv(1) j by (simp add: placed_def bucket_def)
    moreover have "bucket hm e = bucket hm key" using eqv by (auto simp: hm_eqv_def bucket_def)
    ultimately have "e \<in> set (tbl ! bucket hm key)" using j by simp
    moreover have "takeWhile (\<lambda>e. \<not> hm_eqv hm e (key, kd)) (tbl ! bucket hm key) = tbl ! bucket hm key"
      using none unfolding i_def by (metis takeWhile_eq_take take_all not_less)
    then have "\<forall>e \<in> set (tbl ! bucket hm key). \<not> hm_eqv hm e (key, kd)" by (simp only: takeWhile_eq_all_conv)
    ultimately show False using eqv by blast
  qed
qed

lemma hashmap_get_law:
  assumes "hm_inv hm"
  shows "(hashmap_get hm key kd = Inr None \<and> (\<forall>e \<in># hm_entries hm. \<not> hm_eqv hm e (key, kd))) \<or>
      (\<exists>e. hashmap_get hm key kd = Inr (Some e) \<and> e \<in># hm_entries hm \<and> hm_eqv hm e (key, kd))"
proof -
  obtain tbl where tbl: "hm_table hm = Some tbl" using assms by (auto simp: hm_inv_def)
  show ?thesis using hm_find(1,3,4) [OF assms tbl, where key = key and kd = kd] hm_find(2) [OF assms tbl, of key]
    by (cases "length (takeWhile (\<lambda>e. \<not> hm_eqv hm e (key, kd)) (tbl ! bucket hm key)) < length (tbl ! bucket hm key)")
      (auto simp: hashmap_get_def tbl chain_entry_def)
qed

lemma unat_Suc_u32: "w \<noteq> - 1 \<Longrightarrow> unat (w + 1 :: u32) = Suc (unat w)"
  using unatSuc [of w] by (simp add: add.commute [of 1] eq_neg_iff_add_eq_0)

lemma hashmap_add_law:
  assumes "hm_inv hm" and "hm_room hm"
  shows "\<exists>hm'. hashmap_add hm e = Inr hm' \<and> hm_inv hm' \<and> hm_entries hm' = add_mset e (hm_entries hm) \<and>
    hm_cmpfn hm' = hm_cmpfn hm"
proof -
  obtain tbl where tbl: "hm_table hm = Some tbl" "placed (hm_tablesize hm) tbl"
    "unat (hm_private_size hm) = length (concat tbl)" using assms(1) by (auto simp: hm_inv_def)
  have sz: "hm_tablesize hm \<in> set hm_sizes" "hm_grow_at hm = grow_of (hm_tablesize hm)"
    "hm_private_size hm \<le> grow_of (hm_tablesize hm)" using assms(1) by (auto simp: hm_inv_def)
  note facts = hm_sizes_facts [OF sz(1)]
  obtain tbl1 where tbl1: "push_entry hm e = Inr (hm\<lparr>hm_table := Some tbl1\<rparr>)" "placed (hm_tablesize hm) tbl1"
    "mset (concat tbl1) = add_mset e (mset (concat tbl))" using push_entry_ok [OF tbl(1,2) facts(1)] by blast
  define hm1 where "hm1 = hm\<lparr>hm_table := Some tbl1, hm_private_size := hm_private_size hm + 1\<rparr>"
  have "hm_private_size hm \<le> 858993459" using sz(3) facts(6) by (rule order_trans)
  then have "hm_private_size hm \<noteq> - 1" by (auto simp: word_le_nat_alt unsigned_minus_1_eq_mask mask_eq_exp_minus_1)
  then have cnt: "unat (hm_private_size hm + 1) = length (concat tbl1)"
    using tbl(3) tbl1(3) by (simp add: unat_Suc_u32) (metis size_add_mset size_mset length_concat)
  have add: "hashmap_add hm e = (if hm_grow_at hm < hm_private_size hm + 1
      then rehash hm1 (push_bit HASHMAP_RESIZE_BITS (hm_tablesize hm)) else Inr hm1)"
    using assms(1) tbl(1) tbl1(1) by (simp add: hashmap_add_def hm_inv_def hm1_def Let_def)
  show ?thesis
  proof (cases "hm_grow_at hm < hm_private_size hm + 1")
    case False
    then have "hm_inv hm1" using assms(1) tbl1(2) cnt by (auto simp: hm_inv_def hm1_def not_less simp del: length_concat)
    with False add tbl tbl1 show ?thesis by (simp add: hm1_def hm_entries_def)
  next
    case True
    then have full: "hm_private_size hm = grow_of (hm_tablesize hm)"
      using sz(2,3) unat_Suc_u32 [OF \<open>hm_private_size hm \<noteq> - 1\<close>]
      by (simp add: word_less_nat_alt word_le_nat_alt word_unat_eq_iff)
    then have t: "hm_tablesize hm \<noteq> 0x40000000" using assms(2) facts(7) by (simp add: hm_room_def)
    define t2 where "t2 = push_bit HASHMAP_RESIZE_BITS (hm_tablesize hm)"
    have t2: "t2 \<in> set hm_sizes" "grow_of (hm_tablesize hm) + 1 \<le> grow_of t2"
      using facts(2,4) t by (simp_all add: t2_def)
    obtain tbl2 where tbl2: "rehash hm1 t2 = Inr ((alloc_table hm1 t2)\<lparr>hm_table := Some tbl2\<rparr>)" "placed t2 tbl2"
      "mset (concat tbl2) = mset (concat tbl1)"
      using rehash_ok [of hm1 tbl1 t2] hm_sizes_facts(1) [OF t2(1)] by (auto simp: hm1_def)
    have "length (concat tbl2) = length (concat tbl1)" using tbl2(3) by (metis size_mset)
    then have "hm_inv ((alloc_table hm1 t2)\<lparr>hm_table := Some tbl2\<rparr>)"
      using assms(1) t2 tbl2(2) cnt full hm_sizes_facts(8) [OF t2(1)] by (simp add: hm_inv_def hm1_def del: length_concat)
    with True add tbl2 tbl1(3) tbl(1) show ?thesis by (simp add: t2_def hm_entries_def hm1_def)
  qed
qed

lemma mset_concat_drop:
  assumes "b < length tbl" and "i < length (tbl ! b)"
  shows "mset (concat (tbl[b := take i (tbl ! b) @ drop (i + 1) (tbl ! b)])) = mset (concat tbl) - {#tbl ! b ! i#}"
proof -
  have "mset (tbl ! b) = add_mset (tbl ! b ! i) (mset (take i (tbl ! b) @ drop (i + 1) (tbl ! b)))"
    using id_take_nth_drop [OF assms(2)] by (metis Suc_eq_plus1 mset.simps(2) mset_append union_mset_add_mset_right)
  moreover have "concat tbl = concat (take b tbl) @ tbl ! b @ concat (drop (Suc b) tbl)"
    using id_take_nth_drop [OF assms(1)] by (metis concat.simps(2) concat_append)
  moreover have "concat (tbl[b := x]) = concat (take b tbl) @ x @ concat (drop (Suc b) tbl)" for x
    using assms(1) by (simp add: upd_conv_take_nth_drop)
  ultimately show ?thesis by simp
qed

lemma placed_drop:
  "placed t tbl \<Longrightarrow> placed t (tbl[b := take i (tbl ! b) @ drop (i + 1) (tbl ! b)])"
  by (cases "b < length tbl") (auto simp: placed_def nth_list_update split: if_splits dest: in_set_takeD in_set_dropD)

lemma hashmap_remove_law:
  assumes "hm_inv hm"
  shows "(hashmap_remove hm key kd = Inr (None, hm) \<and> (\<forall>e \<in># hm_entries hm. \<not> hm_eqv hm e (key, kd))) \<or>
    (\<exists>e hm'. hashmap_remove hm key kd = Inr (Some e, hm') \<and> e \<in># hm_entries hm \<and> hm_eqv hm e (key, kd) \<and>
       hm_inv hm' \<and> hm_entries hm' = hm_entries hm - {#e#} \<and> hm_cmpfn hm' = hm_cmpfn hm \<and> hm_room hm')"
proof -
  obtain tbl where tbl: "hm_table hm = Some tbl" "placed (hm_tablesize hm) tbl"
    "unat (hm_private_size hm) = length (concat tbl)" using assms by (auto simp: hm_inv_def)
  have sz: "hm_tablesize hm \<in> set hm_sizes" "hm_grow_at hm = grow_of (hm_tablesize hm)"
    "hm_private_size hm \<le> grow_of (hm_tablesize hm)" using assms by (auto simp: hm_inv_def)
  note facts = hm_sizes_facts [OF sz(1)]
  define b where "b = bucket hm key"
  define i where "i = length (takeWhile (\<lambda>e. \<not> hm_eqv hm e (key, kd)) (tbl ! b))"
  note find = hm_find(1,3,4) [OF assms tbl(1), where key = key and kd = kd, folded b_def, folded i_def]
  have b: "b < length tbl" using hm_find(2) [OF assms tbl(1), of key] by (simp add: b_def)
  show ?thesis
  proof (cases "i < length (tbl ! b)")
    case False
    with find tbl(1) show ?thesis by (simp add: hashmap_remove_def chain_entry_def)
  next
    case True
    define old where "old = tbl ! b ! i"
    define tbl1 where "tbl1 = tbl[b := take i (tbl ! b) @ drop (i + 1) (tbl ! b)]"
    define hm1 where "hm1 = hm\<lparr>hm_table := Some tbl1, hm_private_size := hm_private_size hm - 1\<rparr>"
    have old: "hm_eqv hm old (key, kd)" "old \<in># hm_entries hm" using find(2) True by (simp_all add: old_def)
    have tbl1: "placed (hm_tablesize hm) tbl1" "mset (concat tbl1) = mset (concat tbl) - {#old#}"
      unfolding tbl1_def old_def by (rule placed_drop [OF tbl(2)]) (rule mset_concat_drop [OF b True])
    obtain M where "mset (concat tbl) = add_mset old M"
      using old(2) multi_member_split [of old "mset (concat tbl)"] by (auto simp: hm_entries_def tbl(1))
    with tbl1(2) have "size (mset (concat tbl)) = Suc (size (mset (concat tbl1)))" by (simp only: add_mset_remove_trivial size_add_mset)
    then have cnt: "length (concat tbl) = Suc (length (concat tbl1))" by (simp only: size_mset)
    then have "hm_private_size hm \<noteq> 0" using tbl(3) by auto
    then have less: "hm_private_size hm - 1 < hm_private_size hm" "unat (hm_private_size hm - 1) = length (concat tbl1)"
      using cnt tbl(3) by (simp_all add: measure_unat word_less_nat_alt unat_minus_one del: length_concat)
    then have room: "hm_private_size hm - 1 < grow_of (hm_tablesize hm)" using sz(3) by (rule_tac order_less_le_trans)
    then have "hm_room hm1" "hm_private_size hm - 1 \<le> grow_of (hm_tablesize hm)"
      using facts(6) by (auto simp: hm_room_def hm1_def)
    have rem: "hashmap_remove hm key kd = (if hm_private_size hm - 1 < hm_shrink_at hm
        then map_sum id (Pair (Some old)) (rehash hm1 (drop_bit HASHMAP_RESIZE_BITS (hm_tablesize hm)))
        else Inr (Some old, hm1))"
      using find(1) tbl(1) True assms
      by (simp add: hashmap_remove_def chain_entry_def hm_inv_def hm1_def old_def tbl1_def Let_def)
    show ?thesis
    proof (cases "hm_private_size hm - 1 < hm_shrink_at hm")
      case False
      have "hm_inv hm1" using assms tbl1(1) less(2) \<open>hm_private_size hm - 1 \<le> _\<close> sz(2)
        by (simp add: hm_inv_def hm1_def del: length_concat)
      moreover have "hm_entries hm1 = hm_entries hm - {#old#}" using tbl1(2) by (simp add: hm_entries_def hm1_def tbl(1))
      ultimately show ?thesis using rem False old \<open>hm_room hm1\<close> by (auto simp: hm1_def)
    next
      case True
      then have shrink: "hm_tablesize hm \<noteq> 0x40" "hm_shrink_at hm = grow_of (hm_tablesize hm) div 5"
        using assms sz(2) by (auto simp: hm_inv_def)
      define t2 where "t2 = drop_bit HASHMAP_RESIZE_BITS (hm_tablesize hm)"
      have t2: "t2 \<in> set hm_sizes" "hm_shrink_at hm \<le> grow_of t2"
        using facts(3,5) shrink by (simp_all add: t2_def)
      obtain tbl2 where tbl2: "rehash hm1 t2 = Inr ((alloc_table hm1 t2)\<lparr>hm_table := Some tbl2\<rparr>)" "placed t2 tbl2"
        "mset (concat tbl2) = mset (concat tbl1)"
        using rehash_ok [of hm1 tbl1 t2] hm_sizes_facts(1) [OF t2(1)] by (auto simp: hm1_def)
      have "length (concat tbl2) = length (concat tbl1)" using tbl2(3) by (metis size_mset)
      moreover have "hm_private_size hm - 1 \<le> grow_of t2" using True t2(2) by (meson less_imp_le order_trans)
      ultimately have "hm_inv ((alloc_table hm1 t2)\<lparr>hm_table := Some tbl2\<rparr>)"
        using assms t2 tbl2(2) less(2) hm_sizes_facts(8) [OF t2(1)] by (simp add: hm_inv_def hm1_def del: length_concat)
      moreover have "hm_entries ((alloc_table hm1 t2)\<lparr>hm_table := Some tbl2\<rparr>) = hm_entries hm - {#old#}"
        using tbl1(2) tbl2(3) tbl(1) by (simp add: hm_entries_def)
      ultimately show ?thesis using rem True old \<open>hm_room hm1\<close> tbl2(1) by (auto simp: hm1_def t2_def hm_room_def)
    qed
  qed
qed

interpretation hm: keyed_store hm_inv hm_entries hm_eqv hm_room "\<lambda>hm k. hashmap_get hm (fst k) (snd k)" hashmap_add
  "\<lambda>hm k. hashmap_remove hm (fst k) (snd k)"
proof
  show "(hashmap_get s (fst k) (snd k) = Inr None \<and> (\<forall>e \<in># hm_entries s. \<not> hm_eqv s e k)) \<or>
      (\<exists>e. hashmap_get s (fst k) (snd k) = Inr (Some e) \<and> e \<in># hm_entries s \<and> hm_eqv s e k)" if "hm_inv s" for s k
    using hashmap_get_law [OF that, of "fst k" "snd k"] by simp
  show "\<exists>s'. hashmap_add s e = Inr s' \<and> hm_inv s' \<and> hm_entries s' = add_mset e (hm_entries s) \<and> hm_eqv s' = hm_eqv s"
    if "hm_inv s" "hm_room s" for s e
    using hashmap_add_law [OF that, of e] by (auto simp: hm_eqv_def fun_eq_iff)
  show "(hashmap_remove s (fst k) (snd k) = Inr (None, s) \<and> (\<forall>e \<in># hm_entries s. \<not> hm_eqv s e k)) \<or>
      (\<exists>e s'. hashmap_remove s (fst k) (snd k) = Inr (Some e, s') \<and> e \<in># hm_entries s \<and> hm_eqv s e k \<and> hm_inv s' \<and>
         hm_entries s' = hm_entries s - {#e#} \<and> hm_eqv s' = hm_eqv s \<and> (hm_room s \<longrightarrow> hm_room s'))" if "hm_inv s" for s k
    using hashmap_remove_law [OF that, of "fst k" "snd k"] by (auto simp: hm_eqv_def fun_eq_iff)
qed

section \<open>Initialisation\<close>

lemma init_size_partial:
  assumes "init_size_loop n t = Some r"
  shows "t = 0 \<or> t \<in> set hm_sizes \<longrightarrow> n \<le> ucast r \<and> (r = 0 \<or> r \<in> set hm_sizes)"
proof (rule init_size_loop.raw_induct [OF _ assms], intro impI)
  fix loop :: "u64 \<Rightarrow> u32 \<Rightarrow> u32 option" and n t r
  assume 1: "\<And>n t r. loop n t = Some r \<Longrightarrow> t = 0 \<or> t \<in> set hm_sizes \<longrightarrow> n \<le> ucast r \<and> (r = 0 \<or> r \<in> set hm_sizes)"
    "(if ucast t < n then loop n (push_bit HASHMAP_RESIZE_BITS t) else Some t) = Some r" "t = 0 \<or> t \<in> set hm_sizes"
  show "n \<le> ucast r \<and> (r = 0 \<or> r \<in> set hm_sizes)"
  proof (cases "ucast t < n")
    case True
    have "push_bit HASHMAP_RESIZE_BITS t = 0 \<or> push_bit HASHMAP_RESIZE_BITS t \<in> set hm_sizes"
      using 1(3) by (auto simp: hm_sizes_def HASHMAP_RESIZE_BITS_def)
    with 1(1) [of n "push_bit HASHMAP_RESIZE_BITS t" r] 1(2) True show ?thesis by simp
  next
    case False
    with 1(2,3) show ?thesis by (auto simp: not_less)
  qed
qed

lemma hm_sizes_ucast:
  assumes "t \<in> set hm_sizes"
  shows "ucast t \<le> (0x40000000 :: u64)" and "t \<noteq> 0x40000000 \<Longrightarrow> unat t < unat (push_bit HASHMAP_RESIZE_BITS t)"
    and "unat t \<le> 0x40000000"
  using assms unfolding hm_sizes_def by (auto simp: HASHMAP_RESIZE_BITS_def)

lemma init_size_total:
  "t \<in> set hm_sizes \<Longrightarrow> n \<le> 0x40000000 \<Longrightarrow> \<exists>r \<in> set hm_sizes. init_size_loop n t = Some r"
proof (induction "0x40000000 - unat t" arbitrary: t rule: less_induct)
  case less
  show ?case
  proof (cases "ucast t < n")
    case True
    then have t: "t \<noteq> 0x40000000" using less.prems(2) by auto
    have "\<exists>r \<in> set hm_sizes. init_size_loop n (push_bit HASHMAP_RESIZE_BITS t) = Some r"
      by (rule less.hyps)
        (use less.prems t hm_sizes_facts(2) [OF less.prems(1)] hm_sizes_ucast(2) [OF less.prems(1) t]
           hm_sizes_ucast(3) [of "push_bit HASHMAP_RESIZE_BITS t"] in \<open>auto intro: diff_less_mono2\<close>)
    with True show ?thesis by (subst init_size_loop.simps) simp
  next
    case False
    with less.prems show ?thesis by (subst init_size_loop.simps) simp
  qed
qed

section \<open>Iterating\<close>

definition iter_rest :: "('a, 'k) hashmap \<Rightarrow> 'a hashmap_iter \<Rightarrow> 'a hashmap_entry list" where
  "iter_rest hm it = it_next it @ concat (drop (it_tablepos it) (case hm_table hm of Some tbl \<Rightarrow> tbl | None \<Rightarrow> []))"

lemma iter_next_loop_spec:
  assumes "length tbl = unat (hm_tablesize hm)" and "iter_next_loop hm tbl pos current = (r, it)"
  shows "current @ concat (drop pos tbl) =
    (case r of None \<Rightarrow> [] | Some e \<Rightarrow> e # it_next it @ concat (drop (it_tablepos it) tbl))"
  using assms
proof (induction hm tbl pos current rule: iter_next_loop.induct)
  case (1 hm tbl pos current)
  show ?case
  proof (cases current)
    case (Cons e es)
    then show ?thesis using 1(3) by (auto simp: iter_next_loop.simps)
  next
    case Nil
    show ?thesis
    proof (cases "unat (hm_tablesize hm) \<le> pos")
      case True
      with Nil 1(2,3) show ?thesis by (auto simp: iter_next_loop.simps)
    next
      case False
      then have "drop pos tbl = tbl ! pos # drop (pos + 1) tbl" using 1(2) by (simp add: Cons_nth_drop_Suc)
      moreover have "iter_next_loop hm tbl (pos + 1) (tbl ! pos) = (r, it)"
        using 1(3) Nil False by (subst (asm) iter_next_loop.simps) simp
      ultimately show ?thesis using 1(1) [OF Nil False 1(2)] Nil by simp
    qed
  qed
qed

text \<open>\<open>hashmap_iter_next\<close> goes through the entries one by one and returns NULL after the last.\<close>

lemma hashmap_iter_next_spec:
  assumes "hm_inv hm"
  shows "hashmap_iter_next hm it = (r, it') \<Longrightarrow>
      iter_rest hm it = (case r of None \<Rightarrow> [] | Some e \<Rightarrow> e # iter_rest hm it')"
    and "mset (iter_rest hm hashmap_iter_init) = hm_entries hm"
proof -
  obtain tbl where tbl: "hm_table hm = Some tbl" "length tbl = unat (hm_tablesize hm)"
    using assms by (auto simp: hm_inv_def placed_def)
  show "iter_rest hm it = (case r of None \<Rightarrow> [] | Some e \<Rightarrow> e # iter_rest hm it')" if "hashmap_iter_next hm it = (r, it')"
    using iter_next_loop_spec [OF tbl(2)] that by (auto simp: iter_rest_def hashmap_iter_next_def tbl(1) split: option.split)
  show "mset (iter_rest hm hashmap_iter_init) = hm_entries hm"
    using tbl by (simp add: iter_rest_def hashmap_iter_init_def hm_entries_def)
qed

section \<open>The string pool\<close>

definition pool_strings :: "pool \<Rightarrow> (bytes \<times> nat) set" where
  "pool_strings hm = (\<lambda>e. (pe_data (ent_data e), ent_addr e)) ` set_mset (hm_entries hm)"

definition pool_entry_ok :: "pool_entry hashmap_entry \<Rightarrow> bool" where
  "pool_entry_ok e \<longleftrightarrow> ent_addr e \<noteq> 0 \<and> ent_hash e = memhash (pe_data (ent_data e)) \<and>
     pe_len (ent_data e) = length (pe_data (ent_data e))"

definition pool_inv :: "pool \<Rightarrow> bool" where
  "pool_inv hm \<longleftrightarrow> hm_tablesize hm = 0 \<and> hm_table hm = None \<or>
     hm_inv hm \<and> hm_cmpfn hm = Some pool_entry_cmp \<and> (\<forall>e \<in># hm_entries hm. pool_entry_ok e) \<and>
     (\<forall>(d, p) \<in> pool_strings hm. \<forall>(d', p') \<in> pool_strings hm. d = d' \<longleftrightarrow> p = p')"

lemma pool_eqv:
  assumes "hm_cmpfn hm = Some pool_entry_cmp" and "pool_entry_ok e" and "ent_addr e = ptr \<Longrightarrow> pe_data (ent_data e) = data"
    and "key = \<lparr>ent_addr = 0, ent_hash = memhash data, ent_data = \<lparr>pe_len = length data, pe_data = []\<rparr>\<rparr>"
  shows "hm_eqv hm e (key, Some (ptr, data)) \<longleftrightarrow> pe_data (ent_data e) = data"
proof -
  have "e \<noteq> key" using assms(2,4) by (auto simp: pool_entry_ok_def)
  then show ?thesis using assms
    by (auto simp: hm_eqv_def pool_entry_cmp_def pool_entry_ok_def memcmp_def)
qed

lemma hashmap_init_ok:
  assumes "ucast (ucast (n * 100 div of_nat HASHMAP_LOAD_FACTOR) :: u32) \<le> (0x40000000 :: u64)"
  shows "\<exists>hm. hashmap_init f n = Some hm \<and> hm_inv hm \<and> hm_entries hm = {#} \<and>
    hm_cmpfn hm = Some (case f of Some f \<Rightarrow> f | None \<Rightarrow> always_equal) \<and> hm_private_size hm = 0"
proof -
  have "HASHMAP_INITIAL_SIZE \<in> set hm_sizes" by (simp add: hm_sizes_def HASHMAP_INITIAL_SIZE_def)
  from init_size_total [OF this assms] obtain r where r: "r \<in> set hm_sizes"
    "init_size_loop (ucast (ucast (n * 100 div of_nat HASHMAP_LOAD_FACTOR) :: u32)) HASHMAP_INITIAL_SIZE = Some r" by blast
  then show ?thesis using placed_empty [of r] hm_sizes_facts(8) [OF r(1)]
    by (cases "r = 0x40") (auto simp: hashmap_init_def Let_def hm_inv_def hm_entries_def)
qed

lemma memintern_ok:
  assumes "pool_inv hm" and "hm_room hm" and "addr \<noteq> 0" and "\<forall>(d, p) \<in> pool_strings hm. p \<noteq> addr"
    and "\<forall>(d, p) \<in> pool_strings hm. p = ptr \<longrightarrow> d = data"
  shows "\<exists>p hm'. memintern addr hm ptr data = Some (Inr (p, hm')) \<and> pool_inv hm' \<and>
    pool_strings hm' = insert (data, p) (pool_strings hm)"
proof -
  obtain hm0 where hm0: "(if hm_tablesize hm = 0 then hashmap_init (Some pool_entry_cmp) 0 else Some hm) = Some hm0"
    "hm_inv hm0" "hm_entries hm0 = hm_entries hm" "hm_cmpfn hm0 = Some pool_entry_cmp" "hm_room hm0"
  proof (cases "hm_tablesize hm = 0")
    case True
    then have "hm_entries hm = {#}" using assms(1) hm_sizes_facts(1) by (auto simp: pool_inv_def hm_inv_def hm_entries_def)
    with True hashmap_init_ok [of 0 "Some pool_entry_cmp"] that show ?thesis by (auto simp: hm_room_def)
  next
    case False
    with assms(1,2) that show ?thesis by (auto simp: pool_inv_def)
  qed
  define key :: "pool_entry hashmap_entry"
    where "key = \<lparr>ent_addr = 0, ent_hash = memhash data, ent_data = \<lparr>pe_len = length data, pe_data = []\<rparr>\<rparr>"
  have ok: "pool_entry_ok e" if "e \<in># hm_entries hm" for e
    using that assms(1) by (auto simp: pool_inv_def hm_entries_def)
  have inj: "\<forall>(d, p) \<in> pool_strings hm. \<forall>(d', p') \<in> pool_strings hm. d = d' \<longleftrightarrow> p = p'"
    using assms(1) by (auto simp: pool_inv_def pool_strings_def hm_entries_def)
  have eqv: "hm_eqv hm0 e (key, Some (ptr, data)) \<longleftrightarrow> pe_data (ent_data e) = data" if "e \<in># hm_entries hm" for e
    by (rule pool_eqv [OF hm0(4) ok [OF that] _ key_def]) (use that assms(5) in \<open>auto simp: pool_strings_def\<close>)
  have strings0: "pool_strings hm0 = pool_strings hm" by (simp add: pool_strings_def hm0(3))
  show ?thesis
  proof (cases "hashmap_get hm0 key (Some (ptr, data)) = Inr None")
    case False
    then obtain e where e: "hashmap_get hm0 key (Some (ptr, data)) = Inr (Some e)" "e \<in># hm_entries hm" "pe_data (ent_data e) = data"
      using hashmap_get_law [OF hm0(2), of key "Some (ptr, data)"] hm0(3) eqv by auto
    have "memintern addr hm ptr data = Some (Inr (ent_addr e, hm0))"
      using hm0(1) e(1) by (simp add: memintern_def key_def Let_def)
    moreover have "pool_inv hm0" using hm0 ok inj strings0 by (simp add: pool_inv_def)
    moreover have "insert (data, ent_addr e) (pool_strings hm) = pool_strings hm" using e(2,3) by (auto simp: pool_strings_def)
    ultimately show ?thesis using strings0 by auto
  next
    case True
    then have new: "\<forall>e \<in># hm_entries hm. pe_data (ent_data e) \<noteq> data"
      using hashmap_get_law [OF hm0(2), of key "Some (ptr, data)"] hm0(3) eqv by auto
    define e where "e = \<lparr>ent_addr = addr, ent_hash = memhash data, ent_data = \<lparr>pe_len = length data, pe_data = data\<rparr>\<rparr>"
    obtain hm1 where hm1: "hashmap_add hm0 e = Inr hm1" "hm_inv hm1" "hm_entries hm1 = add_mset e (hm_entries hm)"
      "hm_cmpfn hm1 = Some pool_entry_cmp" using hashmap_add_law [OF hm0(2,5), of e] hm0(3,4) by auto
    have strings1: "pool_strings hm1 = insert (data, addr) (pool_strings hm)" using hm1(3) by (auto simp: pool_strings_def e_def)
    have "memintern addr hm ptr data = Some (Inr (addr, hm1))"
      using hm0(1) True hm1(1) by (simp add: memintern_def key_def e_def Let_def)
    moreover have "\<forall>e \<in># hm_entries hm1. pool_entry_ok e" using hm1(3) ok assms(3) by (auto simp: e_def pool_entry_ok_def)
    moreover have "\<forall>(d, p) \<in> pool_strings hm1. \<forall>(d', p') \<in> pool_strings hm1. d = d' \<longleftrightarrow> p = p'"
      unfolding strings1 using inj assms(4) new by (fastforce simp: pool_strings_def)
    ultimately show ?thesis using hm1(2,4) strings1 by (auto simp: pool_inv_def)
  qed
qed

section \<open>Properties\<close>

text \<open>
  C12: Putting and getting.  In a map that satisfies the invariant, has room and holds at most one entry
  equal to the given one, \<open>hashmap_put\<close> of an entry returns what \<open>hashmap_get\<close> found before, replaces exactly that entry, keeps the invariant
  through any rehash, and the entry is then found under its own key.
\<close>

theorem hashmap_put_get:
  assumes "hm_inv hm" and "hm_room hm" and "size {#x \<in># hm_entries hm. hm_eqv hm x (e, None)#} \<le> 1"
  shows "\<exists>old hm'. hashmap_put hm e = Inr (old, hm') \<and> hashmap_get hm e None = Inr old \<and> hm_inv hm' \<and>
    hashmap_get hm' e None = Inr (Some e) \<and>
    hm_entries hm' = add_mset e (case old of None \<Rightarrow> hm_entries hm | Some x \<Rightarrow> hm_entries hm - {#x#})"
proof -
  have "hm_eqv hm e (e, None)" by (simp add: hm_eqv_def)
  from hm.get_after_replace [OF assms(1,2) this assms(3)] show ?thesis by (fastforce simp: hashmap_put_def)
qed

theorem hashmap_put_get_witness:
  "let hm = alloc_table \<lparr>hm_table = None, hm_cmpfn = Some (always_equal :: (unit, unit) hashmap_cmp_fn), hm_private_size = 0,
       hm_tablesize = 0, hm_grow_at = 0, hm_shrink_at = 0, hm_do_count_items = True\<rparr> 64;
       e = \<lparr>ent_addr = 1, ent_hash = 5, ent_data = ()\<rparr>
   in \<exists>old hm'. hashmap_put hm e = Inr (old, hm') \<and> hashmap_get hm e None = Inr old \<and> hm_inv hm' \<and>
     hashmap_get hm' e None = Inr (Some e) \<and>
     hm_entries hm' = add_mset e (case old of None \<Rightarrow> hm_entries hm | Some x \<Rightarrow> hm_entries hm - {#x#})"
  unfolding Let_def
  by (rule hashmap_put_get) (use placed_empty [of "64 :: u32"] in \<open>simp_all add: hm_inv_def hm_room_def hm_entries_def hm_sizes_def\<close>)

text \<open>
  Interning.  \<open>memintern\<close> returns one address for each string: after it the pool holds the given
  string at the returned address and all it held before, and no two strings share an
  address and no string has two.
\<close>

theorem memintern_unique:
  assumes "pool_inv hm" and "hm_room hm" and "addr \<noteq> 0" and "\<forall>(d, p) \<in> pool_strings hm. p \<noteq> addr"
    and "\<forall>(d, p) \<in> pool_strings hm. p = ptr \<longrightarrow> d = data"
  shows "\<exists>p hm'. memintern addr hm ptr data = Some (Inr (p, hm')) \<and> pool_inv hm' \<and>
    pool_strings hm' = insert (data, p) (pool_strings hm) \<and>
    (\<forall>(d, q) \<in> pool_strings hm. d = data \<longleftrightarrow> q = p)"
proof -
  obtain p hm' where p: "memintern addr hm ptr data = Some (Inr (p, hm'))" "pool_inv hm'"
    "pool_strings hm' = insert (data, p) (pool_strings hm)" using memintern_ok [OF assms] by blast
  have "hm_entries hm' \<noteq> {#}" using p(3) by (auto simp: pool_strings_def)
  then have "\<forall>(d, p) \<in> pool_strings hm'. \<forall>(d', p') \<in> pool_strings hm'. d = d' \<longleftrightarrow> p = p'"
    using p(2) by (auto simp: pool_inv_def hm_entries_def)
  with p show ?thesis by auto
qed

theorem memintern_unique_witness:
  "let hm = \<lparr>hm_table = None, hm_cmpfn = None, hm_private_size = 0, hm_tablesize = 0, hm_grow_at = 0, hm_shrink_at = 0,
       hm_do_count_items = False\<rparr>
   in \<exists>p hm'. memintern 8 hm 3 [97, 98] = Some (Inr (p, hm')) \<and> pool_inv hm' \<and>
     pool_strings hm' = insert ([97, 98], p) (pool_strings hm) \<and> (\<forall>(d, q) \<in> pool_strings hm. d = [97, 98] \<longleftrightarrow> q = p)"
  unfolding Let_def
  by (rule memintern_unique) (simp_all add: pool_inv_def hm_room_def pool_strings_def hm_entries_def)

text \<open>
  C33: Initial sizes.  \<open>hashmap_init\<close> returns an empty map that satisfies the invariant for every
  initial size up to 858993459, and for no greater one below \<open>2^31\<close>: there the table size
  wraps to 0 and the loop that computes it does not end.
\<close>

theorem hashmap_init_ends:
  assumes "unat initial_size < 2 ^ 31"
  shows "if unat initial_size \<le> 858993459 then \<exists>hm. hashmap_init f initial_size = Some hm \<and> hm_inv hm \<and> hm_entries hm = {#}
    else hashmap_init f initial_size = None"
proof -
  define n where "n = (ucast (ucast (initial_size * 100 div of_nat HASHMAP_LOAD_FACTOR) :: u32) :: u64)"
  have "unat (initial_size * 100) = unat initial_size * 100" using assms by (subst unat_mult_lem [THEN iffD1]) simp_all
  then have "unat (initial_size * 100 div of_nat HASHMAP_LOAD_FACTOR) = unat initial_size * 100 div 80"
    by (simp add: HASHMAP_LOAD_FACTOR_def unat_div)
  then have "unat n = take_bit 32 (unat initial_size * 100 div 80)"
    unfolding n_def by (simp add: unsigned_ucast_eq unsigned_take_bit_eq)
  then have "unat n = unat initial_size * 100 div 80" using assms by (simp add: take_bit_nat_eq_self)
  then have n: "n \<le> 0x40000000 \<longleftrightarrow> unat initial_size \<le> 858993459" by (simp add: word_le_nat_alt) linarith
  have none: "hashmap_init f initial_size = None" if "\<not> n \<le> 0x40000000"
  proof (cases "init_size_loop n HASHMAP_INITIAL_SIZE")
    case (Some r)
    have "n \<le> ucast r \<and> (r = 0 \<or> r \<in> set hm_sizes)"
      using init_size_partial [OF Some] by (simp add: hm_sizes_def HASHMAP_INITIAL_SIZE_def)
    then have "n \<le> 0x40000000" using hm_sizes_ucast(1) [of r] by (auto intro: order_trans)
    with that show ?thesis by simp
  qed (simp add: hashmap_init_def Let_def n_def)
  show ?thesis using hashmap_init_ok [of initial_size f] none n unfolding n_def by auto
qed

theorem hashmap_init_ends_witness:
  "hashmap_init None 858993460 = None \<and> (\<exists>hm. hashmap_init None 100 = Some hm \<and> hm_inv hm \<and> hm_entries hm = {#})"
  using hashmap_init_ends [of 858993460 None] hashmap_init_ends [of 100 None] by simp

end
