(* ===== verification/String_List.thy ===== *)
theory String_List
  imports Hash_Lookup
begin

text \<open>
  \<open>string-list.c\<close>: lists of strings with a \<open>util\<close> value each, kept sorted by binary insertion or
  unsorted.  Strings are given without their NUL.  The copies that \<open>strdup_strings\<close> asks for and the
  calls of \<open>free\<close> do not change the contents and are left out.  \<open>qsort_s\<close> is a
  parameter.  A callback may change the item it is given, threads a state and returns an \<open>int\<close>.

  The binary search keeps its bounds in variables of type \<open>int\<close>: \<open>to_c_int\<close> is the conversion of the
  number of items, a \<open>size_t\<close>, to \<open>int\<close>.  The bounds never overflow for the lengths the claims on it allow.
  The number of pieces that splitting returns is an integer without bound here.
\<close>

section \<open>Sorted lists\<close>

record 'u string_list_item =
  si_string :: bytes
  si_util :: "'u option"

record 'u string_list =
  sl_items :: "'u string_list_item list"
  sl_strdup_strings :: bool
  sl_cmp :: "(bytes \<Rightarrow> bytes \<Rightarrow> int) option"

definition string_list_init_nodup :: "'u string_list" where
  "string_list_init_nodup = \<lparr>sl_items = [], sl_strdup_strings = False, sl_cmp = None\<rparr>"

definition string_list_init_dup :: "'u string_list" where
  "string_list_init_dup = \<lparr>sl_items = [], sl_strdup_strings = True, sl_cmp = None\<rparr>"

definition cmp_of :: "'u string_list \<Rightarrow> bytes \<Rightarrow> bytes \<Rightarrow> int" where
  "cmp_of list = (case sl_cmp list of Some cmp \<Rightarrow> cmp | None \<Rightarrow> strcmp)"

function entry_index_loop :: "(bytes \<Rightarrow> bytes \<Rightarrow> int) \<Rightarrow> bytes list \<Rightarrow> bytes \<Rightarrow> int \<Rightarrow> int \<Rightarrow> int \<times> bool" where
  "entry_index_loop cmp strings string left right =
     (if left + 1 < right then
        (let middle = left + (right - left) div 2;
             compare = cmp string (strings ! nat middle)
         in if compare < 0 then entry_index_loop cmp strings string left middle
            else if 0 < compare then entry_index_loop cmp strings string middle right
            else (middle, True))
      else (right, False))"
  by pat_completeness auto
termination by (relation "measure (\<lambda>(cmp, strings, string, left, right). nat (right - left))") auto

declare entry_index_loop.simps [simp del]

definition get_entry_index :: "'u string_list \<Rightarrow> bytes \<Rightarrow> int \<times> bool" where
  "get_entry_index list string =
     entry_index_loop (cmp_of list) (map si_string (sl_items list)) string (- 1) (to_c_int (length (sl_items list)))"

definition add_entry :: "int \<Rightarrow> 'u string_list \<Rightarrow> bytes \<Rightarrow> int \<times> 'u string_list" where
  "add_entry insert_at list string =
     (let (index, exact_match) = (if insert_at \<noteq> - 1 then (insert_at, False) else get_entry_index list string) in
      if exact_match then (- 1 - index, list)
      else (index,
            list\<lparr>sl_items := take (nat index) (sl_items list) @ \<lparr>si_string = string, si_util = None\<rparr> #
                   drop (nat index) (sl_items list)\<rparr>))"

definition string_list_insert :: "'u string_list \<Rightarrow> bytes \<Rightarrow> nat \<times> 'u string_list" where
  "string_list_insert list string =
     (let (index, list) = add_entry (- 1) list string;
          index = (if index < 0 then - 1 - index else index)
      in (nat index, list))"

definition string_list_remove :: "'u string_list \<Rightarrow> bytes \<Rightarrow> 'u string_list" where
  "string_list_remove list string =
     (let (i, exact_match) = get_entry_index list string in
      if exact_match
      then list\<lparr>sl_items := take (nat i) (sl_items list) @ drop (nat i + 1) (sl_items list)\<rparr>
      else list)"

definition string_list_has_string :: "'u string_list \<Rightarrow> bytes \<Rightarrow> bool" where
  "string_list_has_string list string = snd (get_entry_index list string)"

definition string_list_find_insert_index :: "'u string_list \<Rightarrow> bytes \<Rightarrow> bool \<Rightarrow> int" where
  "string_list_find_insert_index list string negative_existing_index =
     (let (index, exact_match) = get_entry_index list string in
      if exact_match then - 1 - (if negative_existing_index then index else 0) else index)"

definition string_list_lookup :: "'u string_list \<Rightarrow> bytes \<Rightarrow> nat option" where
  "string_list_lookup list string =
     (let (i, exact_match) = get_entry_index list string in if exact_match then Some (nat i) else None)"

fun remove_duplicates_loop ::
  "(bytes \<Rightarrow> bytes \<Rightarrow> int) \<Rightarrow> 'u string_list_item list \<Rightarrow> 'u string_list_item list \<Rightarrow> 'u string_list_item list" where
  "remove_duplicates_loop cmp dst [] = dst"
| "remove_duplicates_loop cmp dst (item # src) =
     (if cmp (si_string (last dst)) (si_string item) = 0 then remove_duplicates_loop cmp dst src
      else remove_duplicates_loop cmp (dst @ [item]) src)"

definition string_list_remove_duplicates :: "'u string_list \<Rightarrow> 'u string_list" where
  "string_list_remove_duplicates list =
     (if 1 < length (sl_items list)
      then list\<lparr>sl_items := remove_duplicates_loop (cmp_of list) [hd (sl_items list)] (tl (sl_items list))\<rparr>
      else list)"

section \<open>General operations\<close>

fun for_each_item ::
  "('u string_list_item \<Rightarrow> 's \<Rightarrow> int \<times> 'u string_list_item \<times> 's) \<Rightarrow> 'u string_list_item list \<Rightarrow> 's \<Rightarrow>
    int \<times> 'u string_list_item list \<times> 's" where
  "for_each_item fn [] cb_data = (0, [], cb_data)"
| "for_each_item fn (item # items) cb_data =
     (case fn item cb_data of
        (ret, item, cb_data) \<Rightarrow>
          if ret \<noteq> 0 then (ret, item # items, cb_data)
          else (case for_each_item fn items cb_data of (ret, items, cb_data) \<Rightarrow> (ret, item # items, cb_data)))"

definition for_each_string_list ::
  "'u string_list \<Rightarrow> ('u string_list_item \<Rightarrow> 's \<Rightarrow> int \<times> 'u string_list_item \<times> 's) \<Rightarrow> 's \<Rightarrow> int \<times> 'u string_list \<times> 's" where
  "for_each_string_list list fn cb_data =
     (case for_each_item fn (sl_items list) cb_data of
        (ret, items, cb_data) \<Rightarrow> (ret, list\<lparr>sl_items := items\<rparr>, cb_data))"

fun filter_items ::
  "('u string_list_item \<Rightarrow> 's \<Rightarrow> int \<times> 'u string_list_item \<times> 's) \<Rightarrow> 'u string_list_item list \<Rightarrow> 's \<Rightarrow>
    'u string_list_item list \<times> 's" where
  "filter_items want [] cb_data = ([], cb_data)"
| "filter_items want (item # items) cb_data =
     (case want item cb_data of
        (ret, item, cb_data) \<Rightarrow>
          (case filter_items want items cb_data of
             (items, cb_data) \<Rightarrow> (if ret \<noteq> 0 then item # items else items, cb_data)))"

definition filter_string_list ::
  "'u string_list \<Rightarrow> ('u string_list_item \<Rightarrow> 's \<Rightarrow> int \<times> 'u string_list_item \<times> 's) \<Rightarrow> 's \<Rightarrow> 'u string_list \<times> 's" where
  "filter_string_list list want cb_data =
     (case filter_items want (sl_items list) cb_data of (items, cb_data) \<Rightarrow> (list\<lparr>sl_items := items\<rparr>, cb_data))"

definition item_is_not_empty :: "'u string_list_item \<Rightarrow> unit \<Rightarrow> int \<times> 'u string_list_item \<times> unit" where
  "item_is_not_empty item data = (if si_string item \<noteq> [] then 1 else 0, item, data)"

definition string_list_remove_empty_items :: "'u string_list \<Rightarrow> 'u string_list" where
  "string_list_remove_empty_items list = fst (filter_string_list list item_is_not_empty ())"

definition string_list_clear :: "'u string_list \<Rightarrow> 'u string_list" where
  "string_list_clear list = list\<lparr>sl_items := []\<rparr>"

definition string_list_setlen :: "'u string_list \<Rightarrow> nat \<Rightarrow> cfault + 'u string_list" where
  "string_list_setlen list nr =
     (if sl_strdup_strings list then Inl Bug
      else if length (sl_items list) < nr then Inl Bug
      else Inr (list\<lparr>sl_items := take nr (sl_items list)\<rparr>))"

definition string_list_append_nodup :: "'u string_list \<Rightarrow> bytes \<Rightarrow> 'u string_list" where
  "string_list_append_nodup list string = list\<lparr>sl_items := sl_items list @ [\<lparr>si_string = string, si_util = None\<rparr>]\<rparr>"

definition string_list_append :: "'u string_list \<Rightarrow> bytes \<Rightarrow> 'u string_list" where
  "string_list_append list string = string_list_append_nodup list string"

definition cmp_items :: "(bytes \<Rightarrow> bytes \<Rightarrow> int) \<Rightarrow> 'u string_list_item \<Rightarrow> 'u string_list_item \<Rightarrow> int" where
  "cmp_items cmp one two = cmp (si_string one) (si_string two)"

definition string_list_sort ::
  "(('u string_list_item \<Rightarrow> 'u string_list_item \<Rightarrow> int) \<Rightarrow> 'u string_list_item list \<Rightarrow> 'u string_list_item list) \<Rightarrow>
    'u string_list \<Rightarrow> 'u string_list" where
  "string_list_sort qsort_s list = list\<lparr>sl_items := qsort_s (cmp_items (cmp_of list)) (sl_items list)\<rparr>"

fun unsorted_lookup_loop :: "(bytes \<Rightarrow> bytes \<Rightarrow> int) \<Rightarrow> bytes \<Rightarrow> 'u string_list_item list \<Rightarrow> nat \<Rightarrow> nat option" where
  "unsorted_lookup_loop cmp string [] i = None"
| "unsorted_lookup_loop cmp string (item # items) i =
     (if cmp string (si_string item) = 0 then Some i else unsorted_lookup_loop cmp string items (i + 1))"

definition unsorted_string_list_lookup :: "'u string_list \<Rightarrow> bytes \<Rightarrow> nat option" where
  "unsorted_string_list_lookup list string = unsorted_lookup_loop (cmp_of list) string (sl_items list) 0"

definition unsorted_string_list_has_string :: "'u string_list \<Rightarrow> bytes \<Rightarrow> bool" where
  "unsorted_string_list_has_string list string \<longleftrightarrow> unsorted_string_list_lookup list string \<noteq> None"

definition unsorted_string_list_delete_item :: "'u string_list \<Rightarrow> nat \<Rightarrow> cfault + 'u string_list" where
  "unsorted_string_list_delete_item list i =
     (if i < length (sl_items list)
      then Inr (list\<lparr>sl_items := butlast ((sl_items list)[i := last (sl_items list)])\<rparr>)
      else Inl Undef)"

section \<open>Splitting\<close>

text \<open>
  Both loops find the first delimiter of the rest of the string and go on behind it.  With
  the delimiter 0, \<open>strchr\<close> finds the NUL, and the code reads on behind the string.
  \<open>string_list_split_in_place\<close> overwrites the delimiters with NUL and also returns the
  bytes of the string.
\<close>

function split_loop :: "'u string_list \<Rightarrow> bytes \<Rightarrow> byte \<Rightarrow> int \<Rightarrow> int \<Rightarrow> cfault + int \<times> 'u string_list" where
  "split_loop list p delim maxsplit n =
     (let n = n + 1 in
      if 0 \<le> maxsplit \<and> maxsplit < n then Inr (n, string_list_append list p)
      else if delim = 0 then Inl Undef
      else if delim \<in> set p then
        split_loop (string_list_append_nodup list (takeWhile (\<lambda>c. c \<noteq> delim) p)) (tl (dropWhile (\<lambda>c. c \<noteq> delim) p))
          delim maxsplit n
      else Inr (n, string_list_append list p))"
  by pat_completeness auto
termination
proof (relation "measure (\<lambda>(list, p, delim, maxsplit, n). length p)")
  show "((string_list_append_nodup list (takeWhile (\<lambda>c. c \<noteq> delim) p), tl (dropWhile (\<lambda>c. c \<noteq> delim) p), delim, maxsplit, x),
      list, p, delim, maxsplit, n) \<in> measure (\<lambda>(list, p, delim, maxsplit, n). length p)"
    if "delim \<in> set p" for list :: "'u string_list" and p delim maxsplit n x
    using that length_dropWhile_le [of "\<lambda>c. c \<noteq> delim" p] by (cases "dropWhile (\<lambda>c. c \<noteq> delim) p") auto
qed simp

declare split_loop.simps [simp del]

definition string_list_split :: "'u string_list \<Rightarrow> bytes \<Rightarrow> byte \<Rightarrow> int \<Rightarrow> cfault + int \<times> 'u string_list" where
  "string_list_split list string delim maxsplit =
     (if \<not> sl_strdup_strings list then Inl Die else split_loop list string delim maxsplit 0)"

function split_in_place_loop ::
  "'u string_list \<Rightarrow> bytes \<Rightarrow> bytes \<Rightarrow> bytes \<Rightarrow> int \<Rightarrow> int \<Rightarrow> int \<times> bytes \<times> 'u string_list" where
  "split_in_place_loop list done p delim maxsplit n =
     (let n = n + 1 in
      if 0 \<le> maxsplit \<and> maxsplit < n then (n, done @ p, string_list_append list p)
      else if set delim \<inter> set p \<noteq> {} then
        split_in_place_loop (string_list_append list (takeWhile (\<lambda>c. c \<notin> set delim) p))
          (done @ takeWhile (\<lambda>c. c \<notin> set delim) p @ [0]) (tl (dropWhile (\<lambda>c. c \<notin> set delim) p)) delim maxsplit n
      else (n, done @ p, string_list_append list p))"
  by pat_completeness auto
termination
proof (relation "measure (\<lambda>(list, done, p, delim, maxsplit, n). length p)")
  show "((string_list_append list (takeWhile (\<lambda>c. c \<notin> set delim) p), done @ takeWhile (\<lambda>c. c \<notin> set delim) p @ [0],
        tl (dropWhile (\<lambda>c. c \<notin> set delim) p), delim, maxsplit, x), list, done, p, delim, maxsplit, n)
      \<in> measure (\<lambda>(list, done, p, delim, maxsplit, n). length p)"
    if "set delim \<inter> set p \<noteq> {}" for list :: "'u string_list" and "done" p delim maxsplit n x
    using that length_dropWhile_le [of "\<lambda>c. c \<notin> set delim" p] by (cases "dropWhile (\<lambda>c. c \<notin> set delim) p") auto
qed simp

declare split_in_place_loop.simps [simp del]

definition string_list_split_in_place ::
  "'u string_list \<Rightarrow> bytes \<Rightarrow> bytes \<Rightarrow> int \<Rightarrow> cfault + int \<times> bytes \<times> 'u string_list" where
  "string_list_split_in_place list string delim maxsplit =
     (if sl_strdup_strings list then Inl Die else Inr (split_in_place_loop list [] string delim maxsplit 0))"

section \<open>The binary search\<close>

abbreviation strings :: "'u string_list \<Rightarrow> bytes list" where
  "strings list \<equiv> map si_string (sl_items list)"

definition sl_sorted :: "'u string_list \<Rightarrow> bool" where
  "sl_sorted list \<longleftrightarrow> sorted_wrt (\<lambda>a b. cmp_of list a b < 0) (strings list)"

lemma entry_index_loop_result:
  assumes "comparison cmp" and "sorted_wrt (\<lambda>a b. cmp a b \<le> 0) table"
    and "sorted_search.window cmp table x (nat (left + 1)) (nat right)"
    and "- 1 \<le> left" and "left < right" and "right \<le> int (length table)"
    and "entry_index_loop cmp table x left right = (i, found)"
  shows "0 \<le> i \<and> (if found then nat i < length table \<and> cmp x (table ! nat i) = 0
    else sorted_search.window cmp table x (nat i) (nat i))"
  using assms
proof (induction cmp table x left right rule: entry_index_loop.induct)
  case (1 cmp table x left right)
  note ss = sorted_search.intro [OF "1.prems"(1)]
  note sign = comparison.cmp_pos_iff [OF "1.prems"(1)]
  show ?case
  proof (cases "left + 1 < right")
    case True
    define middle where "middle = left + (right - left) div 2"
    have mid: "left < middle" "middle < right" using True by (auto simp: middle_def)
    have ix: "nat (left + 1) \<le> nat middle" "nat middle < nat right" "0 \<le> middle" "nat middle < length table"
      "nat middle + 1 = nat (middle + 1)" using mid "1.prems"(4,6) by linarith+
    consider "cmp x (table ! nat middle) < 0" | "0 < cmp x (table ! nat middle)" | "cmp x (table ! nat middle) = 0"
      by linarith
    then show ?thesis
    proof cases
      case 1
      have "entry_index_loop cmp table x left right = entry_index_loop cmp table x left middle"
        using True 1 by (subst entry_index_loop.simps) (simp add: middle_def Let_def)
      moreover have "sorted_search.window cmp table x (nat (left + 1)) (nat middle)"
        using sorted_search.window_low [OF ss "1.prems"(2,3) ix(2) _ ix(1)] sign 1 by blast
      ultimately show ?thesis
        using "1.IH"(1) [OF True middle_def refl 1 "1.prems"(1,2) _ "1.prems"(4) mid(1)] mid(2) "1.prems"(6,7) by simp
    next
      case 2
      have "entry_index_loop cmp table x left right = entry_index_loop cmp table x middle right"
        using True 2 by (subst entry_index_loop.simps) (simp add: middle_def Let_def)
      moreover have "sorted_search.window cmp table x (nat (middle + 1)) (nat right)"
        using sorted_search.window_high [OF ss "1.prems"(2,3) ix(2) _ ix(1)] sign 2 unfolding ix(5) by blast
      moreover have "\<not> cmp x (table ! nat middle) < 0" using 2 by simp
      ultimately show ?thesis
        using "1.IH"(2) [OF True middle_def refl _ 2 "1.prems"(1,2) _ _ mid(2) "1.prems"(6)] ix(3) "1.prems"(7) by simp
    next
      case 3
      have "entry_index_loop cmp table x left right = (middle, True)"
        using True 3 by (subst entry_index_loop.simps) (simp add: middle_def Let_def)
      with "1.prems"(7) 3 ix show ?thesis by auto
    qed
  next
    case False
    then have "right = left + 1" using "1.prems"(5) by simp
    moreover have "entry_index_loop cmp table x left right = (right, False)"
      using False by (subst entry_index_loop.simps) simp
    ultimately show ?thesis using "1.prems"(3,4,7) by auto
  qed
qed

text \<open>
  The lists the binary search can handle: the conversion of the length to \<open>int\<close> and the difference of
  the bounds must not overflow.
\<close>

definition searchable :: "'u string_list \<Rightarrow> bool" where
  "searchable list \<longleftrightarrow> length (sl_items list) < INT_MAX"

lemma searchable_to_c_int: "searchable list \<Longrightarrow> to_c_int (length (sl_items list)) = int (length (sl_items list))"
  by (simp add: searchable_def to_c_int_eq)

lemma get_entry_index_result:
  assumes "comparison (cmp_of list)" and "sl_sorted list" and "searchable list" and "get_entry_index list x = (i, found)"
  shows "0 \<le> i" and "nat i \<le> length (sl_items list)"
    and "found \<Longrightarrow> nat i < length (sl_items list) \<and> cmp_of list x (strings list ! nat i) = 0"
    and "\<not> found \<Longrightarrow> j < nat i \<Longrightarrow> cmp_of list (strings list ! j) x < 0"
    and "\<not> found \<Longrightarrow> nat i \<le> j \<Longrightarrow> j < length (sl_items list) \<Longrightarrow> 0 < cmp_of list (strings list ! j) x"
proof -
  note ss = sorted_search.intro [OF assms(1)]
  have "sorted_wrt (\<lambda>a b. cmp_of list a b \<le> 0) (strings list)"
    using assms(2) unfolding sl_sorted_def by (rule sorted_wrt_mono_rel [rotated]) simp
  then have r: "0 \<le> i \<and> (if found then nat i < length (strings list) \<and> cmp_of list x (strings list ! nat i) = 0
    else sorted_search.window (cmp_of list) (strings list) x (nat i) (nat i))"
    using sorted_search.window_full [OF ss, of "strings list" x] assms(4)
    by (intro entry_index_loop_result [OF assms(1), where left = "- 1" and right = "int (length (sl_items list))"])
      (simp_all add: get_entry_index_def searchable_to_c_int [OF assms(3)])
  then show "0 \<le> i" and "nat i \<le> length (sl_items list)"
    and "found \<Longrightarrow> nat i < length (sl_items list) \<and> cmp_of list x (strings list ! nat i) = 0"
    and "\<not> found \<Longrightarrow> j < nat i \<Longrightarrow> cmp_of list (strings list ! j) x < 0"
    and "\<not> found \<Longrightarrow> nat i \<le> j \<Longrightarrow> j < length (sl_items list) \<Longrightarrow> 0 < cmp_of list (strings list ! j) x"
    by (auto simp: sorted_search.window_def [OF ss] split: if_splits)
qed

lemma has_string_iff:
  assumes "comparison (cmp_of list)" and "sl_sorted list" and "searchable list"
  shows "string_list_has_string list x \<longleftrightarrow> (\<exists>s \<in> set (strings list). cmp_of list x s = 0)"
proof -
  obtain i found where r: "get_entry_index list x = (i, found)" by (cases "get_entry_index list x")
  note result = get_entry_index_result [OF assms r]
  show ?thesis
  proof (cases found)
    case True
    with result(3) r show ?thesis by (force simp: string_list_has_string_def)
  next
    case False
    have "cmp_of list x (strings list ! j) \<noteq> 0" if "j < length (sl_items list)" for j
      using result(4,5) [OF False, of j] that comparison.cmp_zero_sym [OF assms(1)] by (metis less_irrefl not_less)
    then have "\<forall>s \<in> set (strings list). cmp_of list x s \<noteq> 0" by (metis in_set_conv_nth length_map)
    with False r show ?thesis by (auto simp: string_list_has_string_def)
  qed
qed

section \<open>Insertion and removal\<close>

lemma insert_result:
  assumes "comparison (cmp_of list)" and "sl_sorted list" and "searchable list" and "string_list_insert list x = (i, list')"
  shows "sl_sorted list'" and "i < length (sl_items list')" and "cmp_of list x (strings list' ! i) = 0"
    and "cmp_of list' = cmp_of list"
    and "string_list_has_string list x \<Longrightarrow> list' = list"
    and "\<not> string_list_has_string list x \<Longrightarrow>
      sl_items list' = take i (sl_items list) @ \<lparr>si_string = x, si_util = None\<rparr> # drop i (sl_items list)"
proof -
  obtain k found where r: "get_entry_index list x = (k, found)" by (cases "get_entry_index list x")
  note result = get_entry_index_result [OF assms(1-3) r]
  have has: "string_list_has_string list x = found" using r by (simp add: string_list_has_string_def)
  have "sl_sorted list' \<and> i < length (sl_items list') \<and> cmp_of list x (strings list' ! i) = 0 \<and> cmp_of list' = cmp_of list \<and>
    (found \<longrightarrow> list' = list) \<and>
    (\<not> found \<longrightarrow> sl_items list' = take i (sl_items list) @ \<lparr>si_string = x, si_util = None\<rparr> # drop i (sl_items list))"
  proof (cases found)
    case True
    with assms(2,4) r result(1,3) show ?thesis by (auto simp: string_list_insert_def add_entry_def)
  next
    case False
    have i: "i = nat k" and list': "list' = list\<lparr>sl_items := take i (sl_items list) @ \<lparr>si_string = x, si_util = None\<rparr> # drop i (sl_items list)\<rparr>"
      using assms(4) r False result(1) by (auto simp: string_list_insert_def add_entry_def)
    have "cmp_of list s x < 0" if "s \<in> set (take i (strings list))" for s
      using that result(4) [OF False] i by (auto simp: in_set_conv_nth simp del: nth_map)
    moreover have "cmp_of list x s < 0" if s: "s \<in> set (drop i (strings list))" for s
    proof -
      obtain j where "j < length (strings list) - i" "s = strings list ! (i + j)"
        using s by (auto simp: in_set_conv_nth simp del: nth_map)
      then have "0 < cmp_of list s x" using result(5) [OF False, of "i + j"] i by simp
      then show ?thesis using comparison.cmp_pos_iff [OF assms(1)] by simp
    qed
    moreover have "cmp_of list s t < 0" if "s \<in> set (take i (strings list))" "t \<in> set (drop i (strings list))" for s t
      using assms(2) that unfolding sl_sorted_def by (metis append_take_drop_id sorted_wrt_append)
    moreover have "sorted_wrt (\<lambda>a b. cmp_of list a b < 0) (take i (strings list))"
      "sorted_wrt (\<lambda>a b. cmp_of list a b < 0) (drop i (strings list))"
      using assms(2) unfolding sl_sorted_def by (simp_all add: sorted_wrt_take sorted_wrt_drop)
    moreover have "cmp_of list' = cmp_of list" by (simp add: list' cmp_of_def)
    ultimately have "sl_sorted list'" by (auto simp: sl_sorted_def list' sorted_wrt_append take_map drop_map)
    moreover have "i \<le> length (sl_items list)" using result(2) i by simp
    then have "strings list' ! i = x" by (simp add: list' nth_append)
    ultimately show ?thesis using False list' \<open>i \<le> _\<close> \<open>cmp_of list' = _\<close> comparison.cmp_refl [OF assms(1)] by simp
  qed
  then show "sl_sorted list'" and "i < length (sl_items list')" and "cmp_of list x (strings list' ! i) = 0"
    and "cmp_of list' = cmp_of list" and "string_list_has_string list x \<Longrightarrow> list' = list"
    and "\<not> string_list_has_string list x \<Longrightarrow>
      sl_items list' = take i (sl_items list) @ \<lparr>si_string = x, si_util = None\<rparr> # drop i (sl_items list)"
    unfolding has by blast+
qed

lemma remove_result:
  assumes "comparison (cmp_of list)" and "sl_sorted list" and "searchable list"
  shows "sl_sorted (string_list_remove list x)" and "cmp_of (string_list_remove list x) = cmp_of list"
    and "sl_items (string_list_remove list x) = filter (\<lambda>item. cmp_of list x (si_string item) \<noteq> 0) (sl_items list)"
proof -
  obtain k found where r: "get_entry_index list x = (k, found)" by (cases "get_entry_index list x")
  note result = get_entry_index_result [OF assms r]
  show cmp: "cmp_of (string_list_remove list x) = cmp_of list" by (simp add: string_list_remove_def r cmp_of_def)
  show items: "sl_items (string_list_remove list x) = filter (\<lambda>item. cmp_of list x (si_string item) \<noteq> 0) (sl_items list)"
  proof (cases found)
    case False
    then have "\<forall>s \<in> set (strings list). cmp_of list x s \<noteq> 0"
      using has_string_iff [OF assms, of x] r by (simp add: string_list_has_string_def)
    with False r show ?thesis by (simp add: string_list_remove_def)
  next
    case True
    define i where "i = nat k"
    have i: "i < length (sl_items list)" "cmp_of list x (strings list ! i) = 0" using result(3) [OF True] by (auto simp: i_def)
    have split: "sl_items list = take i (sl_items list) @ sl_items list ! i # drop (i + 1) (sl_items list)"
      using id_take_nth_drop [OF i(1)] by simp
    have less: "cmp_of list a (strings list ! i) < 0" if "a \<in> si_string ` set (take i (sl_items list))" for a
    proof -
      obtain j where "j < i" "a = strings list ! j" using \<open>a \<in> _\<close> i(1) by (auto simp: in_set_conv_nth)
      then show ?thesis using sorted_wrt_nth_less [OF assms(2) [unfolded sl_sorted_def]] i(1) by simp
    qed
    have more: "cmp_of list (strings list ! i) a < 0" if "a \<in> si_string ` set (drop (i + 1) (sl_items list))" for a
    proof -
      obtain j where "j < length (sl_items list) - (i + 1)" "a = strings list ! (i + 1 + j)"
        using \<open>a \<in> _\<close> i(1) by (auto simp: in_set_conv_nth)
      then show ?thesis using sorted_wrt_nth_less [OF assms(2) [unfolded sl_sorted_def], of i "i + 1 + j"] by simp
    qed
    have ne: "cmp_of list x a \<noteq> 0" if "a \<in> si_string ` set (take i (sl_items list)) \<union> si_string ` set (drop (i + 1) (sl_items list))" for a
      using that less [of a] more [of a] i(2) comparison.cmp_zero_trans [OF assms(1)] comparison.cmp_zero_sym [OF assms(1)]
      by (metis UnE less_irrefl)
    have "filter (\<lambda>item. cmp_of list x (si_string item) \<noteq> 0) (sl_items list) = take i (sl_items list) @ drop (i + 1) (sl_items list)"
      by (subst split) (use ne i in \<open>simp del: drop_Suc\<close>)
    with True r show ?thesis by (simp add: string_list_remove_def i_def)
  qed
  show "sl_sorted (string_list_remove list x)" using assms(2) cmp items
    by (simp add: sl_sorted_def sorted_wrt_map sorted_wrt_filter)
qed

lemma lookup_unique:
  assumes "comparison (cmp_of list)" and "sl_sorted list" and "searchable list" and "i < length (sl_items list)" and "cmp_of list x (strings list ! i) = 0"
  shows "string_list_lookup list x = Some i"
proof -
  obtain k found where r: "get_entry_index list x = (k, found)" by (cases "get_entry_index list x")
  have "strings list ! i \<in> set (strings list)" using assms(4) by (metis length_map nth_mem)
  then have found using has_string_iff [OF assms(1-3), of x] assms(5) r by (auto simp: string_list_has_string_def)
  then have k: "nat k < length (sl_items list)" "cmp_of list x (strings list ! nat k) = 0"
    using get_entry_index_result(3) [OF assms(1-3) r] by blast+
  have "cmp_of list (strings list ! nat k) (strings list ! i) = 0" "cmp_of list (strings list ! i) (strings list ! nat k) = 0"
    using k(2) assms(5) comparison.cmp_zero_trans [OF assms(1)] comparison.cmp_zero_sym [OF assms(1)] by metis+
  then have "\<not> nat k < i" "\<not> i < nat k"
    using sorted_wrt_nth_less [OF assms(2) [unfolded sl_sorted_def]] k(1) assms(4) by (metis length_map less_irrefl)+
  then show ?thesis using r \<open>found\<close> by (simp add: string_list_lookup_def)
qed

lemma insert_remove_frame [simp]:
  "sl_cmp (snd (string_list_insert list x)) = sl_cmp list"
  "sl_strdup_strings (snd (string_list_insert list x)) = sl_strdup_strings list"
  "sl_cmp (string_list_remove list x) = sl_cmp list"
  "sl_strdup_strings (string_list_remove list x) = sl_strdup_strings list"
  by (auto simp: string_list_insert_def add_entry_def string_list_remove_def Let_def split: prod.splits)

section \<open>Removing duplicates\<close>

lemma remove_duplicates_loop_sorted:
  assumes "comparison cmp" and "dst \<noteq> []"
    and "sorted_wrt (\<lambda>a b. cmp (si_string a) (si_string b) < 0) dst"
    and "sorted_wrt (\<lambda>a b. cmp (si_string a) (si_string b) \<le> 0) (last dst # src)"
  shows "sorted_wrt (\<lambda>a b. cmp (si_string a) (si_string b) < 0) (remove_duplicates_loop cmp dst src) \<and>
    set (remove_duplicates_loop cmp dst src) \<subseteq> set dst \<union> set src \<and>
    (\<forall>a \<in> set dst \<union> set src. \<exists>b \<in> set (remove_duplicates_loop cmp dst src). cmp (si_string a) (si_string b) = 0)"
  using assms(2-)
proof (induction src arbitrary: dst)
  case Nil
  then show ?case using comparison.cmp_refl [OF assms(1)] by auto
next
  case (Cons item src)
  show ?case
  proof (cases "cmp (si_string (last dst)) (si_string item) = 0")
    case True
    have IH: "sorted_wrt (\<lambda>a b. cmp (si_string a) (si_string b) < 0) (remove_duplicates_loop cmp dst src)"
      "set (remove_duplicates_loop cmp dst src) \<subseteq> set dst \<union> set src"
      "\<forall>a \<in> set dst \<union> set src. \<exists>b \<in> set (remove_duplicates_loop cmp dst src). cmp (si_string a) (si_string b) = 0"
      using Cons.IH [of dst] Cons.prems by simp_all
    obtain b where "b \<in> set (remove_duplicates_loop cmp dst src)" "cmp (si_string (last dst)) (si_string b) = 0"
      using IH(3) last_in_set [OF Cons.prems(1)] by blast
    then have "\<exists>b \<in> set (remove_duplicates_loop cmp dst src). cmp (si_string item) (si_string b) = 0"
      using True comparison.cmp_zero_trans [OF assms(1)] comparison.cmp_zero_sym [OF assms(1)] by metis
    with IH True show ?thesis by auto
  next
    case False
    then have less: "cmp (si_string (last dst)) (si_string item) < 0" using Cons.prems(3) by (simp add: order_less_le)
    have "cmp (si_string a) (si_string item) < 0" if "a \<in> set dst" for a
    proof (cases "a = last dst")
      case False
      then have "a \<in> set (butlast dst)" using that by (cases dst rule: rev_cases) auto
      then have "cmp (si_string a) (si_string (last dst)) < 0"
        using Cons.prems(1,2) by (cases dst rule: rev_cases) (auto simp: sorted_wrt_append)
      then show ?thesis using less comparison.cmp_le_less_trans [OF assms(1)] by (meson less_imp_le)
    qed (use less in simp)
    then have "sorted_wrt (\<lambda>a b. cmp (si_string a) (si_string b) < 0) (dst @ [item])"
      using Cons.prems(2) by (simp add: sorted_wrt_append)
    with Cons.IH [of "dst @ [item]"] Cons.prems(3) False show ?thesis by auto
  qed
qed

lemma remove_duplicates_loop_length: "length (remove_duplicates_loop cmp dst src) \<le> length dst + length src"
  by (induction cmp dst src rule: remove_duplicates_loop.induct) auto

lemma remove_duplicates_length:
  "1 < length items \<Longrightarrow> length (remove_duplicates_loop cmp [hd items] (tl items)) \<le> length items"
  using remove_duplicates_loop_length [of cmp "[hd items]" "tl items"] by (cases items) auto

lemma unsorted_has_string_iff:
  "unsorted_string_list_has_string list x \<longleftrightarrow> (\<exists>item \<in> set (sl_items list). cmp_of list x (si_string item) = 0)"
proof -
  have "unsorted_lookup_loop cmp x items i \<noteq> None \<longleftrightarrow> (\<exists>item \<in> set items. cmp x (si_string item) = 0)"
    for cmp i and items :: "'a string_list_item list" by (induction items arbitrary: i) auto
  then show ?thesis by (simp add: unsorted_string_list_has_string_def unsorted_string_list_lookup_def)
qed

section \<open>Joining what was split\<close>

fun join_with :: "byte \<Rightarrow> bytes list \<Rightarrow> bytes" where
  "join_with d [] = []"
| "join_with d [p] = p"
| "join_with d (p # q # ps) = p @ d # join_with d (q # ps)"

lemma join_with_Cons: "ps \<noteq> [] \<Longrightarrow> join_with d (p # ps) = p @ d # join_with d ps"
  by (cases ps) auto

definition split_pieces :: "byte \<Rightarrow> bytes \<Rightarrow> int \<Rightarrow> int \<Rightarrow> bytes list \<Rightarrow> bool" where
  "split_pieces delim p maxsplit n ps \<longleftrightarrow> ps \<noteq> [] \<and> join_with delim ps = p \<and>
     (\<forall>q \<in> set (butlast ps). delim \<notin> set q) \<and>
     (delim \<in> set (last ps) \<longrightarrow> 0 \<le> maxsplit \<and> maxsplit < n + int (length ps)) \<and>
     (0 \<le> maxsplit \<longrightarrow> length ps = 1 \<or> n + int (length ps) \<le> maxsplit + 1)"

lemma split_pieces_Cons:
  assumes "split_pieces delim q maxsplit (n + 1) ps" and "delim \<notin> set a" and "\<not> (0 \<le> maxsplit \<and> maxsplit < n + 1)"
  shows "split_pieces delim (a @ delim # q) maxsplit n (a # ps)"
  using assms by (auto simp: split_pieces_def join_with_Cons)

lemma split_step:
  assumes "delim \<in> set p"
  shows "p = takeWhile (\<lambda>c. c \<noteq> delim) p @ delim # tl (dropWhile (\<lambda>c. c \<noteq> delim) p)"
  using assms by (induction p) auto

abbreviation mk_item :: "bytes \<Rightarrow> 'u string_list_item" where
  "mk_item q \<equiv> \<lparr>si_string = q, si_util = None\<rparr>"

lemma split_loop_pieces:
  assumes "delim \<noteq> 0"
  shows "\<exists>ps. split_loop list p delim maxsplit n =
      Inr (n + int (length ps), list\<lparr>sl_items := sl_items list @ map mk_item ps\<rparr>) \<and> split_pieces delim p maxsplit n ps"
  using assms
proof (induction list p delim maxsplit n rule: split_loop.induct)
  case (1 list p delim maxsplit n)
  show ?case
  proof (cases "\<not> (0 \<le> maxsplit \<and> maxsplit < n + 1) \<and> delim \<in> set p")
    case True
    define a q where "a = takeWhile (\<lambda>c. c \<noteq> delim) p" and "q = tl (dropWhile (\<lambda>c. c \<noteq> delim) p)"
    have run: "split_loop list p delim maxsplit n = split_loop (string_list_append_nodup list a) q delim maxsplit (n + 1)"
      using True 1(2) by (subst split_loop.simps) (auto simp: a_def q_def Let_def)
    have "\<exists>ps. split_loop (string_list_append_nodup list a) q delim maxsplit (n + 1) =
      Inr (n + 1 + int (length ps), (string_list_append_nodup list a)\<lparr>sl_items :=
        sl_items (string_list_append_nodup list a) @ map mk_item ps\<rparr>) \<and> split_pieces delim q maxsplit (n + 1) ps"
      unfolding a_def q_def by (rule 1(1)) (use True 1(2) in auto)
    then obtain ps where "split_loop list p delim maxsplit n =
      Inr (n + int (length (a # ps)), list\<lparr>sl_items := sl_items list @ map mk_item (a # ps)\<rparr>)"
      "split_pieces delim q maxsplit (n + 1) ps"
      unfolding run by (auto simp: string_list_append_nodup_def)
    moreover have "delim \<notin> set a" unfolding a_def by (auto dest: set_takeWhileD)
    moreover have "p = a @ delim # q" unfolding a_def q_def using True by (simp add: split_step)
    ultimately show ?thesis using split_pieces_Cons True by metis
  next
    case False
    then have "split_loop list p delim maxsplit n = Inr (n + 1, string_list_append list p)"
      using 1(2) by (subst split_loop.simps) (auto simp: Let_def)
    moreover have "split_pieces delim p maxsplit n [p]" using False by (auto simp: split_pieces_def)
    ultimately show ?thesis by (intro exI [of _ "[p]"]) (simp add: string_list_append_def string_list_append_nodup_def)
  qed
qed

section \<open>Properties\<close>

text \<open>
  C21: Sorted insertion and removal.  For every comparison function that is a total preorder, inserting
  into a sorted list keeps it sorted, leaves it alone if an equal string is there, and adds
  exactly the given string otherwise; removing deletes exactly the equal string.
  Membership as \<open>string_list_has_string\<close> decides it changes accordingly.  The list has fewer than
  \<open>INT_MAX - 1\<close> items, so that the search, which counts in \<open>int\<close>, also works on the longer list.
\<close>

theorem string_list_insert_remove:
  assumes "comparison (cmp_of list)" and "sl_sorted list" and "length (sl_items list) + 1 < INT_MAX"
    and "string_list_insert list x = (i, list')"
  shows "sl_sorted list' \<and> i < length (sl_items list') \<and> string_list_lookup list' x = Some i \<and>
    (string_list_has_string list x \<longrightarrow> list' = list) \<and>
    (\<forall>y. string_list_has_string list' y \<longleftrightarrow> cmp_of list y x = 0 \<or> string_list_has_string list y) \<and>
    (\<not> string_list_has_string list x \<longrightarrow> string_list_remove list' x = list)"
proof -
  have srch: "searchable list" using assms(3) by (simp add: searchable_def)
  note ins = insert_result [OF assms(1,2) srch assms(4)]
  have "length (sl_items list') \<le> length (sl_items list) + 1"
    using ins(5,6) by (cases "string_list_has_string list x") auto
  then have srch': "searchable list'" using assms(3) by (simp add: searchable_def)
  have cmp': "comparison (cmp_of list')" using assms(1) ins(4) by simp
  have "string_list_lookup list' x = Some i" by (rule lookup_unique [OF cmp' ins(1) srch' ins(2)]) (simp only: ins(3,4))
  moreover have has: "string_list_has_string list' y \<longleftrightarrow> cmp_of list y x = 0 \<or> string_list_has_string list y" for y
  proof (cases "string_list_has_string list x")
    case True
    then obtain s where s: "s \<in> set (strings list)" "cmp_of list x s = 0" using has_string_iff [OF assms(1,2) srch] by blast
    have "string_list_has_string list y" if "cmp_of list y x = 0"
      using s comparison.cmp_zero_trans [OF assms(1) that s(2)] has_string_iff [OF assms(1,2) srch] by blast
    with ins(5) [OF True] show ?thesis by auto
  next
    case False
    have "set (sl_items list) = set (take i (sl_items list)) \<union> set (drop i (sl_items list))"
      by (metis append_take_drop_id set_append)
    then have "set (strings list') = insert x (set (strings list))" unfolding ins(6) [OF False] by auto
    then show ?thesis unfolding has_string_iff [OF cmp' ins(1) srch'] has_string_iff [OF assms(1,2) srch] ins(4) by auto
  qed
  moreover have "string_list_remove list' x = list" if "\<not> string_list_has_string list x"
  proof (rule string_list.equality)
    have ne: "\<forall>item \<in> set (sl_items list). cmp_of list x (si_string item) \<noteq> 0"
      using that has_string_iff [OF assms(1,2) srch] by auto
    have "filter (\<lambda>item. cmp_of list x (si_string item) \<noteq> 0) (take i (sl_items list)) = take i (sl_items list)"
      "filter (\<lambda>item. cmp_of list x (si_string item) \<noteq> 0) (drop i (sl_items list)) = drop i (sl_items list)"
      using ne by (auto intro!: filter_True dest: in_set_takeD in_set_dropD)
    then show "sl_items (string_list_remove list' x) = sl_items list"
      using remove_result(3) [OF cmp' ins(1) srch', of x] ins(6) [OF that] comparison.cmp_refl [OF assms(1), of x]
      by (simp add: ins(4))
  qed (use insert_remove_frame(1,2) [of list x] assms(4) in simp_all)
  ultimately show ?thesis using ins(1,2,5) by blast
qed

theorem string_list_insert_remove_witness:
  "let list = (string_list_init_dup :: unit string_list)\<lparr>sl_items := [mk_item [97], mk_item [99]]\<rparr>;
       (i, list') = string_list_insert list [98] in
   sl_sorted list' \<and> i < length (sl_items list') \<and> string_list_lookup list' [98] = Some i \<and>
    (string_list_has_string list [98] \<longrightarrow> list' = list) \<and>
    (\<forall>y. string_list_has_string list' y \<longleftrightarrow> cmp_of list y [98] = 0 \<or> string_list_has_string list y) \<and>
    (\<not> string_list_has_string list [98] \<longrightarrow> string_list_remove list' [98] = list)"
proof -
  define list where "list = (string_list_init_dup :: unit string_list)\<lparr>sl_items := [mk_item [97], mk_item [99]]\<rparr>"
  have "comparison (cmp_of list)" "sl_sorted list" "length (sl_items list) + 1 < INT_MAX"
    using strcmp.comparison_axioms by (simp_all add: INT_MAX_def list_def cmp_of_def sl_sorted_def string_list_init_dup_def)
  from string_list_insert_remove [OF this, of "[98]"] show ?thesis
    unfolding list_def [symmetric] Let_def by (auto split: prod.split)
qed

text \<open>
  C34: Sorting and removing duplicates.  For every sorting procedure, \<open>string_list_sort\<close> followed by
  \<open>string_list_remove_duplicates\<close> gives a strictly sorted list, in which binary search finds
  exactly the strings that a linear search finds in the original list, provided that this has
  fewer than \<open>INT_MAX\<close> items.
\<close>

theorem string_list_sort_dedup:
  assumes "comparison (cmp_of list)" and "length (sl_items list) < INT_MAX"
    and "mset (qsort_s (cmp_items (cmp_of list)) (sl_items list)) = mset (sl_items list)"
    and "sorted_wrt (\<lambda>a b. cmp_items (cmp_of list) a b \<le> 0) (qsort_s (cmp_items (cmp_of list)) (sl_items list))"
  shows "sl_sorted (string_list_remove_duplicates (string_list_sort qsort_s list)) \<and>
    (\<forall>x. string_list_has_string (string_list_remove_duplicates (string_list_sort qsort_s list)) x \<longleftrightarrow>
      unsorted_string_list_has_string list x)"
proof -
  define sorted_list where "sorted_list = string_list_sort qsort_s list"
  define items where "items = sl_items sorted_list"
  have cmp: "cmp_of sorted_list = cmp_of list" "cmp_of (string_list_remove_duplicates sorted_list) = cmp_of list"
    by (simp_all add: sorted_list_def string_list_sort_def string_list_remove_duplicates_def cmp_of_def)
  have items: "set items = set (sl_items list)" "sorted_wrt (\<lambda>a b. cmp_of list (si_string a) (si_string b) \<le> 0) items"
    using assms(3,4) by (auto simp: items_def sorted_list_def string_list_sort_def cmp_items_def dest: mset_eq_setD)
  define res where "res = sl_items (string_list_remove_duplicates sorted_list)"
  have res: "sorted_wrt (\<lambda>a b. cmp_of list (si_string a) (si_string b) < 0) res" "set res \<subseteq> set items"
    "\<forall>a \<in> set items. \<exists>b \<in> set res. cmp_of list (si_string a) (si_string b) = 0"
  proof -
    have "sorted_wrt (\<lambda>a b. cmp_of list (si_string a) (si_string b) < 0) res \<and> set res \<subseteq> set items \<and>
      (\<forall>a \<in> set items. \<exists>b \<in> set res. cmp_of list (si_string a) (si_string b) = 0)"
    proof (cases "1 < length items")
      case True
      then obtain a as where a: "items = a # as" by (cases items) auto
      have "res = remove_duplicates_loop (cmp_of list) [a] as"
        using True a by (simp add: res_def items_def string_list_remove_duplicates_def cmp)
      with remove_duplicates_loop_sorted [OF assms(1), of "[a]" as] items(2) a show ?thesis by auto
    next
      case False
      then have "res = items" by (simp add: res_def items_def string_list_remove_duplicates_def)
      moreover have "items = [] \<or> (\<exists>a. items = [a])" using False by (cases items) auto
      ultimately show ?thesis using comparison.cmp_refl [OF assms(1)] by auto
    qed
    then show "sorted_wrt (\<lambda>a b. cmp_of list (si_string a) (si_string b) < 0) res" "set res \<subseteq> set items"
      "\<forall>a \<in> set items. \<exists>b \<in> set res. cmp_of list (si_string a) (si_string b) = 0" by auto
  qed
  have "length items = length (sl_items list)"
    using mset_eq_length [OF assms(3)] by (simp add: items_def sorted_list_def string_list_sort_def)
  moreover have "length res \<le> length items"
    by (simp add: res_def items_def string_list_remove_duplicates_def remove_duplicates_length)
  ultimately have search: "searchable (string_list_remove_duplicates sorted_list)"
    using assms(2) by (simp add: searchable_def res_def)
  have sorted: "sl_sorted (string_list_remove_duplicates sorted_list)"
    using res(1) by (simp add: sl_sorted_def cmp res_def sorted_wrt_map)
  have "(\<exists>s \<in> set (map si_string res). cmp_of list x s = 0) \<longleftrightarrow> (\<exists>item \<in> set (sl_items list). cmp_of list x (si_string item) = 0)" for x
    using res(2,3) items(1) comparison.cmp_zero_trans [OF assms(1)] by (auto; blast)
  moreover have "comparison (cmp_of (string_list_remove_duplicates sorted_list))" using assms(1) cmp by simp
  ultimately have "string_list_has_string (string_list_remove_duplicates sorted_list) x \<longleftrightarrow> unsorted_string_list_has_string list x" for x
    using has_string_iff [OF _ sorted search, of x] by (simp add: cmp unsorted_has_string_iff res_def)
  with sorted show ?thesis by (simp add: sorted_list_def)
qed

theorem string_list_sort_dedup_witness:
  "let list = (string_list_init_dup :: unit string_list)\<lparr>sl_items := [mk_item [99], mk_item [97], mk_item [99]]\<rparr> in
   sl_sorted (string_list_remove_duplicates (string_list_sort cisort list)) \<and>
    (\<forall>x. string_list_has_string (string_list_remove_duplicates (string_list_sort cisort list)) x \<longleftrightarrow>
      unsorted_string_list_has_string list x)"
  unfolding Let_def
  by (rule string_list_sort_dedup)
    (use strcmp.comparison_axioms in \<open>simp_all add: INT_MAX_def cmp_of_def string_list_init_dup_def cmp_items_def\<close>)

text \<open>
  C35: Splitting.  \<open>string_list_split\<close> appends pieces that give the string back when joined with the
  delimiter; no piece but the last holds the delimiter, and the last one only if \<open>maxsplit\<close>
  cut the splitting short; there are at most \<open>maxsplit + 1\<close> pieces, and the number is returned.
\<close>

theorem string_list_split_join:
  assumes "sl_strdup_strings list" and "delim \<noteq> 0"
  shows "\<exists>ps. string_list_split list s delim maxsplit =
      Inr (int (length ps), list\<lparr>sl_items := sl_items list @ map mk_item ps\<rparr>) \<and>
    ps \<noteq> [] \<and> join_with delim ps = s \<and> (\<forall>q \<in> set (butlast ps). delim \<notin> set q) \<and>
    (delim \<in> set (last ps) \<longrightarrow> 0 \<le> maxsplit \<and> maxsplit < int (length ps)) \<and>
    (0 \<le> maxsplit \<longrightarrow> int (length ps) \<le> maxsplit + 1)"
  using split_loop_pieces [OF assms(2), of list s maxsplit 0] assms(1)
  by (auto simp: string_list_split_def split_pieces_def)

theorem string_list_split_join_witness:
  "\<exists>ps. string_list_split (string_list_init_dup :: unit string_list) [97, 58, 98, 58, 99] 58 1 =
      Inr (int (length ps), string_list_init_dup\<lparr>sl_items := sl_items string_list_init_dup @ map mk_item ps\<rparr>) \<and>
    ps \<noteq> [] \<and> join_with 58 ps = [97, 58, 98, 58, 99] \<and> (\<forall>q \<in> set (butlast ps). 58 \<notin> set q) \<and>
    (58 \<in> set (last ps) \<longrightarrow> 0 \<le> (1 :: int) \<and> 1 < int (length ps)) \<and>
    (0 \<le> (1 :: int) \<longrightarrow> int (length ps) \<le> 1 + 1)"
  by (rule string_list_split_join) (simp_all add: string_list_init_dup_def)

end
