(* ===== verification/Unpack_Trees.thy ===== *)
theory Unpack_Trees
  imports Hash_Lookup
begin

text \<open>
  \<open>unpack-trees.c\<close>: the functions that merge the entries of one path from the index and one or more
  trees, as \<open>read-tree -m\<close>, \<open>checkout\<close> and \<open>merge\<close> use them.

  The file system, the source index and its lookups, the submodules themselves and sparse
  directories are parameters, collected in the record \<open>worktree\<close>.  The state holds the entries given to
  \<open>add_index_entry\<close> in order, the invalidated paths, the entries of the source index with the flag
  \<open>CE_UNPACKED\<close> and the cursor \<open>cache_bottom\<close> (which only the traversal of the trees reads), the recorded rejections and the flag \<open>nontrivial_merge\<close>.  An entry
  pointer is an \<open>option\<close>; \<open>o_df_conflict_entry\<close> is the marker entry of the options, and pointers
  are compared with it by equality of the entries.  Where the code dereferences a pointer that
  its caller guarantees, the model uses \<open>the\<close>.
\<close>

section \<open>Entries, options and state\<close>

definition CE_STAGEMASK :: u32 where "CE_STAGEMASK = 0x3000"
definition CE_VALID :: u32 where "CE_VALID = 0x8000"
definition CE_STAGESHIFT :: nat where "CE_STAGESHIFT = 12"
definition CE_UPDATE :: u32 where "CE_UPDATE = push_bit 16 1"
definition CE_REMOVE :: u32 where "CE_REMOVE = push_bit 17 1"
definition CE_UPTODATE :: u32 where "CE_UPTODATE = push_bit 18 1"
definition CE_ADDED :: u32 where "CE_ADDED = push_bit 19 1"
definition CE_HASHED :: u32 where "CE_HASHED = push_bit 20 1"
definition CE_FSMONITOR_VALID :: u32 where "CE_FSMONITOR_VALID = push_bit 21 1"
definition CE_WT_REMOVE :: u32 where "CE_WT_REMOVE = push_bit 22 1"
definition CE_CONFLICTED :: u32 where "CE_CONFLICTED = push_bit 23 1"
definition CE_NEW_SKIP_WORKTREE :: u32 where "CE_NEW_SKIP_WORKTREE = push_bit 25 1"
definition CE_SKIP_WORKTREE :: u32 where "CE_SKIP_WORKTREE = push_bit 30 1"

record cache_entry =
  ce_stat_data :: nat
  ce_mode :: u32
  ce_flags :: u32
  ce_oid :: object_id
  ce_name :: bytes

definition ce_has :: "cache_entry \<Rightarrow> u32 \<Rightarrow> bool" where
  "ce_has ce flag \<longleftrightarrow> ce_flags ce AND flag \<noteq> 0"

definition ce_stage :: "cache_entry \<Rightarrow> u32" where
  "ce_stage ce = drop_bit CE_STAGESHIFT (CE_STAGEMASK AND ce_flags ce)"

definition ce_uptodate :: "cache_entry \<Rightarrow> bool" where
  "ce_uptodate ce \<longleftrightarrow> ce_has ce CE_UPTODATE \<or> ce_has ce CE_FSMONITOR_VALID"

definition ce_skip_worktree :: "cache_entry \<Rightarrow> bool" where
  "ce_skip_worktree ce \<longleftrightarrow> ce_has ce CE_SKIP_WORKTREE"

definition S_ISSPARSEDIR :: "u32 \<Rightarrow> bool" where
  "S_ISSPARSEDIR m \<longleftrightarrow> m = 16384"

definition S_ISGITLINK :: "u32 \<Rightarrow> bool" where
  "S_ISGITLINK m \<longleftrightarrow> m AND 61440 = 57344"

definition copy_cache_entry :: "cache_entry \<Rightarrow> cache_entry \<Rightarrow> cache_entry" where
  "copy_cache_entry dst src =
     dst\<lparr>ce_stat_data := ce_stat_data src, ce_mode := ce_mode src, ce_oid := ce_oid src,
         ce_flags := (ce_flags src AND NOT CE_HASHED) OR (ce_flags dst AND CE_HASHED)\<rparr>"

datatype unpack_trees_error_types =
  ERROR_WOULD_OVERWRITE | ERROR_NOT_UPTODATE_FILE | ERROR_NOT_UPTODATE_DIR | ERROR_CWD_IN_THE_WAY
  | ERROR_WOULD_LOSE_UNTRACKED_OVERWRITTEN | ERROR_WOULD_LOSE_UNTRACKED_REMOVED | ERROR_BIND_OVERLAP
  | ERROR_WOULD_LOSE_SUBMODULE | WARNING_SPARSE_NOT_UPTODATE_FILE | WARNING_SPARSE_UNMERGED_FILE
  | WARNING_SPARSE_ORPHANED_NOT_OVERWRITTEN

datatype unpack_trees_reset_type =
  UNPACK_RESET_NONE | UNPACK_RESET_INVALID | UNPACK_RESET_PROTECT_UNTRACKED | UNPACK_RESET_OVERWRITE_UNTRACKED

datatype absent_checking_type = COMPLETELY_ABSENT | ABSENT_ANY_DIRECTORY

record unpack_trees_options =
  o_update :: bool
  o_index_only :: bool
  o_aggressive :: bool
  o_initial_checkout :: bool
  o_skip_sparse_checkout :: bool
  o_quiet :: bool
  o_show_all_errors :: bool
  o_reset :: unpack_trees_reset_type
  o_head_idx :: nat
  o_merge_size :: nat
  o_df_conflict_entry :: cache_entry

record unpack_state =
  us_result :: "cache_entry list"
  us_invalidated :: "bytes list"
  us_unpacked :: "cache_entry list"
  us_cache_bottom :: nat
  us_rejects :: "(unpack_trees_error_types \<times> bytes) list"
  us_nontrivial_merge :: bool

datatype lstat_result = Lstat_ok bool | Lstat_errno int

definition ENOENT :: int where "ENOENT = 2"

text \<open>
  \<open>wt_lstat\<close>: the result of \<open>lstat\<close>, with whether a directory was found.  \<open>wt_changed\<close>: what
  \<open>ie_match_stat\<close> says of the entry.  \<open>wt_leading\<close>: \<open>check_leading_path\<close>.  The other fields are named
  after the functions they stand for; \<open>wt_src_index\<close> are the entries of the source index in order.  A
  commit given to \<open>submodule_move_head\<close> is an object name or \<open>HEAD\<close>, \<open>None\<close> for NULL; the last argument says
  whether it is forced, and the result whether it fails.
\<close>

datatype submodule_rev = HEAD | Rev object_id

type_synonym act = "unpack_state \<Rightarrow> int \<times> unpack_state"

record worktree =
  wt_lstat :: "bytes \<Rightarrow> lstat_result"
  wt_changed :: "cache_entry \<Rightarrow> bool"
  wt_leading :: "bytes \<Rightarrow> int"
  wt_icase_exists :: "bytes \<Rightarrow> bool"
  wt_is_excluded :: "bytes \<Rightarrow> bool"
  wt_index_file_exists :: "cache_entry list \<Rightarrow> bytes \<Rightarrow> cache_entry option"
  wt_src_index :: "cache_entry list"
  wt_index_name_pos :: "bytes \<Rightarrow> int"
  wt_resolve_gitlink_ref :: "bytes \<Rightarrow> object_id option"
  wt_read_directory :: "bytes \<Rightarrow> int"
  wt_original_cwd :: "bytes option"
  wt_submodule_from_ce :: "cache_entry \<Rightarrow> bool"
  wt_file_exists :: "bytes \<Rightarrow> bool"
  wt_submodule_move_head :: "bytes \<Rightarrow> submodule_rev option \<Rightarrow> submodule_rev option \<Rightarrow> bool \<Rightarrow> bool"
  wt_should_update_submodules :: bool
  wt_add_index_entry :: "cache_entry list \<Rightarrow> cache_entry \<Rightarrow> int"
  wt_traverse_sparse_dir :: "cache_entry option list \<Rightarrow> nat \<Rightarrow> act"
  wt_gvfs_no_delete_outside_sparse :: bool

definition or_else :: "int \<times> unpack_state \<Rightarrow> (int \<Rightarrow> int) \<Rightarrow> act \<Rightarrow> int \<times> unpack_state" where
  "or_else r fail k = (case r of (ret, st) \<Rightarrow> if ret \<noteq> 0 then (fail ret, st) else k st)"

section \<open>Adding and rejecting\<close>

definition do_add_entry :: "worktree \<Rightarrow> cache_entry \<Rightarrow> u32 \<Rightarrow> u32 \<Rightarrow> act" where
  "do_add_entry wt ce set_flags clear st =
     (let clear = clear OR CE_HASHED;
          set_flags = (if set_flags AND CE_REMOVE \<noteq> 0 then set_flags OR CE_WT_REMOVE else set_flags);
          ce = ce\<lparr>ce_flags := (ce_flags ce AND NOT clear) OR set_flags\<rparr>;
          ret = wt_add_index_entry wt (us_result st) ce
      in (ret, if ret < 0 then st else st\<lparr>us_result := us_result st @ [ce]\<rparr>))"

definition add_entry_ut :: "worktree \<Rightarrow> cache_entry \<Rightarrow> u32 \<Rightarrow> u32 \<Rightarrow> unpack_state \<Rightarrow> unpack_state" where
  "add_entry_ut wt ce set_flags clear st = snd (do_add_entry wt ce set_flags clear st)"

definition add_rejected_path :: "unpack_trees_options \<Rightarrow> unpack_trees_error_types \<Rightarrow> bytes \<Rightarrow> act" where
  "add_rejected_path opt e path st =
     (if o_quiet opt then (- 1, st)
      else if \<not> o_show_all_errors opt then (- 1, st)
      else (- 1, st\<lparr>us_rejects := us_rejects st @ [(e, path)]\<rparr>))"

definition check_submodule_move_head ::
  "worktree \<Rightarrow> unpack_trees_options \<Rightarrow> cache_entry \<Rightarrow> submodule_rev option \<Rightarrow> submodule_rev option \<Rightarrow> act" where
  "check_submodule_move_head wt opt ce old_id new_id st =
     (if \<not> wt_submodule_from_ce wt ce then (0, st)
      else if wt_submodule_move_head wt (ce_name ce) old_id new_id (o_reset opt \<noteq> UNPACK_RESET_NONE)
      then add_rejected_path opt ERROR_WOULD_LOSE_SUBMODULE (ce_name ce) st
      else (0, st))"

definition reject_merge :: "unpack_trees_options \<Rightarrow> cache_entry \<Rightarrow> act" where
  "reject_merge opt ce = add_rejected_path opt ERROR_WOULD_OVERWRITE (ce_name ce)"

definition same :: "cache_entry option \<Rightarrow> cache_entry option \<Rightarrow> bool" where
  "same a b =
     (case (a, b) of
        (None, None) \<Rightarrow> True
      | (Some a, Some b) \<Rightarrow>
          if (ce_flags a OR ce_flags b) AND CE_CONFLICTED \<noteq> 0 then False
          else ce_mode a = ce_mode b \<and> oideq (ce_oid a) (ce_oid b)
      | _ \<Rightarrow> False)"

definition invalidate_ce_path :: "cache_entry \<Rightarrow> unpack_state \<Rightarrow> unpack_state" where
  "invalidate_ce_path ce st = st\<lparr>us_invalidated := us_invalidated st @ [ce_name ce]\<rparr>"

section \<open>Checking the working tree\<close>

text \<open>
  In \<open>verify_uptodate_1\<close>, a failing \<open>lstat\<close> sets \<open>errno\<close>; a changed file resets it to 0.
\<close>

definition verify_uptodate_1 :: "worktree \<Rightarrow> unpack_trees_options \<Rightarrow> cache_entry \<Rightarrow> unpack_trees_error_types \<Rightarrow> act" where
  "verify_uptodate_1 wt opt ce error_type st =
     (if o_index_only opt then (0, st)
      else if \<not> (ce_has ce CE_VALID \<or> ce_skip_worktree ce) \<and> (o_reset opt \<noteq> UNPACK_RESET_NONE \<or> ce_uptodate ce) then (0, st)
      else
        (case wt_lstat wt (ce_name ce) of
           Lstat_ok _ \<Rightarrow>
             if wt_submodule_from_ce wt ce then
               (case check_submodule_move_head wt opt ce (Some HEAD) (Some (Rev (ce_oid ce))) st of
                  (r, st) \<Rightarrow> if r \<noteq> 0 then add_rejected_path opt error_type (ce_name ce) st else (0, st))
             else if \<not> wt_changed wt ce then (0, st)
             else if S_ISGITLINK (ce_mode ce) then (0, st)
             else add_rejected_path opt error_type (ce_name ce) st
         | Lstat_errno errno \<Rightarrow>
             if errno = ENOENT then (0, st) else add_rejected_path opt error_type (ce_name ce) st))"

definition verify_uptodate :: "worktree \<Rightarrow> unpack_trees_options \<Rightarrow> cache_entry \<Rightarrow> act" where
  "verify_uptodate wt opt ce st =
     (if \<not> o_skip_sparse_checkout opt \<and> ce_has ce CE_SKIP_WORKTREE \<and> ce_has ce CE_NEW_SKIP_WORKTREE then (0, st)
      else verify_uptodate_1 wt opt ce ERROR_NOT_UPTODATE_FILE st)"

definition verify_uptodate_sparse :: "worktree \<Rightarrow> unpack_trees_options \<Rightarrow> cache_entry \<Rightarrow> act" where
  "verify_uptodate_sparse wt opt ce st = verify_uptodate_1 wt opt ce WARNING_SPARSE_NOT_UPTODATE_FILE st"

text \<open>
  The entries of the index in the directory that is in the way are removed if they are unchanged.
  \<open>clean_entries\<close> is the loop over the index from the place of the path on; it returns a
  negative number if it stops at a changed one.  Pointers into the index are compared by equality of
  the entries, which differ in name or stage.
\<close>

definition mark_ce_used :: "worktree \<Rightarrow> cache_entry \<Rightarrow> unpack_state \<Rightarrow> unpack_state" where
  "mark_ce_used wt ce st =
     (let cache = wt_src_index wt; bottom = us_cache_bottom st; unpacked = us_unpacked st @ [ce] in
      st\<lparr>us_unpacked := unpacked,
         us_cache_bottom :=
           (if bottom < length cache \<and> cache ! bottom = ce
            then bottom + length (takeWhile (\<lambda>e. e \<in> set unpacked) (drop bottom cache)) else bottom)\<rparr>)"

definition locate_in_src_index :: "worktree \<Rightarrow> cache_entry \<Rightarrow> nat" where
  "locate_in_src_index wt ce =
     (let pos = wt_index_name_pos wt (ce_name ce) in nat (if pos < 0 then - 1 - pos else pos))"

definition verify_clean_submodule :: "worktree \<Rightarrow> unpack_trees_options \<Rightarrow> submodule_rev option \<Rightarrow> cache_entry \<Rightarrow> act" where
  "verify_clean_submodule wt opt old_sha1 ce st =
     (if \<not> wt_submodule_from_ce wt ce then (0, st)
      else check_submodule_move_head wt opt ce old_sha1 (Some (Rev (ce_oid ce))) st)"

definition in_directory :: "bytes \<Rightarrow> bytes \<Rightarrow> bool" where
  "in_directory dir name \<longleftrightarrow> length dir < length name \<and> take (length dir) name = dir \<and> name ! length dir = 47"

fun clean_entries :: "worktree \<Rightarrow> unpack_trees_options \<Rightarrow> cache_entry \<Rightarrow> cache_entry list \<Rightarrow> int \<Rightarrow> act" where
  "clean_entries wt opt ce [] cnt st = (cnt, st)"
| "clean_entries wt opt ce (ce2 # cache) cnt st =
     (if \<not> in_directory (ce_name ce) (ce_name ce2) then (cnt, st)
      else if ce_stage ce2 = 0 then
        (case verify_uptodate wt opt ce2 st of
           (ret, st) \<Rightarrow>
             if ret \<noteq> 0 then (- 1, st)
             else clean_entries wt opt ce cache (cnt + 1)
               (mark_ce_used wt ce2 (invalidate_ce_path ce (add_entry_ut wt ce2 CE_REMOVE 0 st))))
      else clean_entries wt opt ce cache (cnt + 1) st)"

definition verify_clean_subdirectory :: "worktree \<Rightarrow> unpack_trees_options \<Rightarrow> cache_entry \<Rightarrow> act" where
  "verify_clean_subdirectory wt opt ce st =
     (if S_ISGITLINK (ce_mode ce) then
        (case wt_resolve_gitlink_ref wt (ce_name ce) of
           Some oid \<Rightarrow>
             if oideq oid (ce_oid ce) then (0, st) else verify_clean_submodule wt opt (Some (Rev oid)) ce st
         | None \<Rightarrow> verify_clean_submodule wt opt None ce st)
      else
        (case clean_entries wt opt ce (drop (locate_in_src_index wt ce) (wt_src_index wt)) 0 st of
           (cnt, st) \<Rightarrow>
             if cnt < 0 then (- 1, st)
             else if wt_read_directory wt (ce_name ce @ [47]) \<noteq> 0
             then add_rejected_path opt ERROR_NOT_UPTODATE_DIR (ce_name ce) st
             else if wt_original_cwd wt = Some (ce_name ce)
             then add_rejected_path opt ERROR_CWD_IN_THE_WAY (ce_name ce) st
             else (cnt, st)))"

text \<open>The path of a leading symbolic link is given without an entry, and it is no directory.\<close>

definition check_ok_to_remove ::
  "worktree \<Rightarrow> unpack_trees_options \<Rightarrow> bytes \<Rightarrow> cache_entry option \<Rightarrow> bool \<Rightarrow> unpack_trees_error_types \<Rightarrow>
    absent_checking_type \<Rightarrow> act" where
  "check_ok_to_remove wt opt name ce is_dir error_type absent_type st =
     (if wt_icase_exists wt name then (0, st)
      else if wt_is_excluded wt name then (0, st)
      else if is_dir then
        (case verify_clean_subdirectory wt opt (the ce) st of (ret, st) \<Rightarrow> (if ret < 0 then - 1 else 0, st))
      else if absent_type = ABSENT_ANY_DIRECTORY then (0, st)
      else
        (case wt_index_file_exists wt (us_result st) name of
           Some result \<Rightarrow>
             if ce_has result CE_REMOVE then (0, st) else add_rejected_path opt error_type name st
         | None \<Rightarrow> add_rejected_path opt error_type name st))"

definition verify_absent_1 ::
  "worktree \<Rightarrow> unpack_trees_options \<Rightarrow> cache_entry \<Rightarrow> unpack_trees_error_types \<Rightarrow> absent_checking_type \<Rightarrow> act" where
  "verify_absent_1 wt opt ce error_type absent_type st =
     (if o_index_only opt \<or> \<not> o_update opt then (0, st)
      else if o_reset opt = UNPACK_RESET_OVERWRITE_UNTRACKED then
        (if wt_original_cwd wt = Some (ce_name ce) then add_rejected_path opt ERROR_CWD_IN_THE_WAY (ce_name ce) st
         else (0, st))
      else
        (let len = wt_leading wt (ce_name ce) in
         if len = 0 then (0, st)
         else if 0 < len then
           (let path = take (nat len) (ce_name ce) in
            case wt_lstat wt path of
              Lstat_errno _ \<Rightarrow> (- 1, st)
            | Lstat_ok is_dir \<Rightarrow>
                if wt_submodule_from_ce wt ce then check_submodule_move_head wt opt ce (Some (Rev (ce_oid ce))) None st
                else check_ok_to_remove wt opt path None is_dir error_type absent_type st)
         else
           (case wt_lstat wt (ce_name ce) of
              Lstat_errno errno \<Rightarrow> if errno \<noteq> ENOENT then (- 1, st) else (0, st)
            | Lstat_ok is_dir \<Rightarrow>
                if wt_submodule_from_ce wt ce then check_submodule_move_head wt opt ce (Some (Rev (ce_oid ce))) None st
                else check_ok_to_remove wt opt (ce_name ce) (Some ce) is_dir error_type absent_type st)))"

definition verify_absent :: "worktree \<Rightarrow> unpack_trees_options \<Rightarrow> cache_entry \<Rightarrow> unpack_trees_error_types \<Rightarrow> act" where
  "verify_absent wt opt ce error_type st =
     (if \<not> o_skip_sparse_checkout opt \<and> ce_has ce CE_NEW_SKIP_WORKTREE then (0, st)
      else verify_absent_1 wt opt ce error_type COMPLETELY_ABSENT st)"

definition verify_absent_if_directory ::
  "worktree \<Rightarrow> unpack_trees_options \<Rightarrow> cache_entry \<Rightarrow> unpack_trees_error_types \<Rightarrow> act" where
  "verify_absent_if_directory wt opt ce error_type st =
     (if \<not> o_skip_sparse_checkout opt \<and> ce_has ce CE_NEW_SKIP_WORKTREE then (0, st)
      else verify_absent_1 wt opt ce error_type ABSENT_ANY_DIRECTORY st)"

definition verify_absent_sparse :: "worktree \<Rightarrow> unpack_trees_options \<Rightarrow> cache_entry \<Rightarrow> unpack_trees_error_types \<Rightarrow> act" where
  "verify_absent_sparse wt opt ce error_type st = verify_absent_1 wt opt ce error_type COMPLETELY_ABSENT st"

section \<open>Outcomes for one path\<close>

definition add_merged :: "worktree \<Rightarrow> cache_entry \<Rightarrow> u32 \<Rightarrow> act" where
  "add_merged wt merge update st =
     (case do_add_entry wt merge update CE_STAGEMASK st of (ret, st) \<Rightarrow> (if ret < 0 then - 1 else 1, st))"

definition merged_entry :: "worktree \<Rightarrow> unpack_trees_options \<Rightarrow> cache_entry \<Rightarrow> cache_entry option \<Rightarrow> act" where
  "merged_entry wt opt ce old st =
     (let update = CE_UPDATE; merge = ce in
      case old of
        None \<Rightarrow>
          (let update = update OR CE_ADDED;
               merge = merge\<lparr>ce_flags := ce_flags merge OR CE_NEW_SKIP_WORKTREE\<rparr>
           in or_else (verify_absent wt opt merge ERROR_WOULD_LOSE_UNTRACKED_OVERWRITTEN st) (\<lambda>_. - 1)
                (\<lambda>st. or_else
                   (if wt_submodule_from_ce wt ce \<and> wt_file_exists wt (ce_name ce)
                    then check_submodule_move_head wt opt ce None (Some (Rev (ce_oid ce))) (invalidate_ce_path merge st)
                    else (0, invalidate_ce_path merge st)) id
                   (add_merged wt merge update)))
      | Some old \<Rightarrow>
          if \<not> ce_has old CE_CONFLICTED then
            (let submodule_check = (\<lambda>st.
                   if wt_submodule_from_ce wt ce \<and> wt_file_exists wt (ce_name ce)
                   then check_submodule_move_head wt opt ce (Some (Rev (ce_oid old))) (Some (Rev (ce_oid ce))) st
                   else (0, st))
             in if same (Some old) (Some merge) then
                  or_else (submodule_check st) id (add_merged wt (copy_cache_entry merge old) 0)
                else
                  or_else (verify_uptodate wt opt old st) (\<lambda>_. - 1)
                    (\<lambda>st. or_else (submodule_check (invalidate_ce_path old st)) id
                       (add_merged wt merge
                          (update OR (ce_flags old AND (CE_SKIP_WORKTREE OR CE_NEW_SKIP_WORKTREE))))))
          else
            or_else (verify_absent_if_directory wt opt merge ERROR_WOULD_LOSE_UNTRACKED_OVERWRITTEN st) (\<lambda>_. - 1)
              (\<lambda>st. add_merged wt merge update (invalidate_ce_path old st)))"

definition deleted_entry :: "worktree \<Rightarrow> unpack_trees_options \<Rightarrow> cache_entry \<Rightarrow> cache_entry option \<Rightarrow> act" where
  "deleted_entry wt opt ce old st =
     (case old of
        None \<Rightarrow> or_else (verify_absent wt opt ce ERROR_WOULD_LOSE_UNTRACKED_REMOVED st) (\<lambda>_. - 1) (Pair 0)
      | Some old \<Rightarrow>
          or_else (verify_absent_if_directory wt opt ce ERROR_WOULD_LOSE_UNTRACKED_REMOVED st) (\<lambda>_. - 1)
            (\<lambda>st. or_else (if \<not> ce_has old CE_CONFLICTED then verify_uptodate wt opt old st else (0, st)) (\<lambda>_. - 1)
               (\<lambda>st.
                  if wt_gvfs_no_delete_outside_sparse wt \<and> ce_has old CE_SKIP_WORKTREE
                  then (1, invalidate_ce_path old (add_entry_ut wt old CE_REMOVE 0 st))
                  else (1, invalidate_ce_path ce (add_entry_ut wt ce CE_REMOVE 0 st)))))"

definition keep_entry :: "worktree \<Rightarrow> cache_entry \<Rightarrow> act" where
  "keep_entry wt ce st =
     (let st = add_entry_ut wt ce 0 0 st in (1, if ce_stage ce \<noteq> 0 then invalidate_ce_path ce st else st))"

section \<open>Three-way merge\<close>

definition not_df :: "unpack_trees_options \<Rightarrow> cache_entry option \<Rightarrow> cache_entry option" where
  "not_df opt e = (if e = Some (o_df_conflict_entry opt) then None else e)"

fun match_loop :: "cache_entry option list \<Rightarrow> cache_entry option \<Rightarrow> cache_entry option \<Rightarrow> nat \<Rightarrow> nat \<times> nat \<Rightarrow> nat \<times> nat" where
  "match_loop [] head remote i m = m"
| "match_loop (anc # ancs) head remote i (head_match, remote_match) =
     match_loop ancs head remote (i + 1)
       (if same anc head then i else head_match, if same anc remote then i else remote_match)"

definition first_ancestor :: "unpack_trees_options \<Rightarrow> cache_entry option list \<Rightarrow> cache_entry option" where
  "first_ancestor opt ancs =
     (case filter (\<lambda>s. not_df opt s \<noteq> None) ancs of [] \<Rightarrow> None | s # _ \<Rightarrow> s)"

definition keep_stages ::
  "worktree \<Rightarrow> unpack_trees_options \<Rightarrow> bool \<Rightarrow> cache_entry option list \<Rightarrow> cache_entry option \<Rightarrow> cache_entry option \<Rightarrow> act" where
  "keep_stages wt opt keep_anc ancs head remote st =
     (let keep = (\<lambda>e (count, st). case e of None \<Rightarrow> (count, st) | Some ce \<Rightarrow>
                    (case keep_entry wt ce st of (r, st) \<Rightarrow> (count + r, st)))
      in keep remote (keep head (keep (if keep_anc then first_ancestor opt ancs else None)
           (0, st\<lparr>us_nontrivial_merge := True\<rparr>))))"

definition threeway_no_merge ::
  "worktree \<Rightarrow> unpack_trees_options \<Rightarrow> cache_entry option list \<Rightarrow> bool \<Rightarrow> cache_entry option \<Rightarrow> cache_entry option \<Rightarrow>
    cache_entry option \<Rightarrow> act" where
  "threeway_no_merge wt opt stages keep_anc index head remote st =
     (let ancs = take (o_head_idx opt - 1) (drop 1 stages) in
      case index of
        Some ix \<Rightarrow>
          if S_ISSPARSEDIR (ce_mode ix) then wt_traverse_sparse_dir wt stages 4 st
          else or_else (verify_uptodate wt opt ix st) (\<lambda>_. - 1) (keep_stages wt opt keep_anc ancs head remote)
      | None \<Rightarrow> keep_stages wt opt keep_anc ancs head remote st)"

definition reject_index :: "worktree \<Rightarrow> unpack_trees_options \<Rightarrow> cache_entry option list \<Rightarrow> nat \<Rightarrow> cache_entry \<Rightarrow> act" where
  "reject_index wt opt stages n ix st =
     (if S_ISSPARSEDIR (ce_mode ix) then wt_traverse_sparse_dir wt stages n st else reject_merge opt ix st)"

definition threeway_merge :: "worktree \<Rightarrow> unpack_trees_options \<Rightarrow> cache_entry option list \<Rightarrow> act" where
  "threeway_merge wt opt stages st =
     (let ancs = take (o_head_idx opt - 1) (drop 1 stages);
          any_anc_missing = (\<exists>s \<in> set ancs. not_df opt s = None);
          no_anc_exists = (\<forall>s \<in> set ancs. not_df opt s = None);
          index = stages ! 0;
          head0 = stages ! o_head_idx opt;
          remote0 = stages ! (o_head_idx opt + 1);
          df_conflict_head = (head0 = Some (o_df_conflict_entry opt));
          df_conflict_remote = (remote0 = Some (o_df_conflict_entry opt));
          head = not_df opt head0;
          remote = not_df opt remote0;
          (head_match, remote_match) = (if \<not> same remote head then match_loop ancs head remote 1 (0, 0) else (0, 0))
      in
        if remote \<noteq> None \<and> \<not> df_conflict_head \<and> head_match \<noteq> 0 \<and> remote_match = 0 then
          (if index \<noteq> None \<and> \<not> same index remote \<and> \<not> same index head
           then reject_index wt opt stages 4 (the index) st
           else merged_entry wt opt (the remote) index st)
        else if index \<noteq> None \<and> \<not> same index head then reject_index wt opt stages 4 (the index) st
        else if head \<noteq> None \<and> same head remote then merged_entry wt opt (the head) index st
        else if head \<noteq> None \<and> \<not> df_conflict_remote \<and> remote_match \<noteq> 0 \<and> head_match = 0
          then merged_entry wt opt (the head) index st
        else if head = None \<and> remote = None \<and> any_anc_missing then (0, st)
        else if o_aggressive opt \<and>
                 (head = None \<and> remote = None \<or> head = None \<and> remote \<noteq> None \<and> remote_match \<noteq> 0 \<or>
                  remote = None \<and> head \<noteq> None \<and> head_match \<noteq> 0) then
          (case index of
             Some ix \<Rightarrow> deleted_entry wt opt ix (Some ix) st
           | None \<Rightarrow>
               (case head of
                  Some ce \<Rightarrow> or_else (verify_absent wt opt ce ERROR_WOULD_LOSE_UNTRACKED_REMOVED st) (\<lambda>_. - 1) (Pair 0)
                | None \<Rightarrow> (0, st)))
        else if o_aggressive opt \<and> no_anc_exists \<and> head \<noteq> None \<and> remote \<noteq> None \<and> same head remote
          then merged_entry wt opt (the head) index st
        else threeway_no_merge wt opt stages (head_match = 0 \<or> remote_match = 0) index head remote st)"

section \<open>Two-way and one-way merge\<close>


definition bind_merge :: "worktree \<Rightarrow> unpack_trees_options \<Rightarrow> cache_entry option list \<Rightarrow> act" where
  "bind_merge wt opt src st =
     (let old = src ! 0; a = src ! 1 in
      if o_merge_size opt \<noteq> 1 then (- 1, st)
      else if a \<noteq> None \<and> old \<noteq> None then (- 1, st)
      else if a = None then keep_entry wt (the old) st
      else merged_entry wt opt (the a) None st)"


definition stash_worktree_untracked_merge ::
  "worktree \<Rightarrow> unpack_trees_options \<Rightarrow> cache_entry option list \<Rightarrow> unpack_state \<Rightarrow> cfault + int \<times> unpack_state" where
  "stash_worktree_untracked_merge wt opt src st =
     (let worktree = src ! 1; untracked = src ! 2 in
      if o_merge_size opt \<noteq> 2 then Inl Bug
      else if worktree \<noteq> None \<and> untracked \<noteq> None then Inr (- 1, st)
      else Inr (merged_entry wt opt (the (if worktree \<noteq> None then worktree else untracked)) None st))"

section \<open>The trivial merge rules\<close>

text \<open>
  The table of \<open>Documentation/technical/trivial-merge.adoc\<close> for one ancestor.  The flags say
  that head or remote has a directory in place of the entry.
\<close>

datatype trivial_result = Take cache_entry | Empty | No_merge

definition trivial_merge ::
  "cache_entry option \<Rightarrow> cache_entry option \<Rightarrow> bool \<Rightarrow> cache_entry option \<Rightarrow> bool \<Rightarrow> trivial_result" where
  "trivial_merge anc head df_head remote df_remote =
     (case (anc, head, remote) of
        (None, None, None) \<Rightarrow> Empty
      | (None, None, Some r) \<Rightarrow> if \<not> df_head then Take r else No_merge
      | (None, Some h, None) \<Rightarrow> if \<not> df_remote then Take h else No_merge
      | (None, Some h, Some r) \<Rightarrow> if same head remote then Take h else No_merge
      | (Some a, None, _) \<Rightarrow> No_merge
      | (Some a, Some h, None) \<Rightarrow> No_merge
      | (Some a, Some h, Some r) \<Rightarrow>
          if same head remote then Take h else if same anc remote then Take h
          else if same anc head then Take r else No_merge)"

lemma same_Some:
  "same (Some a) (Some b) \<longleftrightarrow> \<not> ce_has a CE_CONFLICTED \<and> \<not> ce_has b CE_CONFLICTED \<and> ce_mode a = ce_mode b \<and>
     take GIT_MAX_RAWSZ (oid_hash (ce_oid a)) = take GIT_MAX_RAWSZ (oid_hash (ce_oid b))"
proof -
  have "(ce_flags a OR ce_flags b) AND CE_CONFLICTED = 0 \<longleftrightarrow> \<not> ce_has a CE_CONFLICTED \<and> \<not> ce_has b CE_CONFLICTED"
    unfolding ce_has_def bit.conj_disj_distrib2 by (simp add: bit_eq_iff bit_or_iff) blast
  then show ?thesis by (auto simp: same_def oideq_def memcmp_def)
qed

lemma same_sym: "same a b = same b a"
  by (cases a; cases b) (auto simp: same_Some same_def [of None] same_def [of _ None])

lemma same_trans: "same a b \<Longrightarrow> same b c \<Longrightarrow> same a c"
  by (cases a; cases b; cases c) (auto simp: same_Some same_def [of None] same_def [of _ None])

lemma same_None [simp]: "same None b \<longleftrightarrow> b = None" "same a None \<longleftrightarrow> a = None"
  by (cases b; simp add: same_def) (cases a; simp add: same_def)

lemma threeway_cases:
  fixes head0 remote0 :: "cache_entry option"
  assumes "o_head_idx opt = 2" and "\<not> o_aggressive opt" and "anc \<noteq> Some (o_df_conflict_entry opt)"
  defines "head \<equiv> not_df opt head0" and "remote \<equiv> not_df opt remote0"
    and "dfh \<equiv> head0 = Some (o_df_conflict_entry opt)" and "dfr \<equiv> remote0 = Some (o_df_conflict_entry opt)"
  shows "threeway_merge wt opt [index, anc, head0, remote0] st =
    (let outcome = trivial_merge anc head dfh remote dfr in
     if index \<noteq> None \<and> \<not> same index head \<and> (\<forall>e. outcome = Take e \<longrightarrow> \<not> same index (Some e))
     then reject_index wt opt [index, anc, head0, remote0] 4 (the index) st
     else case outcome of
            Take e \<Rightarrow> merged_entry wt opt e index st
          | Empty \<Rightarrow> (0, st)
          | No_merge \<Rightarrow> threeway_no_merge wt opt [index, anc, head0, remote0] True index head remote st)"
proof -
  have anc: "not_df opt anc = anc" using assms(3) by (simp add: not_df_def)
  have stages: "[index, anc, head0, remote0] ! 0 = index" "[index, anc, head0, remote0] ! o_head_idx opt = head0"
    "[index, anc, head0, remote0] ! (o_head_idx opt + 1) = remote0"
    "take (o_head_idx opt - 1) (drop 1 [index, anc, head0, remote0]) = [anc]" using assms(1) by (simp_all add: numeral_2_eq_2)
  have "\<not> (same anc head \<and> same anc remote \<and> \<not> same remote head)" using same_sym same_trans by blast
  moreover have "same head remote = same remote head" by (rule same_sym)
  moreover have df: "dfh \<Longrightarrow> head = None" "dfr \<Longrightarrow> remote = None"
    by (simp_all add: dfh_def dfr_def head_def remote_def not_df_def)
  ultimately show ?thesis
    unfolding threeway_merge_def Let_def stages head_def [symmetric] remote_def [symmetric] dfh_def [symmetric] dfr_def [symmetric]
    using assms(2) anc df
    by (cases anc; cases head; cases remote) (auto simp: trivial_merge_def)
qed

section \<open>Local changes\<close>

text \<open>
  \<open>dirty\<close>: the file of an index entry is there, is not the file of the index, and nothing in the
  options or flags allows to skip the check.  \<open>untouched\<close>: whatever was added to the
  result has the contents of the entry and is not marked for update or removal, or it is an entry of the
  source index, removed from a directory that is in the way, whose own file has no local changes.
\<close>

definition dirty :: "worktree \<Rightarrow> unpack_trees_options \<Rightarrow> cache_entry \<Rightarrow> bool" where
  "dirty wt opt ce \<longleftrightarrow> \<not> o_index_only opt \<and> o_reset opt = UNPACK_RESET_NONE \<and>
     (\<exists>is_dir. wt_lstat wt (ce_name ce) = Lstat_ok is_dir) \<and> wt_changed wt ce \<and> \<not> wt_submodule_from_ce wt ce \<and>
     \<not> S_ISGITLINK (ce_mode ce) \<and> \<not> S_ISSPARSEDIR (ce_mode ce) \<and> \<not> ce_uptodate ce \<and> \<not> ce_skip_worktree ce \<and>
     \<not> ce_has ce CE_CONFLICTED"

definition marked :: "cache_entry \<Rightarrow> bool" where
  "marked ce \<longleftrightarrow> ce_has ce CE_UPDATE \<or> ce_has ce CE_REMOVE \<or> ce_has ce CE_WT_REMOVE"

definition removed_clean :: "worktree \<Rightarrow> unpack_trees_options \<Rightarrow> cache_entry \<Rightarrow> bool" where
  "removed_clean wt opt e \<longleftrightarrow>
     (\<exists>ce2 \<in> set (wt_src_index wt). ce_name e = ce_name ce2 \<and> ce_mode e = ce_mode ce2 \<and> ce_oid e = ce_oid ce2 \<and>
        ce_stage ce2 = 0 \<and> \<not> dirty wt opt ce2)"

definition untouched :: "worktree \<Rightarrow> unpack_trees_options \<Rightarrow> cache_entry \<Rightarrow> unpack_state \<Rightarrow> unpack_state \<Rightarrow> bool" where
  "untouched wt opt ce st st' \<longleftrightarrow>
     (\<exists>added. us_result st' = us_result st @ added \<and>
        (\<forall>e \<in> set added. ce_mode e = ce_mode ce \<and> ce_oid e = ce_oid ce \<and> \<not> marked e \<or> removed_clean wt opt e))"



lemma untouchedI [intro]: "us_result st' = us_result st \<Longrightarrow> untouched wt opt ce st st'"
  by (auto simp: untouched_def)



lemma frame_simps [simp]:
  "us_result (invalidate_ce_path ce st) = us_result st"
  "us_result (mark_ce_used wt ce st) = us_result st"
  "us_result (snd (add_rejected_path opt e path st)) = us_result st"
  "fst (add_rejected_path opt e path st) = - 1"
  "us_result (snd (reject_merge opt ce st)) = us_result st"
  "us_result (snd (check_submodule_move_head wt opt ce old new st)) = us_result st"
  by (simp_all add: invalidate_ce_path_def mark_ce_used_def Let_def add_rejected_path_def reject_merge_def check_submodule_move_head_def)
















section \<open>Properties\<close>

text \<open>
  C20: Three-way merge.  With one ancestor and without \<open>--aggressive\<close>, for every combination of index, ancestor, head and remote
  and for directories in place of head or remote, \<open>threeway_merge\<close> follows the table of
  \<open>trivial-merge.adoc\<close>: it rejects an index entry that matches neither the head nor a trivial
  result, and otherwise takes the entry the table names, leaves the path out, or keeps all stages.
\<close>

theorem threeway_merge_table:
  assumes "o_head_idx opt = 2" and "\<not> o_aggressive opt" and "anc \<noteq> Some (o_df_conflict_entry opt)"
  shows "threeway_merge wt opt [index, anc, head0, remote0] st =
    (let head = not_df opt head0; remote = not_df opt remote0;
         outcome = trivial_merge anc head (head0 = Some (o_df_conflict_entry opt)) remote (remote0 = Some (o_df_conflict_entry opt)) in
     if index \<noteq> None \<and> \<not> same index head \<and> (\<forall>e. outcome = Take e \<longrightarrow> \<not> same index (Some e))
     then reject_index wt opt [index, anc, head0, remote0] 4 (the index) st
     else case outcome of
            Take e \<Rightarrow> merged_entry wt opt e index st
          | Empty \<Rightarrow> (0, st)
          | No_merge \<Rightarrow> threeway_no_merge wt opt [index, anc, head0, remote0] True index head remote st)"
  unfolding Let_def by (rule threeway_cases [OF assms, unfolded Let_def])

definition sample_options :: unpack_trees_options where
  "sample_options = \<lparr>o_update = True, o_index_only = False, o_aggressive = False, o_initial_checkout = False,
     o_skip_sparse_checkout = True, o_quiet = False, o_show_all_errors = True, o_reset = UNPACK_RESET_NONE, o_head_idx = 2,
     o_merge_size = 3,
     o_df_conflict_entry = \<lparr>ce_stat_data = 0, ce_mode = 0, ce_flags = 0, ce_oid = \<lparr>oid_hash = [], oid_algo = 0\<rparr>, ce_name = []\<rparr>\<rparr>"

definition empty_state :: unpack_state where
  "empty_state = \<lparr>us_result = [], us_invalidated = [], us_unpacked = [], us_cache_bottom = 0, us_rejects = [], us_nontrivial_merge = False\<rparr>"

definition sample_entry :: "byte \<Rightarrow> cache_entry" where
  "sample_entry b = \<lparr>ce_stat_data = 0, ce_mode = 33188, ce_flags = 0, ce_oid = \<lparr>oid_hash = replicate 32 b, oid_algo = 2\<rparr>, ce_name = [97]\<rparr>"

text \<open>A working tree in which the file differs from the index entry.\<close>

definition sample_worktree :: worktree where
  "sample_worktree = \<lparr>wt_lstat = (\<lambda>_. Lstat_ok False), wt_changed = (\<lambda>_. True), wt_leading = (\<lambda>_. - 1),
     wt_icase_exists = (\<lambda>_. False), wt_is_excluded = (\<lambda>_. False), wt_index_file_exists = (\<lambda>_ _. None),
     wt_src_index = [sample_entry 1], wt_index_name_pos = (\<lambda>_. 0), wt_resolve_gitlink_ref = (\<lambda>_. None),
     wt_read_directory = (\<lambda>_. 0), wt_original_cwd = None, wt_submodule_from_ce = (\<lambda>_. False),
     wt_file_exists = (\<lambda>_. True), wt_submodule_move_head = (\<lambda>_ _ _ _. False),
     wt_should_update_submodules = False, wt_add_index_entry = (\<lambda>_ _. 0), wt_traverse_sparse_dir = (\<lambda>_ _. Pair 0),
     wt_gvfs_no_delete_outside_sparse = False\<rparr>"

theorem threeway_merge_table_witness:
  "threeway_merge sample_worktree sample_options [None, Some (sample_entry 1), Some (sample_entry 1), Some (sample_entry 2)] empty_state =
   merged_entry sample_worktree sample_options (sample_entry 2) None empty_state"
  using threeway_merge_table [of sample_options "Some (sample_entry 1)" sample_worktree None "Some (sample_entry 1)" "Some (sample_entry 2)" empty_state]
  by (simp add: sample_options_def sample_entry_def trivial_merge_def not_df_def same_Some ce_has_def GIT_MAX_RAWSZ_def)



end
