(* ===== verification/Hex.thy ===== *)
theory Hex
  imports Hash_Lookup
begin

text \<open>
  \<open>ctype.c\<close> and \<open>sane-ctype.h\<close>: the character classes of Git; \<open>hex-ll.c\<close>, \<open>hex-ll.h\<close> and \<open>hex.c\<close>: reading
  and writing object names in hexadecimal.  A string is given without its NUL, and
  \<open>char_at\<close> reads the NUL at its end.  A hash algorithm is its number, as in the array
  \<open>hash_algos\<close>; \<open>the_algo\<close> is the algorithm of the repository.
\<close>

section \<open>Character classes\<close>

definition GIT_SPACE :: byte where "GIT_SPACE = 0x01"
definition GIT_DIGIT :: byte where "GIT_DIGIT = 0x02"
definition GIT_ALPHA :: byte where "GIT_ALPHA = 0x04"
definition GIT_GLOB_SPECIAL :: byte where "GIT_GLOB_SPECIAL = 0x08"
definition GIT_REGEX_SPECIAL :: byte where "GIT_REGEX_SPECIAL = 0x10"
definition GIT_PATHSPEC_MAGIC :: byte where "GIT_PATHSPEC_MAGIC = 0x20"
definition GIT_CNTRL :: byte where "GIT_CNTRL = 0x40"
definition GIT_PUNCT :: byte where "GIT_PUNCT = 0x80"

definition sane_ctype :: "byte list" where
  "sane_ctype =
     (let S = GIT_SPACE; A = GIT_ALPHA; D = GIT_DIGIT; G = GIT_GLOB_SPECIAL; R = GIT_REGEX_SPECIAL;
          P = GIT_PATHSPEC_MAGIC; X = GIT_CNTRL; U = GIT_PUNCT; Z = GIT_CNTRL OR GIT_SPACE in
      [X, X, X, X, X, X, X, X, X, Z, Z, X, X, Z, X, X,
       X, X, X, X, X, X, X, X, X, X, X, X, X, X, X, X,
       S, P, P, P, R, P, P, P, R, R, G, R, P, P, R, P,
       D, D, D, D, D, D, D, D, D, D, P, P, P, P, P, G,
       P, A, A, A, A, A, A, A, A, A, A, A, A, A, A, A,
       A, A, A, A, A, A, A, A, A, A, A, G, G, U, R, P,
       P, A, A, A, A, A, A, A, A, A, A, A, A, A, A, A,
       A, A, A, A, A, A, A, A, A, A, A, R, R, U, P, X] @ replicate 128 0)"

definition sane_istest :: "byte \<Rightarrow> byte \<Rightarrow> bool" where
  "sane_istest x mask_bits \<longleftrightarrow> sane_ctype ! unat x AND mask_bits \<noteq> 0"

definition isspace :: "byte \<Rightarrow> bool" where "isspace x = sane_istest x GIT_SPACE"
definition isdigit :: "byte \<Rightarrow> bool" where "isdigit x = sane_istest x GIT_DIGIT"
definition isalpha :: "byte \<Rightarrow> bool" where "isalpha x = sane_istest x GIT_ALPHA"
definition isalnum :: "byte \<Rightarrow> bool" where "isalnum x = sane_istest x (GIT_ALPHA OR GIT_DIGIT)"
definition isprint :: "byte \<Rightarrow> bool" where "isprint x \<longleftrightarrow> 0x20 \<le> x \<and> x \<le> 0x7e"
definition is_glob_special :: "byte \<Rightarrow> bool" where "is_glob_special x = sane_istest x GIT_GLOB_SPECIAL"
definition iscntrl :: "byte \<Rightarrow> bool" where "iscntrl x = sane_istest x GIT_CNTRL"
definition ispunct :: "byte \<Rightarrow> bool" where
  "ispunct x = sane_istest x (GIT_PUNCT OR GIT_REGEX_SPECIAL OR GIT_GLOB_SPECIAL OR GIT_PATHSPEC_MAGIC)"

definition sane_case :: "byte \<Rightarrow> byte \<Rightarrow> byte" where
  "sane_case x high = (if sane_istest x GIT_ALPHA then (x AND NOT 0x20) OR high else x)"

definition sane_iscase :: "byte \<Rightarrow> bool \<Rightarrow> bool" where
  "sane_iscase x is_lower =
     (if \<not> sane_istest x GIT_ALPHA then False
      else if is_lower then x AND 0x20 \<noteq> 0
      else x AND 0x20 = 0)"

definition islower :: "byte \<Rightarrow> bool" where "islower x = sane_iscase x True"
definition isupper :: "byte \<Rightarrow> bool" where "isupper x = sane_iscase x False"
definition tolower :: "byte \<Rightarrow> byte" where "tolower x = sane_case x 0x20"
definition toupper :: "byte \<Rightarrow> byte" where "toupper x = sane_case x 0"

section \<open>Hexadecimal digits\<close>

definition hexval_table :: "int list" where
  "hexval_table =
     replicate 48 (- 1) @ [0, 1, 2, 3, 4, 5, 6, 7, 8, 9] @ replicate 7 (- 1) @ [10, 11, 12, 13, 14, 15] @
     replicate 26 (- 1) @ [10, 11, 12, 13, 14, 15] @ replicate 153 (- 1)"

definition hexval :: "byte \<Rightarrow> u32" where
  "hexval c = of_int (hexval_table ! unat c)"

definition isxdigit :: "byte \<Rightarrow> bool" where
  "isxdigit x \<longleftrightarrow> hexval_table ! unat x \<noteq> - 1"

definition char_at :: "bytes \<Rightarrow> nat \<Rightarrow> byte" where
  "char_at s i = (if i < length s then s ! i else 0)"

definition hex2chr :: "bytes \<Rightarrow> u32" where
  "hex2chr s =
     (let val = hexval (char_at s 0) in
      if val AND NOT 0xf \<noteq> 0 then val else push_bit 4 val OR hexval (char_at s 1))"

text \<open>The bytes written and the result.\<close>

fun hex_to_bytes :: "bytes \<Rightarrow> nat \<Rightarrow> bytes \<times> int" where
  "hex_to_bytes hex 0 = ([], 0)"
| "hex_to_bytes hex (Suc len) =
     (let val = push_bit 4 (hexval (char_at hex 0)) OR hexval (char_at hex 1) in
      if val AND NOT 0xff \<noteq> 0 then ([], - 1)
      else (case hex_to_bytes (drop 2 hex) len of (binary, ret) \<Rightarrow> (ucast val # binary, ret)))"

section \<open>Object names in hexadecimal\<close>

definition GIT_HASH_NALGOS :: nat where "GIT_HASH_NALGOS = 3"

definition algo_rawsz :: "nat \<Rightarrow> nat" where
  "algo_rawsz algo = [0, GIT_SHA1_RAWSZ, GIT_MAX_RAWSZ] ! algo"

text \<open>The bytes written so far, and whether all of them could be read.\<close>

fun get_hash_hex_loop :: "bytes \<Rightarrow> nat \<Rightarrow> bytes \<times> bool" where
  "get_hash_hex_loop hex 0 = ([], True)"
| "get_hash_hex_loop hex (Suc n) =
     (let val = hex2chr hex in
      if sint val < 0 then ([], False)
      else (case get_hash_hex_loop (drop 2 hex) n of (hash, ok) \<Rightarrow> (ucast val # hash, ok)))"

definition get_hash_hex_algop :: "bytes \<Rightarrow> bytes \<Rightarrow> nat \<Rightarrow> bytes \<times> int" where
  "get_hash_hex_algop hex hash algo =
     (case get_hash_hex_loop hex (algo_rawsz algo) of
        (bs, ok) \<Rightarrow> (bs @ drop (length bs) hash, if ok then 0 else - 1))"

definition get_oid_hex_algop :: "bytes \<Rightarrow> object_id \<Rightarrow> nat \<Rightarrow> object_id \<times> int" where
  "get_oid_hex_algop hex oid algo =
     (case get_hash_hex_algop hex (oid_hash oid) algo of
        (hash, ret) \<Rightarrow>
          (let oid = oid\<lparr>oid_hash := hash\<rparr> in
           if ret = 0 then
             (let oid = oid\<lparr>oid_algo := int algo\<rparr> in
              (if algo_rawsz algo \<noteq> GIT_MAX_RAWSZ
               then oid\<lparr>oid_hash := take (algo_rawsz algo) (oid_hash oid) @ replicate (GIT_MAX_RAWSZ - algo_rawsz algo) 0\<rparr>
               else oid, ret))
           else (oid, ret)))"

fun get_oid_hex_any_loop :: "bytes \<Rightarrow> object_id \<Rightarrow> nat \<Rightarrow> object_id \<times> nat" where
  "get_oid_hex_any_loop hex oid 0 = (oid, 0)"
| "get_oid_hex_any_loop hex oid (Suc i) =
     (case get_oid_hex_algop hex oid (Suc i) of
        (oid, ret) \<Rightarrow> if ret = 0 then (oid, Suc i) else get_oid_hex_any_loop hex oid i)"

definition get_oid_hex_any :: "bytes \<Rightarrow> object_id \<Rightarrow> object_id \<times> nat" where
  "get_oid_hex_any hex oid = get_oid_hex_any_loop hex oid (GIT_HASH_NALGOS - 1)"

definition parse_oid_hex_algop :: "bytes \<Rightarrow> object_id \<Rightarrow> nat \<Rightarrow> object_id \<times> int \<times> bytes option" where
  "parse_oid_hex_algop hex oid algo =
     (case get_oid_hex_algop hex oid algo of
        (oid, ret) \<Rightarrow> (oid, ret, if ret = 0 then Some (drop (2 * algo_rawsz algo) hex) else None))"

definition parse_oid_hex_any :: "bytes \<Rightarrow> object_id \<Rightarrow> object_id \<times> nat \<times> bytes option" where
  "parse_oid_hex_any hex oid =
     (case get_oid_hex_any hex oid of
        (oid, ret) \<Rightarrow> (oid, ret, if ret \<noteq> 0 then Some (drop (2 * algo_rawsz ret) hex) else None))"

definition hex_digits :: bytes where
  "hex_digits = [48, 49, 50, 51, 52, 53, 54, 55, 56, 57, 97, 98, 99, 100, 101, 102]"

fun to_hex_loop :: "bytes \<Rightarrow> bytes" where
  "to_hex_loop [] = []"
| "to_hex_loop (b # hash) = hex_digits ! unat (drop_bit 4 b) # hex_digits ! unat (b AND 0xf) # to_hex_loop hash"

definition hash_to_hex_algop_r :: "nat \<Rightarrow> bytes \<Rightarrow> nat \<Rightarrow> bytes" where
  "hash_to_hex_algop_r the_algo hash algo =
     (let algo = (if algo = 0 then the_algo else algo) in to_hex_loop (take (algo_rawsz algo) hash))"

definition oid_to_hex_r :: "nat \<Rightarrow> object_id \<Rightarrow> bytes" where
  "oid_to_hex_r the_algo oid = hash_to_hex_algop_r the_algo (oid_hash oid) (nat (oid_algo oid))"

section \<open>Reading back\<close>

lemma hexval_digit: "n < 16 \<Longrightarrow> hexval (hex_digits ! n) = of_nat n"
proof -
  assume "n < 16"
  then have "n \<in> set [0..<16]" by simp
  moreover have "\<forall>n \<in> set [0..<16]. hexval (hex_digits ! n) = of_nat n"
    by (simp add: hexval_def hexval_table_def hex_digits_def upt_rec nth_append)
  ultimately show ?thesis by blast
qed

lemma nibbles: "unat (drop_bit 4 (b :: byte)) < 16" "unat (b AND 0xf) < 16"
proof -
  show "unat (drop_bit 4 b) < 16" using unat_byte_less [of b] by (simp add: unat_drop_bit div_less_iff_less_mult)
  show "unat (b AND 0xf) < 16" using unat_and_mask [of b 4] by (simp add: mask_eq_exp_minus_1)
qed

lemma and_not_0xf: "n < 16 \<Longrightarrow> (of_nat n :: u32) AND NOT 0xf = 0"
proof -
  assume "n < 16"
  then have "n \<in> set [0..<16]" by simp
  moreover have "\<forall>n \<in> set [0..<16]. (of_nat n :: u32) AND NOT 0xf = 0" by (simp add: upt_rec)
  ultimately show ?thesis by blast
qed

lemma hexval_cases: "hexval c = - 1 \<or> (\<exists>n < 16. hexval c = of_nat n)"
proof -
  have "\<forall>v \<in> set hexval_table. v = - 1 \<or> 0 \<le> v \<and> v < 16" by (simp add: hexval_table_def)
  moreover have "unat c < length hexval_table" by (simp add: hexval_table_def)
  ultimately have "hexval_table ! unat c = - 1 \<or> 0 \<le> hexval_table ! unat c \<and> hexval_table ! unat c < 16"
    using nth_mem by blast
  then show ?thesis
  proof
    assume v: "0 \<le> hexval_table ! unat c \<and> hexval_table ! unat c < 16"
    then have "hexval c = of_nat (nat (hexval_table ! unat c))" by (simp add: hexval_def)
    with v show ?thesis by (intro disjI2 exI [of _ "nat (hexval_table ! unat c)"]) auto
  qed (simp add: hexval_def)
qed

lemma hex2chr_digits:
  assumes "h = hex_digits ! unat (drop_bit 4 (b :: byte))" and "l = hex_digits ! unat (b AND 0xf)"
  shows "hex2chr (h # l # rest) = ucast b"
proof -
  have h: "hexval h = ucast (drop_bit 4 b)" and l: "hexval l = ucast (b AND 0xf)"
    using hexval_digit nibbles assms by simp_all
  have "(ucast (drop_bit 4 b) :: u32) AND NOT 0xf = 0" using and_not_0xf [OF nibbles(1), of b] by simp
  moreover have "push_bit 4 (ucast (drop_bit 4 b)) OR ucast (b AND 0xf) = (ucast b :: u32)"
  proof -
    have "b AND 0xf = take_bit 4 b" by (simp add: take_bit_eq_mask mask_eq_exp_minus_1)
    then show ?thesis by (simp only:) (rule bit_eqI, auto simp: bit_simps not_less dest: bit_imp_le_length)
  qed
  ultimately show ?thesis by (simp add: hex2chr_def char_at_def h l)
qed

lemma sint_ucast_byte: "0 \<le> sint (ucast (b :: byte) :: u32)"
proof -
  have "\<not> bit (ucast b :: u32) 31" by (auto simp: bit_simps dest: bit_imp_le_length)
  then show ?thesis using bit_last_iff [of "ucast b :: u32"] by simp
qed

lemma ucast_byte_back [simp]: "ucast (ucast (b :: byte) :: u32) = b"
  by (rule bit_eqI) (auto simp: bit_simps)

lemma get_hash_hex_loop_to_hex: "get_hash_hex_loop (to_hex_loop hash @ rest) (length hash) = (hash, True)"
proof (induction hash)
  case (Cons b hash)
  have "hex2chr (to_hex_loop (b # hash) @ rest) = ucast b" by (simp add: hex2chr_digits)
  moreover have "drop 2 (to_hex_loop (b # hash) @ rest) = to_hex_loop hash @ rest" by (simp add: numeral_2_eq_2)
  ultimately show ?case using Cons sint_ucast_byte [of b]
    by (simp add: Let_def not_less del: to_hex_loop.simps)
qed simp

lemma get_hash_hex_loop_short:
  "length hex < 2 * n \<Longrightarrow> \<exists>hash. get_hash_hex_loop hex n = (hash, False) \<and> length hash \<le> n"
proof (induction n arbitrary: hex)
  case (Suc n)
  have nul: "hexval 0 = - 1" by (simp add: hexval_def hexval_table_def nth_append)
  show ?case
  proof (cases "sint (hex2chr hex) < 0")
    case False
    have "hex \<noteq> []" using False nul by (auto simp: hex2chr_def char_at_def Let_def)
    moreover have "length hex \<noteq> 1"
    proof
      assume "length hex = 1"
      then have "hex2chr hex = hexval (hex ! 0) \<and> hexval (hex ! 0) AND NOT 0xf \<noteq> 0 \<or> hex2chr hex = - 1"
        using nul by (auto simp: hex2chr_def char_at_def Let_def)
      moreover have "sint (hexval c) < 0" if "hexval c AND NOT 0xf \<noteq> 0" for c
        using that hexval_cases [of c] and_not_0xf by auto
      ultimately show False using False by auto
    qed
    ultimately have "length (drop 2 hex) < 2 * n" using Suc.prems by (cases hex; cases "tl hex") auto
    from Suc.IH [OF this] False show ?thesis by (auto simp: Let_def split: prod.split)
  qed (simp add: Let_def)
qed simp

definition oid_wf :: "object_id \<Rightarrow> bool" where
  "oid_wf oid \<longleftrightarrow> oid_algo oid \<in> {1, 2} \<and> length (oid_hash oid) = GIT_MAX_RAWSZ \<and>
     (\<forall>b \<in> set (drop (algo_rawsz (nat (oid_algo oid))) (oid_hash oid)). b = 0)"

lemma algo_rawsz_simps [simp]: "algo_rawsz 1 = 20" "algo_rawsz (Suc 0) = 20" "algo_rawsz 2 = 32"
  by (simp_all add: algo_rawsz_def GIT_SHA1_RAWSZ_def GIT_MAX_RAWSZ_def numeral_2_eq_2)

lemma get_oid_hex_of_hex:
  assumes "oid_wf oid" and "length (oid_hash oid0) = GIT_MAX_RAWSZ"
  shows "get_oid_hex_algop (oid_to_hex_r the_algo oid @ rest) oid0 (nat (oid_algo oid)) = (oid, 0)"
proof -
  define n where "n = algo_rawsz (nat (oid_algo oid))"
  have n: "n \<le> 32" "oid_algo oid \<noteq> 0" using assms(1) by (auto simp: oid_wf_def n_def)
  define hash where "hash = take n (oid_hash oid)"
  have hash: "length hash = n" "oid_hash oid = hash @ replicate (32 - n) 0"
  proof -
    have "drop n (oid_hash oid) = replicate (32 - n) 0"
      using assms(1) replicate_length_same [of "drop n (oid_hash oid)" 0]
      by (simp add: oid_wf_def n_def GIT_MAX_RAWSZ_def)
    then show "oid_hash oid = hash @ replicate (32 - n) 0" unfolding hash_def by (metis append_take_drop_id)
  qed (use assms(1) n in \<open>simp add: hash_def oid_wf_def GIT_MAX_RAWSZ_def\<close>)
  have "oid_to_hex_r the_algo oid = to_hex_loop hash"
    using assms(1) by (auto simp: oid_to_hex_r_def hash_to_hex_algop_r_def oid_wf_def hash_def n_def)
  moreover have "get_hash_hex_loop (to_hex_loop hash @ rest) n = (hash, True)"
    using get_hash_hex_loop_to_hex [of hash rest] hash(1) by simp
  ultimately have "get_oid_hex_algop (oid_to_hex_r the_algo oid @ rest) oid0 (nat (oid_algo oid)) =
    (oid0\<lparr>oid_hash := oid_hash oid, oid_algo := int (nat (oid_algo oid))\<rparr>, 0)"
    using hash n(1) assms(2)
    by (simp add: get_oid_hex_algop_def get_hash_hex_algop_def n_def [symmetric] Let_def GIT_MAX_RAWSZ_def)
  then show ?thesis using assms(1) by (auto simp: oid_wf_def)
qed

text \<open>
  C36: Object names in hexadecimal.  What \<open>oid_to_hex_r\<close> writes is read back as the same object name,
  whatever the target held before: \<open>parse_oid_hex_algop\<close> stops behind it, and
  \<open>get_oid_hex_any\<close> recognizes the algorithm by the length.
\<close>

theorem oid_hex_roundtrip:
  assumes "oid_wf oid" and "length (oid_hash oid0) = GIT_MAX_RAWSZ"
  shows "parse_oid_hex_algop (oid_to_hex_r the_algo oid @ rest) oid0 (nat (oid_algo oid)) = (oid, 0, Some rest) \<and>
    get_oid_hex_any (oid_to_hex_r the_algo oid) oid0 = (oid, nat (oid_algo oid))"
proof -
  have len: "length (oid_to_hex_r the_algo oid) = 2 * algo_rawsz (nat (oid_algo oid))"
  proof -
    have "length (to_hex_loop hash) = 2 * length hash" for hash by (induction hash) auto
    then show ?thesis using assms(1)
      by (auto simp: oid_to_hex_r_def hash_to_hex_algop_r_def oid_wf_def GIT_MAX_RAWSZ_def)
  qed
  note get = get_oid_hex_of_hex [OF assms(1)]
  have any: "get_oid_hex_any (oid_to_hex_r the_algo oid) oid0 = (oid, nat (oid_algo oid))"
  proof (cases "oid_algo oid = 2")
    case True
    then show ?thesis using get [of oid0 the_algo "[]"] assms(2)
      by (simp add: get_oid_hex_any_def GIT_HASH_NALGOS_def numeral_2_eq_2)
  next
    case False
    then have algo: "oid_algo oid = 1" using assms(1) by (simp add: oid_wf_def)
    then obtain hash where "get_hash_hex_loop (oid_to_hex_r the_algo oid) 32 = (hash, False)" "length hash \<le> 32"
      using get_hash_hex_loop_short [of "oid_to_hex_r the_algo oid" 32] len by auto
    then obtain oid1 where "get_oid_hex_algop (oid_to_hex_r the_algo oid) oid0 2 = (oid1, - 1)" "length (oid_hash oid1) = GIT_MAX_RAWSZ"
      using assms(2) by (simp add: get_oid_hex_algop_def get_hash_hex_algop_def GIT_MAX_RAWSZ_def)
    with get [of oid1 the_algo "[]"] algo show ?thesis
      by (simp add: get_oid_hex_any_def GIT_HASH_NALGOS_def numeral_2_eq_2)
  qed
  then show ?thesis using get [OF assms(2), of the_algo rest] len by (simp add: parse_oid_hex_algop_def)
qed

theorem oid_hex_roundtrip_witness:
  "let oid = \<lparr>oid_hash = replicate 20 0xab @ replicate 12 0, oid_algo = 1\<rparr>; oid0 = \<lparr>oid_hash = replicate 32 7, oid_algo = 0\<rparr> in
   parse_oid_hex_algop (oid_to_hex_r 1 oid @ [32]) oid0 (nat (oid_algo oid)) = (oid, 0, Some [32]) \<and>
   get_oid_hex_any (oid_to_hex_r 1 oid) oid0 = (oid, nat (oid_algo oid))"
  unfolding Let_def by (rule oid_hex_roundtrip) (simp_all add: oid_wf_def GIT_MAX_RAWSZ_def)

end
