(* ===== verification/Wildmatch.thy ===== *)
theory Wildmatch
  imports Hex
begin

text \<open>
  \<open>wildmatch.c\<close>: shell patterns with \<open>*\<close>, \<open>**\<close>, \<open>?\<close>, brackets and escapes.  The matcher backtracks, and
  two of its results cut the search short: \<open>WM_ABORT_ALL\<close> gives up for every later start,
  \<open>WM_ABORT_TO_STARSTAR\<close> for every start before the next slash.  The theory gives patterns a
  meaning without any cut, a list of tokens and what they match, and shows that the matcher
  decides it.  A string is a list of bytes without its NUL; the length of a class name, which the code
  keeps in an \<open>int\<close>, is a natural number, so class names are shorter than 2^31 bytes.
\<close>

section \<open>Flags, results, character classes\<close>

definition WM_CASEFOLD :: u32 where "WM_CASEFOLD = 1"
definition WM_PATHNAME :: u32 where "WM_PATHNAME = 2"

datatype wm_result = WM_MATCH | WM_NOMATCH | WM_ABORT_ALL | WM_ABORT_TO_STARSTAR

definition wm_has :: "u32 \<Rightarrow> u32 \<Rightarrow> bool" where
  "wm_has flags flag \<longleftrightarrow> flags AND flag \<noteq> 0"

definition isascii :: "byte \<Rightarrow> bool" where "isascii x \<longleftrightarrow> x AND NOT 0x7f = 0"
definition ISBLANK :: "byte \<Rightarrow> bool" where "ISBLANK c \<longleftrightarrow> c = 32 \<or> c = 9"
definition ISGRAPH :: "byte \<Rightarrow> bool" where "ISGRAPH c \<longleftrightarrow> isascii c \<and> isprint c \<and> \<not> isspace c"
definition ISPRINT :: "byte \<Rightarrow> bool" where "ISPRINT c \<longleftrightarrow> isascii c \<and> isprint c"
definition ISDIGIT :: "byte \<Rightarrow> bool" where "ISDIGIT c \<longleftrightarrow> isascii c \<and> isdigit c"
definition ISALNUM :: "byte \<Rightarrow> bool" where "ISALNUM c \<longleftrightarrow> isascii c \<and> isalnum c"
definition ISALPHA :: "byte \<Rightarrow> bool" where "ISALPHA c \<longleftrightarrow> isascii c \<and> isalpha c"
definition ISCNTRL :: "byte \<Rightarrow> bool" where "ISCNTRL c \<longleftrightarrow> isascii c \<and> iscntrl c"
definition ISLOWER :: "byte \<Rightarrow> bool" where "ISLOWER c \<longleftrightarrow> isascii c \<and> islower c"
definition ISPUNCT :: "byte \<Rightarrow> bool" where "ISPUNCT c \<longleftrightarrow> isascii c \<and> ispunct c"
definition ISSPACE :: "byte \<Rightarrow> bool" where "ISSPACE c \<longleftrightarrow> isascii c \<and> isspace c"
definition ISUPPER :: "byte \<Rightarrow> bool" where "ISUPPER c \<longleftrightarrow> isascii c \<and> isupper c"
definition ISXDIGIT :: "byte \<Rightarrow> bool" where "ISXDIGIT c \<longleftrightarrow> isascii c \<and> isxdigit c"

definition wm_fold :: "u32 \<Rightarrow> byte \<Rightarrow> byte" where
  "wm_fold flags c = (if wm_has flags WM_CASEFOLD \<and> ISUPPER c then tolower c else c)"

text \<open>
  The test of a named class, \<open>None\<close> for an unknown name: alnum, alpha, blank, cntrl, digit, graph,
  lower, print, punct, space, upper, xdigit.
\<close>

definition named_class :: "u32 \<Rightarrow> bytes \<Rightarrow> byte \<Rightarrow> bool option" where
  "named_class flags name t_ch =
     (if name = [97, 108, 110, 117, 109] then Some (ISALNUM t_ch)
      else if name = [97, 108, 112, 104, 97] then Some (ISALPHA t_ch)
      else if name = [98, 108, 97, 110, 107] then Some (ISBLANK t_ch)
      else if name = [99, 110, 116, 114, 108] then Some (ISCNTRL t_ch)
      else if name = [100, 105, 103, 105, 116] then Some (ISDIGIT t_ch)
      else if name = [103, 114, 97, 112, 104] then Some (ISGRAPH t_ch)
      else if name = [108, 111, 119, 101, 114] then Some (ISLOWER t_ch)
      else if name = [112, 114, 105, 110, 116] then Some (ISPRINT t_ch)
      else if name = [112, 117, 110, 99, 116] then Some (ISPUNCT t_ch)
      else if name = [115, 112, 97, 99, 101] then Some (ISSPACE t_ch)
      else if name = [117, 112, 112, 101, 114] then Some (ISUPPER t_ch \<or> wm_has flags WM_CASEFOLD \<and> ISLOWER t_ch)
      else if name = [120, 100, 105, 103, 105, 116] then Some (ISXDIGIT t_ch)
      else None)"

definition in_range :: "u32 \<Rightarrow> byte \<Rightarrow> byte \<Rightarrow> byte \<Rightarrow> bool" where
  "in_range flags prev_ch p_ch t_ch \<longleftrightarrow>
     t_ch \<le> p_ch \<and> t_ch \<ge> prev_ch \<or>
     wm_has flags WM_CASEFOLD \<and> ISLOWER t_ch \<and> toupper t_ch \<le> p_ch \<and> toupper t_ch \<ge> prev_ch"

section \<open>Brackets\<close>

text \<open>
  One iteration of the loop over a bracket: the pattern starts at the current character, and the
  result is the next \<open>prev_ch\<close>, \<open>matched\<close> and the pattern behind what the iteration read.  \<open>None\<close> is
  \<open>WM_ABORT_ALL\<close>.
\<close>

fun class_step :: "u32 \<Rightarrow> byte \<Rightarrow> byte \<Rightarrow> bool \<Rightarrow> bytes \<Rightarrow> (byte \<times> bool \<times> bytes) option" where
  "class_step flags t_ch prev_ch matched [] = None"
| "class_step flags t_ch prev_ch matched (p_ch # p) =
     (if p_ch = 92 then
        (case p of [] \<Rightarrow> None | p_ch # p \<Rightarrow> Some (p_ch, matched \<or> t_ch = p_ch, p))
      else if p_ch = 45 \<and> prev_ch \<noteq> 0 \<and> p \<noteq> [] \<and> hd p \<noteq> 93 then
        (if hd p = 92 then
           (case tl p of [] \<Rightarrow> None | p_ch # p \<Rightarrow> Some (0, matched \<or> in_range flags prev_ch p_ch t_ch, p))
         else Some (0, matched \<or> in_range flags prev_ch (hd p) t_ch, tl p))
      else if p_ch = 91 \<and> p \<noteq> [] \<and> hd p = 58 then
        (let s = takeWhile (\<lambda>c. c \<noteq> 93) (tl p); r = dropWhile (\<lambda>c. c \<noteq> 93) (tl p) in
         if r = [] then None
         else if s = [] \<or> last s \<noteq> 58 then Some (91, matched \<or> t_ch = 91, p)
         else (case named_class flags (butlast s) t_ch of
                 None \<Rightarrow> None
               | Some b \<Rightarrow> Some (0, matched \<or> b, tl r)))
      else Some (p_ch, matched \<or> t_ch = p_ch, p))"

lemma class_step_shorter: "class_step flags t_ch prev_ch matched p = Some (prev', matched', p') \<Longrightarrow> length p' < length p"
proof (induction flags t_ch prev_ch matched p rule: class_step.induct)
  case (2 flags t_ch prev_ch matched p_ch p)
  have "length (tl (dropWhile (\<lambda>c. c \<noteq> 93) (tl p))) \<le> length p"
    using length_dropWhile_le [of "\<lambda>c. c \<noteq> 93" "tl p"] by simp
  moreover have "length (tl (tl p)) \<le> length p" "length (tl p) \<le> length p" by simp_all
  ultimately show ?case using 2
    by (auto simp: Let_def less_Suc_eq_le simp del: length_tl split: if_splits list.splits option.splits)
qed simp

function class_loop :: "u32 \<Rightarrow> byte \<Rightarrow> byte \<Rightarrow> bool \<Rightarrow> bytes \<Rightarrow> (bool \<times> bytes) option" where
  "class_loop flags t_ch prev_ch matched p =
     (case class_step flags t_ch prev_ch matched p of
        None \<Rightarrow> None
      | Some (prev_ch, matched, p) \<Rightarrow>
          if p \<noteq> [] \<and> hd p = 93 then Some (matched, tl p) else class_loop flags t_ch prev_ch matched p)"
  by pat_completeness auto
termination by (relation "measure (\<lambda>(flags, t_ch, prev_ch, matched, p). length p)") (auto dest: class_step_shorter)

declare class_loop.simps [simp del]

lemma class_loop_shorter: "class_loop flags t_ch prev_ch matched p = Some (matched', p') \<Longrightarrow> length p' < length p"
proof (induction flags t_ch prev_ch matched p rule: class_loop.induct)
  case (1 flags t_ch prev_ch matched p)
  from 1(2) obtain prev1 matched1 p1 where step: "class_step flags t_ch prev_ch matched p = Some (prev1, matched1, p1)"
    and rest: "(if p1 \<noteq> [] \<and> hd p1 = 93 then Some (matched1, tl p1) else class_loop flags t_ch prev1 matched1 p1) = Some (matched', p')"
    by (subst (asm) class_loop.simps) (auto split: option.splits)
  show ?case
  proof (cases "p1 \<noteq> [] \<and> hd p1 = 93")
    case True
    with rest class_step_shorter [OF step] show ?thesis by auto
  next
    case False
    with rest have "length p' < length p1" using 1(1) [OF step refl refl False] by simp
    with class_step_shorter [OF step] show ?thesis by simp
  qed
qed

text \<open>A whole bracket: whether it lets the character pass, and the pattern behind it.\<close>

definition wm_bracket :: "u32 \<Rightarrow> byte \<Rightarrow> bytes \<Rightarrow> (bool \<times> bytes) option" where
  "wm_bracket flags t_ch p =
     (let negated = (p \<noteq> [] \<and> hd p \<in> {33, 94});
          p = (if negated then tl p else p) in
      map_option (\<lambda>(matched, p). (matched \<noteq> negated \<and> \<not> (wm_has flags WM_PATHNAME \<and> t_ch = 47), p))
        (class_loop flags t_ch 0 False p))"

lemma wm_bracket_shorter: "wm_bracket flags t_ch p = Some (ok, p') \<Longrightarrow> length p' < length p"
  by (cases p) (auto simp: wm_bracket_def Let_def dest!: class_loop_shorter split: if_splits)

section \<open>The matcher\<close>

definition star_skip :: "u32 \<Rightarrow> bool \<Rightarrow> byte \<Rightarrow> bytes \<Rightarrow> bytes" where
  "star_skip flags match_slash p_ch text =
     dropWhile (\<lambda>t_ch. (match_slash \<or> t_ch \<noteq> 47) \<and> wm_fold flags t_ch \<noteq> p_ch) text"

text \<open>The loop behind a star; \<open>rec\<close> is the recursive call for the pattern behind the star.\<close>

function star_loop :: "(bytes \<Rightarrow> wm_result) \<Rightarrow> u32 \<Rightarrow> bool \<Rightarrow> bytes \<Rightarrow> bytes \<Rightarrow> wm_result" where
  "star_loop rec flags match_slash p text =
     (if text = [] then WM_ABORT_ALL
      else
        let p_ch = wm_fold flags (hd p);
            text = (if \<not> is_glob_special (hd p) then star_skip flags match_slash p_ch text else text) in
        if \<not> is_glob_special (hd p) \<and> (text = [] \<or> wm_fold flags (hd text) \<noteq> p_ch) then
          (if match_slash then WM_ABORT_ALL else WM_ABORT_TO_STARSTAR)
        else
          let matched = rec text in
          if matched \<noteq> WM_NOMATCH \<and> (\<not> match_slash \<or> matched \<noteq> WM_ABORT_TO_STARSTAR) then matched
          else if matched = WM_NOMATCH \<and> \<not> match_slash \<and> hd text = 47 then WM_ABORT_TO_STARSTAR
          else star_loop rec flags match_slash p (tl text))"
  by pat_completeness auto
termination
proof (relation "measure (\<lambda>(rec, flags, match_slash, p, text). length text)", goal_cases)
  case (2 rec flags match_slash p t p_ch t' matched)
  then have "length t' \<le> length t" by (auto simp: star_skip_def length_dropWhile_le)
  with 2 show ?case by (cases t'; cases t) auto
qed simp

declare star_loop.simps [simp del]

definition wm_star :: "(bytes \<Rightarrow> wm_result) \<Rightarrow> (bytes \<Rightarrow> wm_result) \<Rightarrow> u32 \<Rightarrow> bool \<Rightarrow> bytes \<Rightarrow> bytes \<Rightarrow> wm_result" where
  "wm_star rec cont flags match_slash p text =
     (if p = [] then
        (if \<not> match_slash \<and> 47 \<in> set text then WM_ABORT_TO_STARSTAR else WM_MATCH)
      else if \<not> match_slash \<and> hd p = 47 then
        (case dropWhile (\<lambda>c. c \<noteq> 47) text of [] \<Rightarrow> WM_ABORT_ALL | _ # text \<Rightarrow> cont text)
      else star_loop rec flags match_slash p text)"

lemma tl_dropWhile_le: "length (dropWhile f xs) - Suc 0 \<le> length xs"
  using length_dropWhile_le [of f xs] by simp

text \<open>Whether a double star stands between slashes: \<open>prev\<close> is the character before it.\<close>

definition wm_dirs :: "u32 \<Rightarrow> byte option \<Rightarrow> bytes \<Rightarrow> bool" where
  "wm_dirs flags prev p \<longleftrightarrow>
     (prev = None \<or> prev = Some 47) \<and>
     (p = [] \<or> hd p = 47 \<or> hd p = 92 \<and> tl p \<noteq> [] \<and> hd (tl p) = 47)"

text \<open>
  The main loop; \<open>prev\<close> is the character of the pattern before the current one, and \<open>None\<close> at the start
  of each call.
\<close>

function dowild_loop :: "u32 \<Rightarrow> byte option \<Rightarrow> bytes \<Rightarrow> bytes \<Rightarrow> wm_result" where
  "dowild_loop flags prev [] text = (if text \<noteq> [] then WM_NOMATCH else WM_MATCH)"
| "dowild_loop flags prev (p_ch0 # p) text =
     (if text = [] \<and> p_ch0 \<noteq> 42 then WM_ABORT_ALL
      else
        let t_ch = wm_fold flags (hd text);
            p_ch = wm_fold flags p_ch0 in
        if p_ch = 92 then
          (case p of
             [] \<Rightarrow> WM_NOMATCH
           | p_ch # p \<Rightarrow> if t_ch \<noteq> p_ch then WM_NOMATCH else dowild_loop flags (Some p_ch) p (tl text))
        else if p_ch = 63 then
          (if wm_has flags WM_PATHNAME \<and> t_ch = 47 then WM_NOMATCH else dowild_loop flags (Some p_ch0) p (tl text))
        else if p_ch = 42 then
          (if p \<noteq> [] \<and> hd p = 42 then
             let p = dropWhile (\<lambda>c. c = 42) p;
                 star = (\<lambda>match_slash. wm_star (dowild_loop flags None p) (dowild_loop flags (Some 47) (tl p)) flags match_slash p text) in
             if \<not> wm_has flags WM_PATHNAME then star True
             else if wm_dirs flags prev p then
               (if p \<noteq> [] \<and> hd p = 47 \<and> dowild_loop flags None (tl p) text = WM_MATCH then WM_MATCH else star True)
             else star False
           else wm_star (dowild_loop flags None p) (dowild_loop flags (Some 47) (tl p)) flags (\<not> wm_has flags WM_PATHNAME) p text)
        else if p_ch = 91 then
          (case wm_bracket flags t_ch p of
             None \<Rightarrow> WM_ABORT_ALL
           | Some (ok, p) \<Rightarrow> if \<not> ok then WM_NOMATCH else dowild_loop flags (Some 93) p (tl text))
        else if t_ch \<noteq> p_ch then WM_NOMATCH
        else dowild_loop flags (Some p_ch0) p (tl text))"
  by pat_completeness auto
termination
  by (relation "measure (\<lambda>(flags, prev, p, text). length p)")
    (auto simp: less_Suc_eq_le length_dropWhile_le tl_dropWhile_le dest: wm_bracket_shorter)

definition dowild :: "bytes \<Rightarrow> bytes \<Rightarrow> u32 \<Rightarrow> wm_result" where
  "dowild p text flags = dowild_loop flags None p text"

definition wildmatch :: "bytes \<Rightarrow> bytes \<Rightarrow> u32 \<Rightarrow> wm_result" where
  "wildmatch pattern text flags = (let res = dowild pattern text flags in if res = WM_MATCH then WM_MATCH else WM_NOMATCH)"

section \<open>The meaning of a pattern\<close>

text \<open>
  A bracket as a list of items, read without a character to compare.
\<close>

datatype class_item = Single byte | Range byte byte | Named bytes

fun item_has :: "u32 \<Rightarrow> byte \<Rightarrow> class_item \<Rightarrow> bool" where
  "item_has flags t (Single c) \<longleftrightarrow> t = c"
| "item_has flags t (Range lo hi) \<longleftrightarrow> in_range flags lo hi t"
| "item_has flags t (Named name) \<longleftrightarrow> named_class flags name t = Some True"

fun item_step :: "byte \<Rightarrow> bytes \<Rightarrow> (byte \<times> class_item \<times> bytes) option" where
  "item_step prev_ch [] = None"
| "item_step prev_ch (c # p) =
     (if c = 92 then (case p of [] \<Rightarrow> None | d # p \<Rightarrow> Some (d, Single d, p))
      else if c = 45 \<and> prev_ch \<noteq> 0 \<and> p \<noteq> [] \<and> hd p \<noteq> 93 then
        (if hd p = 92 then (case tl p of [] \<Rightarrow> None | d # p \<Rightarrow> Some (0, Range prev_ch d, p))
         else Some (0, Range prev_ch (hd p), tl p))
      else if c = 91 \<and> p \<noteq> [] \<and> hd p = 58 then
        (let s = takeWhile (\<lambda>c. c \<noteq> 93) (tl p); r = dropWhile (\<lambda>c. c \<noteq> 93) (tl p) in
         if r = [] then None
         else if s = [] \<or> last s \<noteq> 58 then Some (91, Single 91, p)
         else if named_class 0 (butlast s) 0 = None then None
         else Some (0, Named (butlast s), tl r))
      else Some (c, Single c, p))"

lemma named_class_None: "named_class flags name t = None \<longleftrightarrow> named_class 0 name 0 = None"
  by (simp add: named_class_def)

lemma class_step_item:
  "class_step flags t prev_ch matched p =
     map_option (\<lambda>(prev, item, p). (prev, matched \<or> item_has flags t item, p)) (item_step prev_ch p)"
proof (cases p)
  case (Cons c p)
  let ?f = "map_option (\<lambda>(prev, item, p). (prev, matched \<or> item_has flags t item, p))"
  have named: "(case named_class flags name t of None \<Rightarrow> None | Some b \<Rightarrow> Some (0 :: byte, matched \<or> b, q :: bytes)) =
    (if named_class 0 name 0 = None then None else Some (0, matched \<or> named_class flags name t = Some True, q))" for name q
    using named_class_None [of flags name t] by (auto split: option.split)
  show ?thesis unfolding Cons
    by (simp only: class_step.simps item_step.simps Let_def named if_distrib [of ?f] list.case_distrib [of ?f]
      option.map prod.case item_has.simps)
qed simp

lemma item_step_shorter: "item_step prev_ch p = Some (prev', item, p') \<Longrightarrow> length p' < length p"
  using class_step_shorter [of 0 0 prev_ch False p] by (simp add: class_step_item)

function class_items :: "byte \<Rightarrow> bytes \<Rightarrow> (class_item list \<times> bytes) option" where
  "class_items prev_ch p =
     (case item_step prev_ch p of
        None \<Rightarrow> None
      | Some (prev_ch, item, p) \<Rightarrow>
          if p \<noteq> [] \<and> hd p = 93 then Some ([item], tl p)
          else map_option (\<lambda>(items, p). (item # items, p)) (class_items prev_ch p))"
  by pat_completeness auto
termination by (relation "measure (\<lambda>(prev_ch, p). length p)") (auto dest: item_step_shorter)

declare class_items.simps [simp del]

lemma class_loop_items:
  "class_loop flags t prev_ch matched p =
     map_option (\<lambda>(items, p). (matched \<or> (\<exists>item \<in> set items. item_has flags t item), p)) (class_items prev_ch p)"
proof (induction flags t prev_ch matched p rule: class_loop.induct)
  case (1 flags t prev_ch matched p)
  show ?case
  proof (cases "item_step prev_ch p")
    case None
    then show ?thesis
      by (simp add: class_loop.simps [of flags t prev_ch matched p] class_items.simps [of prev_ch p] class_step_item)
  next
    case (Some r)
    obtain prev1 item p1 where r: "r = (prev1, item, p1)" by (metis prod_cases3)
    have step: "class_step flags t prev_ch matched p = Some (prev1, matched \<or> item_has flags t item, p1)"
      using Some r by (simp add: class_step_item)
    from 1 [OF step refl refl] show ?thesis using step Some r
      by (auto simp: class_loop.simps [of flags t prev_ch matched p] class_items.simps [of prev_ch p] option.map_comp
        intro!: option.map_cong)
  qed
qed

text \<open>
  A pattern is a list of tokens: a test for one character, any number of characters that pass a
  test, or \<open>**/\<close>, any number of leading directories.
\<close>

datatype token = One "byte \<Rightarrow> bool" | Star "byte \<Rightarrow> bool" | Dirs | Never

definition bracket_has :: "u32 \<Rightarrow> bool \<Rightarrow> class_item list \<Rightarrow> byte \<Rightarrow> bool" where
  "bracket_has flags negated items t \<longleftrightarrow>
     (\<exists>item \<in> set items. item_has flags (wm_fold flags t) item) \<noteq> negated \<and>
     \<not> (wm_has flags WM_PATHNAME \<and> t = 47)"

definition slash_ok :: "u32 \<Rightarrow> byte \<Rightarrow> bool" where
  "slash_ok flags t \<longleftrightarrow> \<not> (wm_has flags WM_PATHNAME \<and> t = 47)"

lemma class_items_shorter: "class_items prev_ch p = Some (items, p') \<Longrightarrow> length p' < length p"
  using class_loop_shorter [of 0 0 prev_ch False p] by (simp add: class_loop_items)

definition bracket_items :: "bytes \<Rightarrow> (bool \<times> class_item list \<times> bytes) option" where
  "bracket_items p =
     (let negated = (p \<noteq> [] \<and> hd p \<in> {33, 94}) in
      map_option (Pair negated) (class_items 0 (if negated then tl p else p)))"

lemma bracket_items_shorter: "bracket_items p = Some (negated, items, p') \<Longrightarrow> length p' < length p"
  by (cases p) (auto simp: bracket_items_def Let_def dest!: class_items_shorter split: if_splits)

function tokens :: "u32 \<Rightarrow> byte option \<Rightarrow> bytes \<Rightarrow> token list" where
  "tokens flags prev [] = []"
| "tokens flags prev (c # p) =
     (if c = 92 then
        (case p of [] \<Rightarrow> [Never] | d # p \<Rightarrow> One (\<lambda>t. wm_fold flags t = d) # tokens flags (Some d) p)
      else if c = 63 then One (slash_ok flags) # tokens flags (Some c) p
      else if c = 42 then
        (let q = dropWhile (\<lambda>c. c = 42) p in
         if wm_has flags WM_PATHNAME \<and> p \<noteq> [] \<and> hd p = 42 \<and> wm_dirs flags prev q then
           (if q \<noteq> [] \<and> hd q = 47 then Dirs # tokens flags (Some 47) (tl q)
            else Star (\<lambda>t. True) # tokens flags (Some c) q)
         else Star (slash_ok flags) # tokens flags (Some c) q)
      else if c = 91 then
        (case bracket_items p of
           None \<Rightarrow> [Never]
         | Some (negated, items, p) \<Rightarrow> One (bracket_has flags negated items) # tokens flags (Some 93) p)
      else One (\<lambda>t. wm_fold flags t = wm_fold flags c) # tokens flags (Some c) p)"
  by pat_completeness auto
termination
  by (relation "measure (\<lambda>(flags, prev, p). length p)")
    (auto simp: less_Suc_eq_le length_dropWhile_le tl_dropWhile_le dest: bracket_items_shorter)

primrec matches :: "token list \<Rightarrow> bytes \<Rightarrow> bool" where
  "matches [] t \<longleftrightarrow> t = []"
| "matches (tok # toks) t \<longleftrightarrow>
     (case tok of
        One f \<Rightarrow> t \<noteq> [] \<and> f (hd t) \<and> matches toks (tl t)
      | Star f \<Rightarrow> (\<exists>n \<le> length t. list_all f (take n t) \<and> matches toks (drop n t))
      | Dirs \<Rightarrow> matches toks t \<or> (\<exists>n < length t. t ! n = 47 \<and> matches toks (drop (Suc n) t))
      | Never \<Rightarrow> False)"

section \<open>Folding case\<close>

lemma sane_ctype_alpha:
  "map (\<lambda>x. x AND GIT_ALPHA \<noteq> 0) sane_ctype =
     replicate 65 False @ replicate 26 True @ replicate 6 False @ replicate 26 True @ replicate 133 False"
  by code_simp

lemma isalpha_iff: "isalpha c \<longleftrightarrow> 65 \<le> unat c \<and> unat c < 91 \<or> 97 \<le> unat c \<and> unat c < 123"
proof -
  have "unat c < length sane_ctype" using unat_byte_less [of c] by (simp add: sane_ctype_def Let_def)
  then have "isalpha c = map (\<lambda>x. x AND GIT_ALPHA \<noteq> 0) sane_ctype ! unat c"
    by (simp add: isalpha_def sane_istest_def)
  moreover have "unat c - 123 < 133" using unat_byte_less [of c] by linarith
  ultimately show ?thesis unfolding sane_ctype_alpha by (auto simp: nth_append)
qed

lemma isalpha_tolower: "isalpha c \<Longrightarrow> isalpha (tolower c)"
proof -
  assume alpha: "isalpha c"
  then have "unat c \<in> set ([65..<91] @ [97..<123])" by (simp add: isalpha_iff del: upt.simps upt_conv_Cons upt_rec_numeral)
  moreover have "\<forall>n \<in> set ([65..<91] @ [97..<123]). 97 \<le> unat (((of_nat n :: byte) AND NOT 0x20) OR 0x20) \<and>
    unat (((of_nat n :: byte) AND NOT 0x20) OR 0x20) < 123" by code_simp
  ultimately have "97 \<le> unat (((of_nat (unat c) :: byte) AND NOT 0x20) OR 0x20) \<and>
    unat (((of_nat (unat c) :: byte) AND NOT 0x20) OR 0x20) < 123" by blast
  with alpha show ?thesis unfolding isalpha_iff [of "tolower c"]
    by (simp add: tolower_def sane_case_def isalpha_def)
qed

lemma wm_fold_other: "\<not> isalpha x \<Longrightarrow> wm_fold flags c = x \<longleftrightarrow> c = x"
  using isalpha_tolower [of c] by (auto simp: wm_fold_def ISUPPER_def isupper_def sane_iscase_def isalpha_def)

lemma wm_special_not_alpha: "\<not> isalpha 42" "\<not> isalpha 47" "\<not> isalpha 63" "\<not> isalpha 91" "\<not> isalpha 92"
  by (simp_all add: isalpha_iff)

lemmas wm_fold_special [simp] = wm_special_not_alpha [THEN wm_fold_other]

lemma wm_fold_slash [simp]: "wm_fold flags 47 = 47"
  using wm_fold_special by blast

lemma glob_special [simp]: "is_glob_special 42" "is_glob_special 63" "is_glob_special 91" "is_glob_special 92"
  by (simp_all add: is_glob_special_def sane_istest_def sane_ctype_def Let_def GIT_GLOB_SPECIAL_def)

section \<open>The matcher decides the meaning\<close>

lemma matches_Star: "matches (Star f # toks) t \<longleftrightarrow> (\<exists>u v. t = u @ v \<and> list_all f u \<and> matches toks v)"
proof -
  have "(\<exists>n \<le> length t. P (take n t) (drop n t)) \<longleftrightarrow> (\<exists>u v. t = u @ v \<and> P u v)" for P :: "bytes \<Rightarrow> bytes \<Rightarrow> bool"
    by (metis append_eq_conv_conj append_take_drop_id le_add1 length_append)
  then show ?thesis by simp
qed

lemma matches_Dirs: "matches (Dirs # toks) t \<longleftrightarrow> matches toks t \<or> (\<exists>u v. t = u @ 47 # v \<and> matches toks v)"
proof -
  have "(\<exists>n < length t. t ! n = 47 \<and> P (drop (Suc n) t)) \<longleftrightarrow> (\<exists>u v. t = u @ 47 # v \<and> P v)" for P :: "bytes \<Rightarrow> bool"
  proof
    assume "\<exists>n < length t. t ! n = 47 \<and> P (drop (Suc n) t)"
    then show "\<exists>u v. t = u @ 47 # v \<and> P v" by (metis id_take_nth_drop)
  next
    assume "\<exists>u v. t = u @ 47 # v \<and> P v"
    then obtain u v where "t = u @ 47 # v" "P v" by blast
    then show "\<exists>n < length t. t ! n = 47 \<and> P (drop (Suc n) t)" by (intro exI [of _ "length u"]) simp
  qed
  then show ?thesis by simp
qed

lemmas matches_rules = matches_Star matches_Dirs

text \<open>
  What each result promises.  \<open>S\<close> tells the later starts for which \<open>WM_ABORT_ALL\<close> speaks, by the text they
  skip.
\<close>

definition wm_ok :: "u32 \<Rightarrow> (bytes \<Rightarrow> bool) \<Rightarrow> token list \<Rightarrow> bytes \<Rightarrow> wm_result \<Rightarrow> bool" where
  "wm_ok flags S toks t r \<longleftrightarrow>
     (case r of
        WM_MATCH \<Rightarrow> matches toks t
      | WM_NOMATCH \<Rightarrow> \<not> matches toks t
      | WM_ABORT_ALL \<Rightarrow> (\<forall>u s. t = u @ s \<and> S u \<longrightarrow> \<not> matches toks s)
      | WM_ABORT_TO_STARSTAR \<Rightarrow>
          wm_has flags WM_PATHNAME \<and> (\<forall>u s. t = u @ s \<and> 47 \<notin> set u \<longrightarrow> \<not> matches toks s))"

definition start_ok :: "byte option \<Rightarrow> bytes \<Rightarrow> bytes \<Rightarrow> bool" where
  "start_ok prev p u \<longleftrightarrow> u = [] \<or> (p \<noteq> [] \<longrightarrow> hd p \<noteq> 42) \<or> prev \<noteq> None \<and> (prev = Some 47 \<longrightarrow> last u = 47)"

definition dowild_ok :: "u32 \<Rightarrow> byte option \<Rightarrow> bytes \<Rightarrow> bytes \<Rightarrow> wm_result \<Rightarrow> bool" where
  "dowild_ok flags prev p = wm_ok flags (start_ok prev p) (tokens flags prev p)"

lemma wm_ok_match: "wm_ok flags S toks t r \<Longrightarrow> S [] \<Longrightarrow> r = WM_MATCH \<longleftrightarrow> matches toks t"
  by (cases r) (auto simp: wm_ok_def dest: spec [of _ "[]"])

lemma tokens_prev: "p \<noteq> [] \<Longrightarrow> hd p \<noteq> 42 \<Longrightarrow> tokens flags prev p = tokens flags prev' p"
  by (cases p) auto

lemma tokens_None: "tokens flags None p = tokens flags (Some 47) p"
  by (cases p) (simp_all add: wm_dirs_def)

lemma tokens_nonempty: "p \<noteq> [] \<Longrightarrow> hd p \<noteq> 42 \<Longrightarrow> \<not> matches (tokens flags prev p) []"
  by (cases p) (auto split: list.split option.split)

lemma tokens_literal:
  "p \<noteq> [] \<Longrightarrow> \<not> is_glob_special (hd p) \<Longrightarrow>
    tokens flags prev p = One (\<lambda>t. wm_fold flags t = wm_fold flags (hd p)) # tokens flags (Some (hd p)) (tl p)"
  by (cases p) auto

lemma One_ok:
  assumes f: "f t" "c = 47 \<Longrightarrow> (\<forall>d. f d \<longrightarrow> d = 47)" "wm_has flags WM_PATHNAME \<Longrightarrow> f 47 \<Longrightarrow> (\<forall>d. f d \<longrightarrow> d = 47)"
    and ok: "dowild_ok flags (Some c) p ts r"
  shows "wm_ok flags S (One f # tokens flags (Some c) p) (t # ts) r"
proof (cases r)
  case WM_ABORT_ALL
  have "\<not> matches (One f # tokens flags (Some c) p) s" if us: "t # ts = u @ s" for u s
  proof
    assume "matches (One f # tokens flags (Some c) p) s"
    then obtain d s' where s: "s = d # s'" "f d" "matches (tokens flags (Some c) p) s'" by (cases s) auto
    obtain u' where "ts = u' @ s'" "u' \<noteq> [] \<longrightarrow> last u' = d"
    proof (cases u)
      case Nil
      with us s that [of "[]"] show ?thesis by simp
    next
      case (Cons a u1)
      with us s that [of "u1 @ [d]"] show ?thesis by simp
    qed
    with s ok f(2) WM_ABORT_ALL show False by (auto simp: dowild_ok_def wm_ok_def start_ok_def)
  qed
  then show ?thesis using WM_ABORT_ALL by (auto simp: wm_ok_def)
next
  case WM_ABORT_TO_STARSTAR
  then have ats: "wm_has flags WM_PATHNAME" "\<And>u s. ts = u @ s \<Longrightarrow> 47 \<notin> set u \<Longrightarrow> \<not> matches (tokens flags (Some c) p) s"
    using ok by (auto simp: dowild_ok_def wm_ok_def)
  have "\<not> matches (One f # tokens flags (Some c) p) s" if us: "t # ts = u @ s" "47 \<notin> set u" for u s
  proof
    assume "matches (One f # tokens flags (Some c) p) s"
    then obtain d s' where s: "s = d # s'" "f d" "matches (tokens flags (Some c) p) s'" by (cases s) auto
    show False
    proof (cases u)
      case Nil
      with us s ats(2) [of "[]"] show False by simp
    next
      case (Cons a u1)
      then have "d \<noteq> 47" using f us s f(3) [OF ats(1)] by auto
      with Cons us s ats(2) [of "u1 @ [d]" s'] show False by simp
    qed
  qed
  then show ?thesis using WM_ABORT_TO_STARSTAR ats(1) by (auto simp: wm_ok_def)
qed (use ok f in \<open>auto simp: wm_ok_def dowild_ok_def\<close>)

text \<open>The same for the loop behind a star, over the tokens behind the star.\<close>

definition star_ok :: "bool \<Rightarrow> token list \<Rightarrow> bytes \<Rightarrow> wm_result \<Rightarrow> bool" where
  "star_ok match_slash toks t r \<longleftrightarrow>
     (case r of
        WM_MATCH \<Rightarrow> (\<exists>u v. t = u @ v \<and> (match_slash \<or> 47 \<notin> set u) \<and> matches toks v)
      | WM_NOMATCH \<Rightarrow> False
      | WM_ABORT_ALL \<Rightarrow> (\<forall>u s. t = u @ s \<longrightarrow> \<not> matches toks s)
      | WM_ABORT_TO_STARSTAR \<Rightarrow> \<not> match_slash \<and> (\<forall>u s. t = u @ s \<and> 47 \<notin> set u \<longrightarrow> \<not> matches toks s))"

lemma star_ok_skip:
  assumes "star_ok match_slash toks t r" and "match_slash \<or> 47 \<notin> set w"
    and skip: "\<And>u s. w @ t = u @ s \<Longrightarrow> matches toks s \<Longrightarrow> length w \<le> length u"
  shows "star_ok match_slash toks (w @ t) r"
proof -
  have behind: "\<exists>u'. u = w @ u' \<and> t = u' @ s" if "w @ t = u @ s" "matches toks s" for u s
    using skip [OF that] that(1) by (auto simp: append_eq_append_conv2)
  show ?thesis
  proof (cases r)
    case WM_MATCH
    then obtain u v where "t = u @ v" "match_slash \<or> 47 \<notin> set u" "matches toks v"
      using assms(1) by (auto simp: star_ok_def)
    then have "w @ t = (w @ u) @ v \<and> (match_slash \<or> 47 \<notin> set (w @ u)) \<and> matches toks v" using assms(2) by auto
    then show ?thesis using WM_MATCH by (auto simp only: star_ok_def wm_result.case)
  next
    case WM_ABORT_ALL
    then have "\<And>u s. t = u @ s \<Longrightarrow> \<not> matches toks s" using assms(1) by (simp add: star_ok_def)
    then have "\<not> matches toks s" if "w @ t = u @ s" for u s using behind [OF that] by blast
    then show ?thesis using WM_ABORT_ALL by (simp add: star_ok_def)
  next
    case WM_ABORT_TO_STARSTAR
    then have no: "\<not> match_slash" "\<And>u s. t = u @ s \<Longrightarrow> 47 \<notin> set u \<Longrightarrow> \<not> matches toks s"
      using assms(1) by (simp_all add: star_ok_def)
    have "\<not> matches toks s" if "w @ t = u @ s" "47 \<notin> set u" for u s
    proof
      assume "matches toks s"
      from behind [OF that(1) this] obtain u' where "u = w @ u'" "t = u' @ s" by blast
      with no(2) [of u' s] that(2) \<open>matches toks s\<close> show False by simp
    qed
    then show ?thesis using WM_ABORT_TO_STARSTAR no(1) by (simp add: star_ok_def)
  qed (use assms(1) in \<open>simp add: star_ok_def\<close>)
qed

lemma star_skip_split:
  assumes "toks = One (\<lambda>t. wm_fold flags t = p_ch) # toks'"
  obtains w where "t = w @ star_skip flags match_slash p_ch t" "match_slash \<or> 47 \<notin> set w"
    "\<And>u s. t = u @ s \<Longrightarrow> matches toks s \<Longrightarrow> length w \<le> length u"
proof
  let ?f = "\<lambda>t_ch. (match_slash \<or> t_ch \<noteq> 47) \<and> wm_fold flags t_ch \<noteq> p_ch"
  show "t = takeWhile ?f t @ star_skip flags match_slash p_ch t" by (simp add: star_skip_def)
  show "match_slash \<or> 47 \<notin> set (takeWhile ?f t)" by (auto dest: set_takeWhileD)
  show "length (takeWhile ?f t) \<le> length u" if "t = u @ s" "matches toks s" for u s
  proof (rule ccontr)
    assume "\<not> length (takeWhile ?f t) \<le> length u"
    then have less: "length u < length (takeWhile ?f t)" by simp
    have "s \<noteq> []" using that(2) assms by auto
    then have "t ! length u = hd s" unfolding that(1) by (simp add: nth_append hd_conv_nth)
    with nth_mem [OF less] takeWhile_nth [OF less] have "hd s \<in> set (takeWhile ?f t)" by simp
    from set_takeWhileD [OF this] show False using that(2) by (simp add: assms)
  qed
qed

lemma slash_first: "hd (u @ s) = (47 :: byte) \<Longrightarrow> 47 \<notin> set u \<Longrightarrow> u = []"
  by (cases u) auto

lemma star_loop_unfold:
  assumes "p_ch = wm_fold flags (hd p)"
    and "t' = (if \<not> is_glob_special (hd p) then star_skip flags match_slash p_ch t else t)" and "t \<noteq> []"
  shows "star_loop rec flags match_slash p t =
    (if \<not> is_glob_special (hd p) \<and> (t' = [] \<or> wm_fold flags (hd t') \<noteq> p_ch) then
       (if match_slash then WM_ABORT_ALL else WM_ABORT_TO_STARSTAR)
     else if rec t' \<noteq> WM_NOMATCH \<and> (\<not> match_slash \<or> rec t' \<noteq> WM_ABORT_TO_STARSTAR) then rec t'
     else if rec t' = WM_NOMATCH \<and> \<not> match_slash \<and> hd t' = 47 then WM_ABORT_TO_STARSTAR
     else star_loop rec flags match_slash p (tl t'))"
  unfolding star_loop.simps [of rec flags match_slash p t] Let_def assms(1,2) [symmetric]
  by (rule if_not_P) (rule assms(3))

lemma star_loop_ok:
  assumes rec: "\<And>t. dowild_ok flags None p t (rec t)" and p: "p \<noteq> []" "hd p \<noteq> 42"
  shows "star_ok match_slash (tokens flags None p) t (star_loop rec flags match_slash p t)"
proof (induction t rule: length_induct)
  case (1 t)
  let ?toks = "tokens flags None p"
  have S: "start_ok None p u" for u using p by (simp add: start_ok_def)
  show ?case
  proof (cases "t = []")
    case True
    then show ?thesis using tokens_nonempty [OF p] by (simp add: star_loop.simps [of rec _ _ _ "[]"] star_ok_def)
  next
    case False
    define p_ch where "p_ch = wm_fold flags (hd p)"
    define t' where "t' = (if \<not> is_glob_special (hd p) then star_skip flags match_slash p_ch t else t)"
    note unf = star_loop_unfold [OF p_ch_def t'_def False, of rec]
    obtain w where w: "t = w @ t'" "match_slash \<or> 47 \<notin> set w"
      "\<And>u s. t = u @ s \<Longrightarrow> matches ?toks s \<Longrightarrow> length w \<le> length u"
    proof (cases "is_glob_special (hd p)")
      case True
      with that [of "[]"] show ?thesis by (simp add: t'_def)
    next
      case False
      show ?thesis
        by (rule star_skip_split [where t = t and match_slash = match_slash, OF tokens_literal [OF p(1) False]])
          (use that False in \<open>auto simp: t'_def p_ch_def\<close>)
    qed
    have "star_ok match_slash ?toks t' (star_loop rec flags match_slash p t)"
    proof (cases "\<not> is_glob_special (hd p) \<and> (t' = [] \<or> wm_fold flags (hd t') \<noteq> p_ch)")
      case True
      then have r: "star_loop rec flags match_slash p t = (if match_slash then WM_ABORT_ALL else WM_ABORT_TO_STARSTAR)"
        unfolding unf by (rule if_P)
      have "\<not> (match_slash \<or> hd t' \<noteq> 47)" if "t' \<noteq> []"
        using that True hd_dropWhile [of "\<lambda>t_ch. (match_slash \<or> t_ch \<noteq> 47) \<and> wm_fold flags t_ch \<noteq> p_ch" t]
        by (auto simp: t'_def star_skip_def)
      then have "t' = [] \<or> \<not> match_slash \<and> hd t' = 47" by blast
      moreover have "\<not> matches ?toks t'" using True p tokens_literal [OF p(1)] by (auto simp: p_ch_def)
      ultimately show ?thesis unfolding r star_ok_def by (auto dest: slash_first)
    next
      case go: False
      define r where "r = rec t'"
      have t': "t' \<noteq> []" using go False by (auto simp: t'_def)
      have r: "wm_ok flags (start_ok None p) ?toks t' r" using rec [of t'] by (simp add: dowild_ok_def r_def)
      have "length (tl t') < length t" using w(1) t' by (cases t') auto
      then have IH: "star_ok match_slash ?toks (tl t') (star_loop rec flags match_slash p (tl t'))" using 1 by blast
      have eq: "star_loop rec flags match_slash p t =
        (if r \<noteq> WM_NOMATCH \<and> (\<not> match_slash \<or> r \<noteq> WM_ABORT_TO_STARSTAR) then r
         else if r = WM_NOMATCH \<and> \<not> match_slash \<and> hd t' = 47 then WM_ABORT_TO_STARSTAR
         else star_loop rec flags match_slash p (tl t'))"
        using go unfolding unf r_def by (rule if_not_P)
      consider "r \<noteq> WM_NOMATCH \<and> (\<not> match_slash \<or> r \<noteq> WM_ABORT_TO_STARSTAR)"
        | "r = WM_NOMATCH \<and> \<not> match_slash \<and> hd t' = 47"
        | "(r = WM_NOMATCH \<or> r = WM_ABORT_TO_STARSTAR) \<and> (match_slash \<or> r = WM_NOMATCH \<and> hd t' \<noteq> 47)"
        by blast
      then show ?thesis
      proof cases
        case 1
        then have "star_loop rec flags match_slash p t = r" unfolding eq by (rule if_P)
        then show ?thesis using 1 r S by (cases r) (auto simp: star_ok_def wm_ok_def intro: exI [of _ "[]"])
      next
        case 2
        then have "star_loop rec flags match_slash p t = WM_ABORT_TO_STARSTAR" unfolding eq by simp
        then show ?thesis using 2 r by (auto simp: star_ok_def wm_ok_def dest: slash_first)
      next
        case 3
        then have no: "\<not> matches ?toks t'" using wm_ok_match [OF r] S by auto
        have "star_ok match_slash ?toks ([hd t'] @ tl t') (star_loop rec flags match_slash p (tl t'))"
        proof (rule star_ok_skip [OF IH])
          show "length [hd t'] \<le> length u" if "[hd t'] @ tl t' = u @ s" "matches ?toks s" for u s
            using that no t' by (cases u) auto
        qed (use 3 in auto)
        moreover have "star_loop rec flags match_slash p t = star_loop rec flags match_slash p (tl t')"
          unfolding eq by (rule trans [OF if_not_P if_not_P]) (use 3 in blast)+
        ultimately show ?thesis using t' by simp
      qed
    qed
    from star_ok_skip [OF this w(2) w(3)] show ?thesis by (simp only: w(1) [symmetric])
  qed
qed

lemma list_all_star: "list_all (\<lambda>t. match_slash \<or> t \<noteq> 47) u \<longleftrightarrow> match_slash \<or> 47 \<notin> set u"
  by (induction u) auto

lemma Star_ok:
  assumes "star_ok match_slash toks t r" and "match_slash \<or> wm_has flags WM_PATHNAME"
  shows "wm_ok flags S (Star (\<lambda>t. match_slash \<or> t \<noteq> 47) # toks) t r"
proof (cases r)
  case WM_ABORT_ALL
  then have "\<And>u s. t = (u @ s) \<Longrightarrow> \<not> matches toks s" using assms(1) by (simp add: star_ok_def)
  then have "\<not> matches toks v" if "t = u @ u' @ v" for u u' v using that [folded append_assoc] by blast
  then show ?thesis using WM_ABORT_ALL by (auto simp: wm_ok_def matches_Star simp del: matches.simps)
next
  case WM_ABORT_TO_STARSTAR
  then have no: "\<not> match_slash" "\<And>u s. t = u @ s \<Longrightarrow> 47 \<notin> set u \<Longrightarrow> \<not> matches toks s"
    using assms(1) by (simp_all add: star_ok_def)
  have "\<not> matches toks v" if "t = u @ u' @ v" "47 \<notin> set u" "47 \<notin> set u'" for u u' v
    using no(2) [of "u @ u'" v] that by simp
  then show ?thesis using WM_ABORT_TO_STARSTAR no(1) assms(2)
    by (auto simp: wm_ok_def matches_Star list_all_iff simp del: matches.simps)
qed (use assms in \<open>auto simp: star_ok_def wm_ok_def matches_Star list_all_star simp del: matches.simps\<close>)

lemma matches_Star_slash:
  "matches (Star (\<lambda>t. t \<noteq> 47) # One (\<lambda>t. t = 47) # toks) t \<longleftrightarrow>
    (\<exists>w v. t = w @ 47 # v \<and> 47 \<notin> set w \<and> matches toks v)"
proof -
  have "matches (One (\<lambda>t. t = 47) # toks) v \<longleftrightarrow> (\<exists>v'. v = 47 # v' \<and> matches toks v')" for v
    by (cases v) auto
  then show ?thesis unfolding matches_Star by (auto simp: list_all_iff)
qed

lemma first_slash_unique:
  "w @ 47 # v = w' @ 47 # v' \<Longrightarrow> 47 \<notin> set w \<Longrightarrow> 47 \<notin> set w' \<Longrightarrow> v = (v' :: bytes)"
proof (induction w arbitrary: w')
  case (Cons a w)
  then show ?case by (cases w') auto
qed (auto simp: Cons_eq_append_conv)

lemma later_slash:
  "w @ 47 # t = u @ 47 # (v :: bytes) \<Longrightarrow> 47 \<notin> set w \<Longrightarrow> \<exists>u'. t = u' @ v \<and> (u' = [] \<or> last u' = 47)"
proof (induction w arbitrary: u)
  case Nil
  then show ?case
  proof (cases u)
    case (Cons a x)
    with Nil show ?thesis by (intro exI [of _ "x @ [47]"]) simp
  qed simp
next
  case (Cons a w)
  then show ?case by (cases u) auto
qed

lemma star_slash_ok:
  assumes cont: "dowild_ok flags (Some 47) p t (cont t)" and w: "47 \<notin> set w"
  shows "wm_ok flags S (Star (\<lambda>t. t \<noteq> 47) # One (\<lambda>t. t = 47) # tokens flags (Some 47) p) (w @ 47 # t) (cont t)"
proof (cases "cont t")
  case WM_ABORT_ALL
  have "\<not> matches (tokens flags (Some 47) p) v" if "w @ 47 # t = u @ w' @ 47 # v" for u w' v
    using later_slash [of w t "u @ w'" v] that w cont WM_ABORT_ALL by (auto simp: dowild_ok_def wm_ok_def start_ok_def)
  then show ?thesis using WM_ABORT_ALL by (auto simp: wm_ok_def matches_Star_slash simp del: matches.simps)
next
  case WM_ABORT_TO_STARSTAR
  then have no: "\<not> matches (tokens flags (Some 47) p) t" "wm_has flags WM_PATHNAME"
    using cont by (auto simp: dowild_ok_def wm_ok_def dest: spec [of _ "[]"])
  have "\<not> matches (tokens flags (Some 47) p) v" if "w @ 47 # t = u @ w' @ 47 # v" "47 \<notin> set u" "47 \<notin> set w'" for u w' v
    using first_slash_unique [of w t "u @ w'" v] that w no by auto
  then show ?thesis using WM_ABORT_TO_STARSTAR no(2) by (auto simp: wm_ok_def matches_Star_slash simp del: matches.simps)
next
  case WM_NOMATCH
  then show ?thesis using cont w first_slash_unique [of w t]
    by (auto simp: wm_ok_def dowild_ok_def matches_Star_slash simp del: matches.simps)
qed (use cont w in \<open>auto simp: wm_ok_def dowild_ok_def matches_Star_slash simp del: matches.simps\<close>)

lemma wm_star_ok:
  assumes rec: "\<And>t. dowild_ok flags None p t (rec t)" and cont: "\<And>t. dowild_ok flags (Some 47) (tl p) t (cont t)"
    and p: "p \<noteq> [] \<Longrightarrow> hd p \<noteq> 42" and slash: "match_slash \<or> wm_has flags WM_PATHNAME"
  shows "wm_ok flags S (Star (\<lambda>t. match_slash \<or> t \<noteq> 47) # tokens flags (Some 42) p) t (wm_star rec cont flags match_slash p t)"
proof -
  consider "p = []" | "p \<noteq> []" "\<not> match_slash" "hd p = 47" | "p \<noteq> []" "match_slash \<or> hd p \<noteq> 47" by blast
  then show ?thesis
  proof cases
    case 1
    then show ?thesis using slash
      by (auto simp: wm_star_def wm_ok_def matches_Star list_all_star list_all_iff simp del: matches.simps(2))
  next
    case 2
    then have toks: "tokens flags (Some 42) p = One (\<lambda>t. t = 47) # tokens flags (Some 47) (tl p)" by (cases p) auto
    show ?thesis
    proof (cases "47 \<in> set t")
      case True
      then obtain w t' where t: "t = w @ 47 # t'" "47 \<notin> set w" by (meson split_list_first)
      have "dropWhile (\<lambda>c. c \<noteq> 47) t = 47 # t'" unfolding t(1) using t(2) by (induction w) auto
      then show ?thesis using 2 star_slash_ok [where S = S and cont = cont, OF cont t(2)] t(1) toks by (simp add: wm_star_def)
    next
      case False
      then have "dropWhile (\<lambda>c. c \<noteq> 47) t = []" by (auto simp: dropWhile_eq_Nil_conv)
      with 2 have "wm_star rec cont flags match_slash p t = WM_ABORT_ALL" unfolding wm_star_def by (simp del: dropWhile_eq_Nil_conv)
      then show ?thesis using 2 False toks
        by (auto simp: wm_ok_def matches_Star_slash simp del: matches.simps)
    qed
  next
    case 3
    from star_loop_ok [OF rec 3(1) p [OF 3(1)]] have "star_ok match_slash (tokens flags (Some 42) p) t (star_loop rec flags match_slash p t)"
      using tokens_prev [OF 3(1) p [OF 3(1)]] by metis
    with 3 show ?thesis using Star_ok slash by (auto simp: wm_star_def)
  qed
qed

lemma wm_bracket_items:
  "wm_bracket flags (wm_fold flags t) p =
     map_option (\<lambda>(negated, items, p). (bracket_has flags negated items t, p)) (bracket_items p)"
  by (auto simp: wm_bracket_def bracket_items_def bracket_has_def Let_def class_loop_items option.map_comp
    intro!: option.map_cong)

lemma fail_ok: "\<not> matches toks t \<Longrightarrow> wm_ok flags S toks t WM_NOMATCH"
  by (simp add: wm_ok_def)

lemma Dirs_ok:
  assumes rec: "\<And>t. dowild_ok flags None (47 # q) t (rec t)" and skip: "\<not> matches (tokens flags (Some 47) q) t"
    and prev: "prev = None \<or> prev = Some 47"
  shows "wm_ok flags (start_ok prev (42 # p)) (Dirs # tokens flags (Some 47) q) t (wm_star rec cont flags True (47 # q) t)"
proof -
  let ?toks = "tokens flags (Some 47) q" and ?r = "star_loop rec flags True (47 # q) t"
  have slash: "tokens flags None (47 # q) = One (\<lambda>t. t = 47) # ?toks" by simp
  have ok: "star_ok True (One (\<lambda>t. t = 47) # ?toks) t ?r" using star_loop_ok [OF rec, of True t] slash by simp
  show ?thesis
  proof (cases ?r)
    case WM_MATCH
    then obtain u v where "t = u @ v" "matches (One (\<lambda>t. t = 47) # ?toks) v"
      using ok unfolding star_ok_def by auto
    then obtain v' where "t = u @ 47 # v'" "matches ?toks v'" by (cases v) auto
    then show ?thesis using WM_MATCH by (auto simp: wm_star_def wm_ok_def matches_Dirs simp del: matches.simps)
  next
    case WM_ABORT_ALL
    then have no: "\<And>u v. t = u @ 47 # v \<Longrightarrow> \<not> matches ?toks v" using ok by (fastforce simp: star_ok_def)
    have "\<not> matches (Dirs # ?toks) s" if us: "t = u @ s" "start_ok prev (42 # p) u" for u s
    proof -
      have "\<not> matches ?toks s"
      proof (cases "u = []")
        case False
        then have "last u = 47" using us(2) prev by (auto simp: start_ok_def)
        with False have "u = butlast u @ [47]" using append_butlast_last_id [of u] by simp
        with us(1) no [of "butlast u" s] show ?thesis by (metis append.assoc append_Cons append_Nil)
      qed (use us skip in simp)
      moreover have "\<not> matches ?toks v" if "s = u' @ 47 # v" for u' v using no [of "u @ u'" v] us(1) that by simp
      ultimately show ?thesis by (auto simp: matches_Dirs simp del: matches.simps)
    qed
    then show ?thesis using WM_ABORT_ALL by (auto simp: wm_star_def wm_ok_def simp del: matches.simps)
  qed (use ok in \<open>simp_all add: star_ok_def\<close>)
qed

lemma slash_ok_star: "slash_ok flags = (\<lambda>t. \<not> wm_has flags WM_PATHNAME \<or> t \<noteq> 47)"
  by (auto simp: slash_ok_def)

text \<open>The main loop at a star, and at any other character.\<close>

lemma dowild_star_ok:
  assumes IH: "\<And>prev q t. length q \<le> length p \<Longrightarrow> dowild_ok flags prev q t (dowild_loop flags prev q t)"
  shows "dowild_ok flags prev (42 # p) t (dowild_loop flags prev (42 # p) t)"
proof -
  define q where "q = dropWhile (\<lambda>c. c = 42) p"
  have q: "length q \<le> length p" "length (tl q) \<le> length p" "q \<noteq> [] \<Longrightarrow> hd q \<noteq> 42"
    using length_dropWhile_le [of "\<lambda>c. c = 42" p] hd_dropWhile [of "\<lambda>c. c = 42" p] by (auto simp: q_def)
  let ?star = "\<lambda>match_slash. wm_star (dowild_loop flags None q) (dowild_loop flags (Some 47) (tl q)) flags match_slash q t"
  have star: "wm_ok flags S (Star (\<lambda>t. match_slash \<or> t \<noteq> 47) # tokens flags (Some 42) q) t (?star match_slash)"
    if "match_slash \<or> wm_has flags WM_PATHNAME" for S match_slash
    by (rule wm_star_ok [OF IH IH q(3) that]) (use q in auto)
  show ?thesis
  proof (cases "wm_has flags WM_PATHNAME \<and> p \<noteq> [] \<and> hd p = 42 \<and> wm_dirs flags prev q")
    case True
    have loop: "dowild_loop flags prev (42 # p) t =
      (if q \<noteq> [] \<and> hd q = 47 \<and> dowild_loop flags None (tl q) t = WM_MATCH then WM_MATCH else ?star True)"
      using True by (simp add: Let_def q_def [symmetric])
    show ?thesis
    proof (cases "q \<noteq> [] \<and> hd q = 47")
      case slash: True
      then have toks: "tokens flags prev (42 # p) = Dirs # tokens flags (Some 47) (tl q)"
        using True by (simp add: Let_def q_def [symmetric])
      have "dowild_loop flags None (tl q) t = WM_MATCH \<longleftrightarrow> matches (tokens flags (Some 47) (tl q)) t"
        using wm_ok_match [OF IH [OF q(2), of None t, unfolded dowild_ok_def]] by (simp add: start_ok_def tokens_None)
      moreover have "wm_ok flags (start_ok prev (42 # p)) (Dirs # tokens flags (Some 47) (tl q)) t (?star True)"
        if "\<not> matches (tokens flags (Some 47) (tl q)) t"
        using Dirs_ok [OF _ that, of "dowild_loop flags None q" prev p "dowild_loop flags (Some 47) (tl q)"]
          IH [OF q(1)] slash True by (cases q) (auto simp: wm_dirs_def)
      ultimately show ?thesis using slash unfolding dowild_ok_def toks loop
        by (auto simp: wm_ok_def matches_Dirs simp del: matches.simps)
    next
      case False
      then have toks: "tokens flags prev (42 # p) = Star (\<lambda>t. True) # tokens flags (Some 42) q"
        using True by (auto simp: Let_def q_def [symmetric])
      show ?thesis using False star [of True] unfolding dowild_ok_def toks loop by (auto simp del: matches.simps)
    qed
  next
    case False
    have "p \<noteq> [] \<and> hd p = 42 \<or> q = p" by (cases p) (auto simp: q_def)
    then have "dowild_loop flags prev (42 # p) t = ?star (\<not> wm_has flags WM_PATHNAME)"
      using False by (auto simp: Let_def q_def [symmetric])
    moreover have "tokens flags prev (42 # p) = Star (slash_ok flags) # tokens flags (Some 42) q"
      using False by (auto simp: Let_def q_def [symmetric])
    ultimately show ?thesis using star [of "\<not> wm_has flags WM_PATHNAME"] unfolding dowild_ok_def slash_ok_star by simp
  qed
qed

lemma dowild_char_ok:
  assumes IH: "\<And>prev q t. length q \<le> length p \<Longrightarrow> dowild_ok flags prev q t (dowild_loop flags prev q t)" and "c \<noteq> 42"
  shows "dowild_ok flags prev (c # p) (t # ts) (dowild_loop flags prev (c # p) (t # ts))"
proof -
  have lit: "wm_ok flags S (One (\<lambda>t. wm_fold flags t = d) # tokens flags (Some e) q) (t # ts)
      (if wm_fold flags t \<noteq> d then WM_NOMATCH else dowild_loop flags (Some e) q ts)"
    if "length q \<le> length p" "e = 47 \<Longrightarrow> d = 47" for S d e q
    using One_ok [OF _ _ _ IH [OF that(1)], of "\<lambda>t. wm_fold flags t = d" t e] that(2) by (auto intro: fail_ok)
  consider "c = 92" | "c = 63" | "c = 91" | "c \<noteq> 92" "c \<noteq> 63" "c \<noteq> 91" by blast
  then show ?thesis
  proof cases
    case 1
    show ?thesis
    proof (cases p)
      case Nil
      with 1 show ?thesis by (simp add: dowild_ok_def wm_ok_def)
    next
      case (Cons d q)
      with 1 show ?thesis using lit [of q d d "start_ok prev (c # p)"] by (simp add: dowild_ok_def split: if_splits)
    qed
  next
    case 2
    then show ?thesis using One_ok [OF _ _ _ IH [OF order_refl], of "slash_ok flags" t 63]
      by (auto simp: dowild_ok_def slash_ok_def intro: fail_ok)
  next
    case 3
    show ?thesis
    proof (cases "bracket_items p")
      case None
      with 3 show ?thesis by (simp add: dowild_ok_def wm_bracket_items wm_ok_def)
    next
      case (Some r)
      obtain negated items q where r: "r = (negated, items, q)" by (metis prod_cases3)
      with Some have "length q \<le> length p" using bracket_items_shorter [of p] by fastforce
      from One_ok [OF _ _ _ IH [OF this], of "bracket_has flags negated items" t 93] 3 Some r show ?thesis
        by (auto simp: dowild_ok_def wm_bracket_items bracket_has_def intro: fail_ok)
    qed
  next
    case 4
    then show ?thesis using lit [of p c "wm_fold flags c"] assms(2) by (auto simp: dowild_ok_def)
  qed
qed

lemma dowild_loop_ok: "dowild_ok flags prev p t (dowild_loop flags prev p t)"
proof (induction "length p" arbitrary: p prev t rule: less_induct)
  case less
  show ?case
  proof (cases p)
    case Nil
    then show ?thesis by (simp add: dowild_ok_def wm_ok_def)
  next
    case (Cons c q)
    then have IH: "dowild_ok flags prev q' t (dowild_loop flags prev q' t)" if "length q' \<le> length q" for prev q' t
      using less [of q'] that by simp
    consider "c = 42" | "t = []" "c \<noteq> 42" | t0 t1 where "t = t0 # t1" "c \<noteq> 42" by (cases t) auto
    then show ?thesis
    proof cases
      case 2
      then show ?thesis using tokens_nonempty [of p flags prev] Cons by (simp add: dowild_ok_def wm_ok_def del: tokens.simps)
    qed (use dowild_star_ok dowild_char_ok IH Cons in auto)
  qed
qed

text \<open>
  C6: The matcher of shell patterns.  For every pattern, text and combination of flags, \<open>wildmatch\<close>
  finds a match exactly if the text has the form that the pattern describes: the two results that
  abandon the search early, the jump to the next slash and the skipping to a literal lose no match.
\<close>

theorem wildmatch_correct: "wildmatch pattern t flags = WM_MATCH \<longleftrightarrow> matches (tokens flags None pattern) t"
  using wm_ok_match [OF dowild_loop_ok [of flags None pattern t, unfolded dowild_ok_def]]
  by (simp add: wildmatch_def dowild_def Let_def start_ok_def)

lemma wm_fold_not_upper:
  assumes "wm_has flags WM_CASEFOLD" and "ISUPPER c"
  shows "wm_fold flags t \<noteq> c"
proof
  assume "wm_fold flags t = c"
  with assms have t: "ISUPPER t" "c = tolower t" by (auto simp: wm_fold_def split: if_splits)
  then have "bit c 5" by (simp add: tolower_def sane_case_def ISUPPER_def isupper_def sane_iscase_def bit_simps split: if_splits)
  moreover have "bit (0x20 :: byte) 5" by (simp add: bit_iff_odd)
  ultimately have "bit (c AND 0x20) 5" by (simp add: bit_and_iff)
  then have "c AND 0x20 \<noteq> 0" by auto
  with assms(2) show False by (auto simp: ISUPPER_def isupper_def sane_iscase_def split: if_splits)
qed

lemma ISUPPER_letters: "ISUPPER c \<Longrightarrow> unat c \<in> set [65..<91]"
proof -
  assume up: "ISUPPER c"
  have "\<forall>n \<in> set [97..<123]. (of_nat n :: byte) AND 0x20 \<noteq> 0" by code_simp
  moreover have "(of_nat (unat c) :: byte) AND 0x20 = 0" using up
    by (auto simp: ISUPPER_def isupper_def sane_iscase_def split: if_splits)
  ultimately have "unat c \<notin> set [97..<123]" by blast
  moreover have "isalpha c" using up by (auto simp: ISUPPER_def isupper_def sane_iscase_def isalpha_def split: if_splits)
  ultimately show ?thesis by (auto simp add: isalpha_iff simp del: upt_rec_numeral)
qed

lemma toupper_tolower: "ISUPPER c \<Longrightarrow> ISLOWER (tolower c) \<and> toupper (tolower c) = c"
proof -
  assume up: "ISUPPER c"
  then have alpha: "sane_istest c GIT_ALPHA" by (auto simp: ISUPPER_def isupper_def sane_iscase_def split: if_splits)
  let ?low = "\<lambda>c :: byte. (c AND NOT 0x20) OR 0x20"
  have "\<forall>n \<in> set [65..<91]. ?low (of_nat n) AND NOT 0x7f = 0 \<and> ?low (of_nat n) AND 0x20 \<noteq> 0 \<and>
    (?low (of_nat n) AND NOT 0x20) OR 0 = of_nat n" by code_simp
  from bspec [OF this ISUPPER_letters [OF up]]
  have low: "?low c AND NOT 0x7f = 0" "?low c AND 0x20 \<noteq> 0" "(?low c AND NOT 0x20) OR 0 = c" by simp_all
  have "tolower c = ?low c" using alpha by (simp add: tolower_def sane_case_def)
  moreover have "sane_istest (?low c) GIT_ALPHA"
    using isalpha_tolower [of c] alpha calculation by (simp add: isalpha_def)
  ultimately show ?thesis using low
    by (simp only: ISLOWER_def isascii_def islower_def sane_iscase_def toupper_def sane_case_def if_True if_False not_True_eq_False simp_thms)
qed

text \<open>
  C37: Capital letters under \<open>WM_CASEFOLD\<close>.  The matcher turns the letters of the text to lower case
  but neither an escaped letter of the pattern nor a letter in brackets: such a pattern for one
  capital letter matches no text at all, not even that letter, although it matches it without
  \<open>WM_CASEFOLD\<close> and although the same letter matches as a range.
\<close>

theorem casefold_capital_in_brackets:
  assumes "wm_has flags WM_CASEFOLD" and "ISUPPER c"
  shows "wildmatch [91, c, 93] t flags = WM_NOMATCH \<and> wildmatch [92, c] t flags = WM_NOMATCH \<and>
    wildmatch [91, c, 93] [c] 0 = WM_MATCH \<and> wildmatch [92, c] [c] 0 = WM_MATCH \<and>
    wildmatch [91, c, 45, c, 93] [c] flags = WM_MATCH"
proof -
  have alpha: "isalpha c" using assms(2) by (auto simp: ISUPPER_def isupper_def sane_iscase_def isalpha_def split: if_splits)
  then have c: "c \<notin> {0, 33, 45, 91, 92, 93, 94}" by (auto simp: isalpha_iff)
  have single: "wm_bracket fl t0 [c, 93] = Some (t0 = c \<and> \<not> (wm_has fl WM_PATHNAME \<and> t0 = 47), [])" for fl t0
    using c by (simp add: wm_bracket_def class_loop.simps [of fl t0 0 False])
  have range: "wm_bracket flags (wm_fold flags c) [c, 45, c, 93] = Some (True, [])"
  proof -
    have fold: "wm_fold flags c = tolower c" using assms by (simp add: wm_fold_def)
    have "in_range flags c c (tolower c)" using assms toupper_tolower [OF assms(2)] by (simp add: in_range_def)
    moreover have "tolower c \<noteq> 47" using isalpha_tolower [OF alpha] wm_special_not_alpha by auto
    ultimately show ?thesis using c unfolding fold
      by (simp add: wm_bracket_def class_loop.simps [of flags _ 0 False] class_loop.simps [of flags _ c] split: list.split)
  qed
  have "wildmatch [91, c, 93] t flags = WM_NOMATCH" "wildmatch [92, c] t flags = WM_NOMATCH"
    using wm_fold_not_upper [OF assms] by (cases t; simp add: wildmatch_def dowild_def single)+
  moreover have "wm_fold 0 c = c" by (simp add: wm_fold_def wm_has_def)
  ultimately show ?thesis using c range
    by (simp add: wildmatch_def dowild_def single wm_has_def)
qed

theorem casefold_capital_in_brackets_witness:
  "wildmatch [91, 65, 93] [65] WM_CASEFOLD = WM_NOMATCH \<and> wildmatch [92, 65] [65] WM_CASEFOLD = WM_NOMATCH \<and>
    wildmatch [91, 65, 93] [65] 0 = WM_MATCH \<and> wildmatch [92, 65] [65] 0 = WM_MATCH \<and>
    wildmatch [91, 65, 45, 65, 93] [65] WM_CASEFOLD = WM_MATCH"
  by (rule casefold_capital_in_brackets)
    (simp_all add: wm_has_def WM_CASEFOLD_def ISUPPER_def isascii_def isupper_def sane_iscase_def sane_istest_def
      sane_ctype_def Let_def GIT_ALPHA_def)

end
