(* ===== verification/Ewah_Words.thy ===== *)
theory Ewah_Words
  imports Git_Prelude
begin

text \<open>
  \<open>ewah/ewok_rlw.h\<close>: the marker words of a compressed bitmap.  A marker holds the bit of a run in bit
  0, the length of the run in bits 1 to 32 and the number of literal words that follow in bits 33
  to 63.  The theory shows that the three fields are independent, and gives a buffer of markers
  and literal words its meaning, the list of words it stands for.
\<close>

section \<open>Marker words\<close>

definition BITS_IN_EWORD :: nat where "BITS_IN_EWORD = 64"

definition RLW_RUNNING_BITS :: nat where "RLW_RUNNING_BITS = 32"
definition RLW_LITERAL_BITS :: nat where "RLW_LITERAL_BITS = BITS_IN_EWORD - 1 - RLW_RUNNING_BITS"

definition RLW_LARGEST_RUNNING_COUNT :: u64 where "RLW_LARGEST_RUNNING_COUNT = push_bit RLW_RUNNING_BITS 1 - 1"
definition RLW_LARGEST_LITERAL_COUNT :: u64 where "RLW_LARGEST_LITERAL_COUNT = push_bit RLW_LITERAL_BITS 1 - 1"
definition RLW_LARGEST_RUNNING_COUNT_SHIFT :: u64 where
  "RLW_LARGEST_RUNNING_COUNT_SHIFT = push_bit 1 RLW_LARGEST_RUNNING_COUNT"
definition RLW_RUNNING_LEN_PLUS_BIT :: u64 where "RLW_RUNNING_LEN_PLUS_BIT = push_bit (RLW_RUNNING_BITS + 1) 1 - 1"

definition rlw_get_run_bit :: "u64 \<Rightarrow> bool" where
  "rlw_get_run_bit word \<longleftrightarrow> word AND 1 \<noteq> 0"

definition rlw_set_run_bit :: "u64 \<Rightarrow> bool \<Rightarrow> u64" where
  "rlw_set_run_bit word b = (if b then word OR 1 else word AND NOT 1)"

definition rlw_xor_run_bit :: "u64 \<Rightarrow> u64" where
  "rlw_xor_run_bit word = (if word AND 1 \<noteq> 0 then word AND NOT 1 else word OR 1)"

definition rlw_set_running_len :: "u64 \<Rightarrow> u64 \<Rightarrow> u64" where
  "rlw_set_running_len word l =
     (let word = word OR RLW_LARGEST_RUNNING_COUNT_SHIFT in
      word AND (push_bit 1 l OR NOT RLW_LARGEST_RUNNING_COUNT_SHIFT))"

definition rlw_get_running_len :: "u64 \<Rightarrow> u64" where
  "rlw_get_running_len word = drop_bit 1 word AND RLW_LARGEST_RUNNING_COUNT"

definition rlw_get_literal_words :: "u64 \<Rightarrow> u64" where
  "rlw_get_literal_words word = drop_bit (1 + RLW_RUNNING_BITS) word"

definition rlw_set_literal_words :: "u64 \<Rightarrow> u64 \<Rightarrow> u64" where
  "rlw_set_literal_words word l =
     (let word = word OR NOT RLW_RUNNING_LEN_PLUS_BIT in
      word AND (push_bit (RLW_RUNNING_BITS + 1) l OR RLW_RUNNING_LEN_PLUS_BIT))"

definition rlw_size :: "u64 \<Rightarrow> u64" where
  "rlw_size self = rlw_get_running_len self + rlw_get_literal_words self"

lemma rlw_masks:
  "RLW_LARGEST_RUNNING_COUNT = mask 32" "RLW_LARGEST_LITERAL_COUNT = mask 31"
  "RLW_LARGEST_RUNNING_COUNT_SHIFT = push_bit 1 (mask 32)" "RLW_RUNNING_LEN_PLUS_BIT = mask 33"
  by (simp_all add: RLW_LARGEST_RUNNING_COUNT_def RLW_LARGEST_LITERAL_COUNT_def RLW_LITERAL_BITS_def BITS_IN_EWORD_def
    RLW_LARGEST_RUNNING_COUNT_SHIFT_def RLW_RUNNING_LEN_PLUS_BIT_def RLW_RUNNING_BITS_def mask_eq_exp_minus_1)

lemma rlw_run_bit_iff: "rlw_get_run_bit w \<longleftrightarrow> bit w 0"
  by (simp add: rlw_get_run_bit_def and_one_eq bit_0 odd_iff_mod_2_eq_one)

lemma bit_rlw_set_run_bit: "bit (rlw_set_run_bit w b) n \<longleftrightarrow> (if n = 0 then b else bit w n)"
  by (auto simp: rlw_set_run_bit_def bit_simps bit_1_iff dest: bit_imp_le_length)

lemma bit_rlw_set_running_len:
  "bit (rlw_set_running_len w l) n \<longleftrightarrow> (if 1 \<le> n \<and> n \<le> 32 then bit l (n - 1) else bit w n)"
  unfolding rlw_set_running_len_def Let_def rlw_masks bit_and_iff bit_or_iff bit_not_iff bit_push_bit_iff bit_mask_iff
  by (auto dest: bit_imp_le_length)

lemma bit_rlw_set_literal_words:
  "bit (rlw_set_literal_words w l) n \<longleftrightarrow> (if 33 \<le> n \<and> n < 64 then bit l (n - 33) else bit w n)"
  by (auto simp: rlw_set_literal_words_def Let_def rlw_masks(4) RLW_RUNNING_BITS_def bit_simps dest: bit_imp_le_length)

text \<open>The three fields as a Boolean and two numbers.\<close>

definition rlw_run :: "u64 \<Rightarrow> nat" where "rlw_run w = unat (rlw_get_running_len w)"
definition rlw_lit :: "u64 \<Rightarrow> nat" where "rlw_lit w = unat (rlw_get_literal_words w)"

lemma rlw_run_less: "rlw_run w < 2 ^ 32"
  unfolding rlw_run_def rlw_get_running_len_def rlw_masks take_bit_eq_mask [symmetric] unsigned_take_bit_eq
  by (rule take_bit_nat_less_exp)

lemma rlw_lit_less: "rlw_lit w < 2 ^ 31"
proof -
  have "rlw_lit w = unat w div 2 ^ 33"
    unfolding rlw_lit_def rlw_get_literal_words_def RLW_RUNNING_BITS_def unat_drop_bit by simp
  moreover have "unat w < 2 ^ 64" using unsigned_less [of w] by simp
  ultimately show ?thesis by (simp add: div_less_iff_less_mult)
qed

lemma take_bit_small: "unat (l :: u64) < 2 ^ k \<Longrightarrow> take_bit k l = l"
  by (rule unsigned_word_eqI [where ?'a = nat]) (simp add: unsigned_take_bit_eq take_bit_nat_eq_self)

lemma rlw_set_running_len [simp]:
  "unat l < 2 ^ 32 \<Longrightarrow> rlw_run (rlw_set_running_len w l) = unat l"
  "rlw_lit (rlw_set_running_len w l) = rlw_lit w"
  "rlw_get_run_bit (rlw_set_running_len w l) = rlw_get_run_bit w"
proof -
  have "rlw_get_running_len (rlw_set_running_len w l) = take_bit 32 l"
    unfolding rlw_get_running_len_def rlw_masks
    by (rule bit_eqI) (auto simp: bit_simps bit_rlw_set_running_len)
  then show "unat l < 2 ^ 32 \<Longrightarrow> rlw_run (rlw_set_running_len w l) = unat l" by (simp add: rlw_run_def take_bit_small)
  have "rlw_get_literal_words (rlw_set_running_len w l) = rlw_get_literal_words w"
    unfolding rlw_get_literal_words_def RLW_RUNNING_BITS_def
    by (rule bit_eqI) (auto simp: bit_simps bit_rlw_set_running_len)
  then show "rlw_lit (rlw_set_running_len w l) = rlw_lit w" by (simp add: rlw_lit_def)
qed (simp add: rlw_run_bit_iff bit_rlw_set_running_len)

lemma rlw_set_literal_words [simp]:
  "unat l < 2 ^ 31 \<Longrightarrow> rlw_lit (rlw_set_literal_words w l) = unat l"
  "rlw_run (rlw_set_literal_words w l) = rlw_run w"
  "rlw_get_run_bit (rlw_set_literal_words w l) = rlw_get_run_bit w"
proof -
  have "rlw_get_literal_words (rlw_set_literal_words w l) = take_bit 31 l"
    unfolding rlw_get_literal_words_def RLW_RUNNING_BITS_def
    by (rule bit_eqI) (auto simp: bit_simps bit_rlw_set_literal_words dest: bit_imp_le_length)
  then show "unat l < 2 ^ 31 \<Longrightarrow> rlw_lit (rlw_set_literal_words w l) = unat l" by (simp add: rlw_lit_def take_bit_small)
  have "rlw_get_running_len (rlw_set_literal_words w l) = rlw_get_running_len w"
    unfolding rlw_get_running_len_def rlw_masks
    by (rule bit_eqI) (auto simp: bit_simps bit_rlw_set_literal_words)
  then show "rlw_run (rlw_set_literal_words w l) = rlw_run w" by (simp add: rlw_run_def)
qed (simp add: rlw_run_bit_iff bit_rlw_set_literal_words)

lemma rlw_set_run_bit [simp]:
  "rlw_run (rlw_set_run_bit w b) = rlw_run w"
  "rlw_lit (rlw_set_run_bit w b) = rlw_lit w"
  "rlw_get_run_bit (rlw_set_run_bit w b) = b"
proof -
  have "rlw_get_running_len (rlw_set_run_bit w b) = rlw_get_running_len w"
    unfolding rlw_get_running_len_def by (rule bit_eqI) (auto simp: bit_simps bit_rlw_set_run_bit)
  then show "rlw_run (rlw_set_run_bit w b) = rlw_run w" by (simp add: rlw_run_def)
  have "rlw_get_literal_words (rlw_set_run_bit w b) = rlw_get_literal_words w"
    unfolding rlw_get_literal_words_def RLW_RUNNING_BITS_def by (rule bit_eqI) (auto simp: bit_simps bit_rlw_set_run_bit)
  then show "rlw_lit (rlw_set_run_bit w b) = rlw_lit w" by (simp add: rlw_lit_def)
qed (simp add: rlw_run_bit_iff bit_rlw_set_run_bit)

lemma rlw_zero [simp]: "rlw_run 0 = 0" "rlw_lit 0 = 0" "\<not> rlw_get_run_bit 0"
  by (simp_all add: rlw_run_def rlw_lit_def rlw_get_running_len_def rlw_get_literal_words_def rlw_get_run_bit_def)

lemma rlw_size_eq: "unat (rlw_size w) = rlw_run w + rlw_lit w"
proof -
  have "rlw_run w + rlw_lit w < 2 ^ 64" using rlw_run_less [of w] rlw_lit_less [of w] by simp
  then show ?thesis by (simp add: rlw_size_def unat_word_ariths rlw_run_def rlw_lit_def)
qed

lemma rlw_largest [simp]: "unat RLW_LARGEST_RUNNING_COUNT = 2 ^ 32 - 1" "unat RLW_LARGEST_LITERAL_COUNT = 2 ^ 31 - 1"
  by (simp_all add: rlw_masks mask_eq_exp_minus_1)

section \<open>The words of a buffer\<close>

definition fill :: "bool \<Rightarrow> u64" where "fill b = (if b then NOT 0 else 0)"

function ewah_decode :: "u64 list \<Rightarrow> u64 list" where
  "ewah_decode [] = []"
| "ewah_decode (w # ws) =
     replicate (rlw_run w) (fill (rlw_get_run_bit w)) @ take (rlw_lit w) ws @ ewah_decode (drop (rlw_lit w) ws)"
  by pat_completeness auto
termination by (relation "measure length") auto

text \<open>A buffer is complete if no marker promises more literal words than follow; no marker may be empty.\<close>

function ewah_complete :: "u64 list \<Rightarrow> bool" where
  "ewah_complete [] = True"
| "ewah_complete (w # ws) \<longleftrightarrow>
     rlw_run w + rlw_lit w > 0 \<and> rlw_lit w \<le> length ws \<and> ewah_complete (drop (rlw_lit w) ws)"
  by pat_completeness auto
termination by (relation "measure length") auto

lemma ewah_complete_append: "ewah_complete xs \<Longrightarrow> ewah_complete (xs @ ys) \<longleftrightarrow> ewah_complete ys"
  by (induction xs rule: ewah_complete.induct) auto

lemma ewah_decode_append: "ewah_complete xs \<Longrightarrow> ewah_decode (xs @ ys) = ewah_decode xs @ ewah_decode ys"
  by (induction xs rule: ewah_complete.induct) auto

lemma ewah_decode_segment:
  "rlw_lit w = length ls \<Longrightarrow> ewah_decode (w # ls) = replicate (rlw_run w) (fill (rlw_get_run_bit w)) @ ls"
  by simp

end
