(* ===== verification/Ewah_Bitmap.thy ===== *)
theory Ewah_Bitmap
  imports Ewah_Words
begin

text \<open>
  \<open>ewah/ewah_bitmap.c\<close>: building a compressed bitmap word by word and bit by bit.  The buffer is the
  list of its \<open>buffer_size\<close> words, and \<open>rlw\<close> the index of the last marker; the capacity of the buffer
  is not modelled.  Sizes are natural numbers, except that \<open>ewah_set\<close>, whose argument can be any \<open>size_t\<close>,
  computes with 64-bit words.  The lemmas show what each operation appends to the words
  of the bitmap, and that it keeps the buffer well formed.
\<close>

record ewah_bitmap =
  buffer :: "u64 list"
  bit_size :: nat
  rlw :: nat

section \<open>The operations\<close>

definition rlw_word :: "ewah_bitmap \<Rightarrow> u64" where
  "rlw_word self = buffer self ! rlw self"

definition upd_rlw :: "(u64 \<Rightarrow> u64) \<Rightarrow> ewah_bitmap \<Rightarrow> ewah_bitmap" where
  "upd_rlw f self = self\<lparr>buffer := (buffer self)[rlw self := f (rlw_word self)]\<rparr>"

definition buffer_push :: "ewah_bitmap \<Rightarrow> u64 \<Rightarrow> ewah_bitmap" where
  "buffer_push self val = self\<lparr>buffer := buffer self @ [val]\<rparr>"

definition buffer_push_rlw :: "ewah_bitmap \<Rightarrow> u64 \<Rightarrow> ewah_bitmap" where
  "buffer_push_rlw self val = (let self = buffer_push self val in self\<lparr>rlw := length (buffer self) - 1\<rparr>)"

definition push_run :: "ewah_bitmap \<Rightarrow> bool \<Rightarrow> nat \<Rightarrow> ewah_bitmap" where
  "push_run self v number =
     (let self = buffer_push_rlw self 0;
          self = (if v then upd_rlw (\<lambda>w. rlw_set_run_bit w v) self else self) in
      upd_rlw (\<lambda>w. rlw_set_running_len w (of_nat number)) self)"

function empty_words_loop :: "ewah_bitmap \<Rightarrow> bool \<Rightarrow> nat \<Rightarrow> nat \<Rightarrow> ewah_bitmap \<times> nat" where
  "empty_words_loop self v number added =
     (if unat RLW_LARGEST_RUNNING_COUNT \<le> number then
        empty_words_loop (push_run self v (unat RLW_LARGEST_RUNNING_COUNT)) v (number - unat RLW_LARGEST_RUNNING_COUNT) (added + 1)
      else if number > 0 then (push_run self v number, added + 1)
      else (self, added))"
  by pat_completeness auto
termination by (relation "measure (\<lambda>(self, v, number, added). number)") auto

declare empty_words_loop.simps [simp del]

definition add_empty_words :: "ewah_bitmap \<Rightarrow> bool \<Rightarrow> nat \<Rightarrow> ewah_bitmap \<times> nat" where
  "add_empty_words self v number =
     (let (self, added) =
        (if rlw_get_run_bit (rlw_word self) \<noteq> v \<and> rlw_size (rlw_word self) = 0 then
           (upd_rlw (\<lambda>w. rlw_set_run_bit w v) self, 0)
         else if rlw_get_literal_words (rlw_word self) \<noteq> 0 \<or> rlw_get_run_bit (rlw_word self) \<noteq> v then
           (let self = buffer_push_rlw self 0 in
            (if v then upd_rlw (\<lambda>w. rlw_set_run_bit w v) self else self, 1))
         else (self, 0));
      runlen = rlw_get_running_len (rlw_word self);
      can_add = min number (unat (RLW_LARGEST_RUNNING_COUNT - runlen));
      self = upd_rlw (\<lambda>w. rlw_set_running_len w (runlen + of_nat can_add)) self in
      empty_words_loop self v (number - can_add) added)"

definition ewah_add_empty_words :: "ewah_bitmap \<Rightarrow> bool \<Rightarrow> nat \<Rightarrow> ewah_bitmap \<times> nat" where
  "ewah_add_empty_words self v number =
     (if number = 0 then (self, 0)
      else add_empty_words (self\<lparr>bit_size := bit_size self + number * BITS_IN_EWORD\<rparr>) v number)"

definition add_literal :: "ewah_bitmap \<Rightarrow> u64 \<Rightarrow> ewah_bitmap \<times> nat" where
  "add_literal self new_data =
     (let current_num = rlw_get_literal_words (rlw_word self) in
      if current_num \<ge> RLW_LARGEST_LITERAL_COUNT then
        (let self = buffer_push_rlw self 0;
             self = upd_rlw (\<lambda>w. rlw_set_literal_words w 1) self in
         (buffer_push self new_data, 2))
      else
        (let self = upd_rlw (\<lambda>w. rlw_set_literal_words w (current_num + 1)) self in
         (buffer_push self new_data, 1)))"

function ewah_add_dirty_words :: "ewah_bitmap \<Rightarrow> u64 list \<Rightarrow> bool \<Rightarrow> ewah_bitmap" where
  "ewah_add_dirty_words self ws negate =
     (let literals = rlw_get_literal_words (rlw_word self);
          can_add = min (length ws) (unat (RLW_LARGEST_LITERAL_COUNT - literals));
          self = upd_rlw (\<lambda>w. rlw_set_literal_words w (literals + of_nat can_add)) self;
          self = self\<lparr>buffer := buffer self @ (if negate then map (\<lambda>w. NOT w) (take can_add ws) else take can_add ws),
            bit_size := bit_size self + can_add * BITS_IN_EWORD\<rparr> in
      if length ws - can_add = 0 then self
      else ewah_add_dirty_words (buffer_push_rlw self 0) (drop can_add ws) negate)"
  by pat_completeness auto
termination
proof (relation "measures [\<lambda>(self, ws, negate). length ws, \<lambda>(self, ws, negate). rlw_lit (rlw_word self)]", goal_cases)
  case (2 self ws negate literals can_add self1 self2)
  have "rlw_word (buffer_push_rlw self2 0) = 0" by (simp add: rlw_word_def buffer_push_rlw_def buffer_push_def Let_def)
  moreover have "can_add > 0 \<or> rlw_lit (rlw_word self) > 0"
  proof (rule ccontr)
    assume "\<not> (can_add > 0 \<or> rlw_lit (rlw_word self) > 0)"
    then have "can_add = 0" "literals = 0" using 2(1) by (simp_all add: rlw_lit_def unat_eq_0)
    with 2 show False by (auto simp: min_def split: if_splits)
  qed
  ultimately show ?case using 2 by auto
qed simp

declare ewah_add_dirty_words.simps [simp del]

definition add_empty_word :: "ewah_bitmap \<Rightarrow> bool \<Rightarrow> ewah_bitmap \<times> nat" where
  "add_empty_word self v =
     (let no_literal = (rlw_get_literal_words (rlw_word self) = 0);
          run_len = rlw_get_running_len (rlw_word self);
          self = (if no_literal \<and> run_len = 0 then upd_rlw (\<lambda>w. rlw_set_run_bit w v) self else self) in
      if no_literal \<and> rlw_get_run_bit (rlw_word self) = v \<and> run_len < RLW_LARGEST_RUNNING_COUNT then
        (upd_rlw (\<lambda>w. rlw_set_running_len w (run_len + 1)) self, 0)
      else
        (let self = buffer_push_rlw self 0;
             self = upd_rlw (\<lambda>w. rlw_set_run_bit w v) self in
         (upd_rlw (\<lambda>w. rlw_set_running_len w 1) self, 1)))"

definition ewah_add :: "ewah_bitmap \<Rightarrow> u64 \<Rightarrow> ewah_bitmap \<times> nat" where
  "ewah_add self word =
     (let self = self\<lparr>bit_size := bit_size self + BITS_IN_EWORD\<rparr> in
      if word = 0 then add_empty_word self False
      else if word = NOT 0 then add_empty_word self True
      else add_literal self word)"

text \<open>The macro \<open>DIV_ROUND_UP\<close> for \<open>size_t\<close>, where the sum wraps around, and for natural numbers.\<close>

definition size_round_up :: "u64 \<Rightarrow> u64 \<Rightarrow> u64" where
  "size_round_up n d = (n + d - 1) div d"

definition DIV_ROUND_UP :: "nat \<Rightarrow> nat \<Rightarrow> nat" where
  "DIV_ROUND_UP n d = (n + d - 1) div d"

definition EWAH_MASK :: "nat \<Rightarrow> u64" where
  "EWAH_MASK x = push_bit (x mod BITS_IN_EWORD) 1"

text \<open>Setting a bit of the last word.\<close>

definition ewah_set_last :: "ewah_bitmap \<Rightarrow> u64 \<Rightarrow> ewah_bitmap" where
  "ewah_set_last self m =
     (if rlw_get_literal_words (rlw_word self) = 0 then
        (let self = upd_rlw (\<lambda>w. rlw_set_running_len w (rlw_get_running_len w - 1)) self in
         fst (add_literal self m))
      else
        (let k = length (buffer self) - 1;
             self = self\<lparr>buffer := (buffer self)[k := buffer self ! k OR m]\<rparr> in
         if buffer self ! k = NOT 0 then
           (let self = self\<lparr>buffer := butlast (buffer self)\<rparr>;
                self = upd_rlw (\<lambda>w. rlw_set_literal_words w (rlw_get_literal_words w - 1)) self in
            fst (add_empty_word self True))
         else self))"

text \<open>The bit must not be below the size of the bitmap; this is an assertion of the code.\<close>

definition ewah_set :: "ewah_bitmap \<Rightarrow> nat \<Rightarrow> cfault + ewah_bitmap" where
  "ewah_set self i =
     (let n = of_nat i + 1 :: u64;
          dist = size_round_up n (of_nat BITS_IN_EWORD) - size_round_up (of_nat (bit_size self)) (of_nat BITS_IN_EWORD) in
      if i < bit_size self then Inl Bug
      else
        let self = self\<lparr>bit_size := unat n\<rparr> in
        if dist > 0 then
          (let self = (if dist > 1 then fst (add_empty_words self False (unat (dist - 1))) else self) in
           Inr (fst (add_literal self (EWAH_MASK i))))
        else Inr (ewah_set_last self (EWAH_MASK i)))"

definition ewah_clear :: "ewah_bitmap \<Rightarrow> ewah_bitmap" where
  "ewah_clear self = self\<lparr>buffer := [0], bit_size := 0, rlw := 0\<rparr>"

definition ewah_new :: ewah_bitmap where
  "ewah_new = \<lparr>buffer = [0], bit_size = 0, rlw = 0\<rparr>"

section \<open>What the operations append\<close>

text \<open>
  A bitmap in terms of its complete part, the last marker and the literal words behind it.
\<close>

definition seg :: "u64 list \<Rightarrow> u64 \<Rightarrow> u64 list \<Rightarrow> nat \<Rightarrow> ewah_bitmap" where
  "seg pre w ls b = \<lparr>buffer = pre @ w # ls, bit_size = b, rlw = length pre\<rparr>"

lemma seg_simps [simp]:
  "rlw_word (seg pre w ls b) = w"
  "upd_rlw f (seg pre w ls b) = seg pre (f w) ls b"
  "buffer_push (seg pre w ls b) x = seg pre w (ls @ [x]) b"
  "buffer_push_rlw (seg pre w ls b) x = seg (pre @ w # ls) x [] b"
  "buffer (seg pre w ls b) = pre @ w # ls" "bit_size (seg pre w ls b) = b" "rlw (seg pre w ls b) = length pre"
  "(seg pre w ls b)\<lparr>bit_size := b'\<rparr> = seg pre w ls b'"
  by (simp_all add: seg_def rlw_word_def upd_rlw_def buffer_push_def buffer_push_rlw_def)

definition ewah_words :: "ewah_bitmap \<Rightarrow> u64 list" where
  "ewah_words self = ewah_decode (buffer self)"

definition ewah_ok :: "ewah_bitmap \<Rightarrow> bool" where
  "ewah_ok self \<longleftrightarrow>
     rlw self < length (buffer self) \<and> ewah_complete (take (rlw self) (buffer self)) \<and>
     rlw_lit (rlw_word self) = length (buffer self) - Suc (rlw self)"

text \<open>The last marker is not empty.\<close>

definition ewah_busy :: "ewah_bitmap \<Rightarrow> bool" where
  "ewah_busy self \<longleftrightarrow> rlw_run (rlw_word self) + rlw_lit (rlw_word self) > 0"

lemma ewah_ok_seg [simp]: "ewah_ok (seg pre w ls b) \<longleftrightarrow> ewah_complete pre \<and> rlw_lit w = length ls"
  by (simp add: ewah_ok_def)

lemma ewah_busy_seg [simp]: "ewah_busy (seg pre w ls b) \<longleftrightarrow> rlw_run w + rlw_lit w > 0"
  by (simp add: ewah_busy_def)

lemma ewah_words_seg [simp]:
  "ewah_complete pre \<Longrightarrow> rlw_lit w = length ls \<Longrightarrow>
    ewah_words (seg pre w ls b) = ewah_decode pre @ replicate (rlw_run w) (fill (rlw_get_run_bit w)) @ ls"
  by (simp add: ewah_words_def ewah_decode_append)

lemma ewah_complete_seg [simp]:
  "ewah_complete pre \<Longrightarrow> rlw_lit w = length ls \<Longrightarrow> ewah_complete (pre @ w # ls) \<longleftrightarrow> rlw_run w + rlw_lit w > 0"
  by (simp add: ewah_complete_append)

lemma ewah_ok_cases:
  assumes "ewah_ok self"
  obtains pre w ls b where "self = seg pre w ls b" "ewah_complete pre" "rlw_lit w = length ls"
proof
  let ?pre = "take (rlw self) (buffer self)" and ?ls = "drop (Suc (rlw self)) (buffer self)"
  show "self = seg ?pre (rlw_word self) ?ls (bit_size self)"
    using assms by (simp add: seg_def ewah_ok_def rlw_word_def Cons_nth_drop_Suc)
qed (use assms in \<open>auto simp: ewah_ok_def\<close>)

text \<open>\<open>self'\<close> is \<open>self\<close> with some words appended.\<close>

definition appended :: "ewah_bitmap \<Rightarrow> u64 list \<Rightarrow> ewah_bitmap \<Rightarrow> bool" where
  "appended self ws self' \<longleftrightarrow>
     ewah_ok self' \<and> ewah_busy self' \<and> ewah_words self' = ewah_words self @ ws \<and> bit_size self' = bit_size self"

lemma appended_trans: "appended self ws self1 \<Longrightarrow> appended self1 ws' self2 \<Longrightarrow> appended self (ws @ ws') self2"
  by (simp add: appended_def)

lemma push_run_appended:
  assumes "ewah_ok self" "ewah_busy self" "0 < number" "number < 2 ^ 32"
  shows "appended self (replicate number (fill v)) (push_run self v number)"
  using assms(1)
proof (rule ewah_ok_cases)
  fix pre w ls b
  assume self: "self = seg pre w ls b" "ewah_complete pre" "rlw_lit w = length ls"
  have "unat (of_nat number :: u64) = number" using assms(4) by (simp add: unsigned_of_nat take_bit_nat_eq_self)
  then show ?thesis using self assms(2-4) by (simp add: appended_def push_run_def Let_def ewah_decode_append)
qed

lemma empty_words_loop_appended:
  assumes "ewah_ok self" "ewah_busy self"
  shows "appended self (replicate number (fill v)) (fst (empty_words_loop self v number added))"
  using assms
proof (induction self v number added rule: empty_words_loop.induct)
  case (1 self v number added)
  let ?L = "unat RLW_LARGEST_RUNNING_COUNT"
  show ?case
  proof (cases "?L \<le> number")
    case True
    have app: "appended self (replicate ?L (fill v)) (push_run self v ?L)"
      by (rule push_run_appended [OF 1(2,3)]) simp_all
    then have "appended (push_run self v ?L) (replicate (number - ?L) (fill v))
      (fst (empty_words_loop (push_run self v ?L) v (number - ?L) (added + 1)))"
      using 1(1) [OF True] by (simp add: appended_def)
    from appended_trans [OF app this] True show ?thesis
      by (simp add: empty_words_loop.simps [of self v number added] replicate_add [symmetric] del: rlw_largest)
  next
    case False
    then have "number < 2 ^ 32" by simp
    with False 1(2,3) push_run_appended [of self number v] show ?thesis
      by (auto simp: empty_words_loop.simps [of self v number added] appended_def simp del: rlw_largest)
  qed
qed

lemma unat_of_nat_less: "n < 2 ^ 64 \<Longrightarrow> unat (of_nat n :: u64) = n"
  by (simp add: unsigned_of_nat take_bit_nat_eq_self)

lemma run_plus:
  assumes "rlw_run w + n < 2 ^ 32"
  shows "unat (rlw_get_running_len w + of_nat n) = rlw_run w + n"
  using assms by (simp add: unat_word_ariths unat_of_nat_less rlw_run_def)

lemma lit_plus:
  assumes "rlw_lit w + n < 2 ^ 31"
  shows "unat (rlw_get_literal_words w + of_nat n) = rlw_lit w + n"
  using assms by (simp add: unat_word_ariths unat_of_nat_less rlw_lit_def)

lemma rlw_get_eq_0: "rlw_get_literal_words w = 0 \<longleftrightarrow> rlw_lit w = 0" "rlw_get_running_len w = 0 \<longleftrightarrow> rlw_run w = 0"
  "rlw_size w = 0 \<longleftrightarrow> rlw_run w + rlw_lit w = 0"
proof -
  show "rlw_size w = 0 \<longleftrightarrow> rlw_run w + rlw_lit w = 0" using rlw_size_eq [of w] by (metis unat_eq_0)
qed (simp_all add: rlw_lit_def rlw_run_def unat_eq_0)

lemma run_space: "unat (RLW_LARGEST_RUNNING_COUNT - rlw_get_running_len w) = 2 ^ 32 - 1 - rlw_run w"
proof -
  have "rlw_get_running_len w \<le> RLW_LARGEST_RUNNING_COUNT"
    using rlw_run_less [of w] by (simp add: word_le_nat_alt rlw_run_def)
  then show ?thesis by (simp add: unat_sub rlw_run_def)
qed

lemma lit_space: "unat (RLW_LARGEST_LITERAL_COUNT - rlw_get_literal_words w) = 2 ^ 31 - 1 - rlw_lit w"
proof -
  have "rlw_get_literal_words w \<le> RLW_LARGEST_LITERAL_COUNT"
    using rlw_lit_less [of w] by (simp add: word_le_nat_alt rlw_lit_def)
  then show ?thesis by (simp add: unat_sub rlw_lit_def)
qed

lemma add_empty_words_appended:
  assumes "ewah_ok self" "0 < number"
  shows "appended self (replicate number (fill v)) (fst (add_empty_words self v number))"
proof -
  obtain pre w ls b where self: "self = seg pre w ls b" "ewah_complete pre" "rlw_lit w = length ls"
    using assms(1) by (rule ewah_ok_cases)
  obtain self1 added where start:
    "(if rlw_get_run_bit (rlw_word self) \<noteq> v \<and> rlw_size (rlw_word self) = 0 then
        (upd_rlw (\<lambda>w. rlw_set_run_bit w v) self, 0)
      else if rlw_get_literal_words (rlw_word self) \<noteq> 0 \<or> rlw_get_run_bit (rlw_word self) \<noteq> v then
        (let self = buffer_push_rlw self 0 in
         (if v then upd_rlw (\<lambda>w. rlw_set_run_bit w v) self else self, 1))
      else (self, 0 :: nat)) = (self1, added)" by fastforce
  have same: "ewah_ok self1 \<and> rlw_lit (rlw_word self1) = 0 \<and> rlw_get_run_bit (rlw_word self1) = v \<and>
    ewah_words self1 = ewah_words self \<and> bit_size self1 = b"
    using start self by (auto simp: rlw_get_eq_0 Let_def ewah_decode_append split: if_splits)
  then obtain pre1 w1 where self1: "self1 = seg pre1 w1 [] b" "ewah_complete pre1" "rlw_lit w1 = 0" "rlw_get_run_bit w1 = v"
    by (auto elim!: ewah_ok_cases [of self1])
  with same have words: "ewah_words self = ewah_decode pre1 @ replicate (rlw_run w1) (fill v)" by simp
  define can_add where "can_add = min number (2 ^ 32 - 1 - rlw_run w1)"
  have can: "rlw_run w1 + can_add < 2 ^ 32" "can_add > 0 \<or> rlw_run w1 > 0" "can_add \<le> number"
    using rlw_run_less [of w1] assms(2) by (auto simp: can_add_def min_def)
  define self2 where "self2 = upd_rlw (\<lambda>w. rlw_set_running_len w (rlw_get_running_len w1 + of_nat can_add)) self1"
  have app: "appended self (replicate can_add (fill v)) self2"
    using can self(1) self1 words by (auto simp: appended_def self2_def run_plus replicate_add)
  then have "appended self2 (replicate (number - can_add) (fill v)) (fst (empty_words_loop self2 v (number - can_add) added))"
    by (intro empty_words_loop_appended) (auto simp: appended_def)
  from appended_trans [OF app this] can(3)
  have "appended self (replicate number (fill v)) (fst (empty_words_loop self2 v (number - can_add) added))"
    by (simp add: replicate_add [symmetric])
  moreover have "add_empty_words self v number = empty_words_loop self2 v (number - can_add) added"
    unfolding add_empty_words_def start using self1(1) by (simp add: Let_def self2_def can_add_def run_space)
  ultimately show ?thesis by simp
qed

lemma add_literal_appended:
  assumes "ewah_ok self"
  shows "appended self [x] (fst (add_literal self x))"
  using assms
proof (rule ewah_ok_cases)
  fix pre w ls b
  assume self: "self = seg pre w ls b" "ewah_complete pre" "rlw_lit w = length ls"
  have full: "rlw_get_literal_words w \<ge> RLW_LARGEST_LITERAL_COUNT \<longleftrightarrow> rlw_lit w \<ge> 2 ^ 31 - 1"
    by (simp add: word_le_nat_alt rlw_lit_def)
  show ?thesis
  proof (cases "rlw_lit w \<ge> 2 ^ 31 - 1")
    case True
    then have "ls \<noteq> []" using self(3) by auto
    with True self full show ?thesis by (simp add: add_literal_def Let_def appended_def ewah_decode_append)
  next
    case False
    then have "unat (rlw_get_literal_words w + 1) = Suc (rlw_lit w)" using lit_plus [of w 1] by simp
    with self full False show ?thesis by (simp add: add_literal_def Let_def appended_def)
  qed
qed

lemma add_empty_word_appended:
  assumes "ewah_ok self"
  shows "appended self [fill v] (fst (add_empty_word self v))"
  using assms
proof (rule ewah_ok_cases)
  fix pre w ls b
  assume self: "self = seg pre w ls b" "ewah_complete pre" "rlw_lit w = length ls"
  have full: "rlw_get_running_len w < RLW_LARGEST_RUNNING_COUNT \<longleftrightarrow> rlw_run w < 2 ^ 32 - 1"
    by (simp add: word_less_nat_alt rlw_run_def)
  have plus: "unat (rlw_get_running_len w + 1) = Suc (rlw_run w)" if "rlw_run w < 2 ^ 32 - 1"
    using run_plus [of w 1] that by simp
  show ?thesis
  proof (cases "ls = [] \<and> (rlw_run w = 0 \<or> rlw_get_run_bit w = v) \<and> rlw_run w < 2 ^ 32 - 1")
    case True
    with self full plus show ?thesis
      by (auto simp: add_empty_word_def Let_def appended_def rlw_get_eq_0 replicate_append_same)
  next
    case False
    with self full show ?thesis
      by (auto simp: add_empty_word_def Let_def appended_def rlw_get_eq_0 ewah_decode_append)
  qed
qed

lemma ewah_add_dirty_words_appended:
  assumes "ewah_ok self"
  shows "ewah_ok (ewah_add_dirty_words self ws negate) \<and>
    ewah_words (ewah_add_dirty_words self ws negate) = ewah_words self @ (if negate then map (\<lambda>w. NOT w) ws else ws) \<and>
    bit_size (ewah_add_dirty_words self ws negate) = bit_size self + length ws * BITS_IN_EWORD \<and>
    (ewah_busy self \<or> ws \<noteq> [] \<longrightarrow> ewah_busy (ewah_add_dirty_words self ws negate)) \<and>
    (\<not> ewah_busy self \<and> ws = [] \<longrightarrow> rlw (ewah_add_dirty_words self ws negate) = rlw self)"
  using assms
proof (induction self ws negate rule: ewah_add_dirty_words.induct)
  case (1 self ws negate)
  obtain pre w ls b where self: "self = seg pre w ls b" "ewah_complete pre" "rlw_lit w = length ls"
    using 1(2) by (rule ewah_ok_cases)
  define can_add where "can_add = min (length ws) (2 ^ 31 - 1 - rlw_lit w)"
  have can: "rlw_lit w + can_add < 2 ^ 31" "can_add \<le> length ws" "ws \<noteq> [] \<Longrightarrow> can_add > 0 \<or> ls \<noteq> []"
    using rlw_lit_less [of w] self(3) by (auto simp: can_add_def min_def)
  define neg where "neg = (if negate then map (\<lambda>w :: u64. NOT w) else (\<lambda>ws. ws))"
  define w' where "w' = rlw_set_literal_words w (rlw_get_literal_words w + of_nat can_add)"
  define self1 where "self1 = seg pre w' (ls @ neg (take can_add ws)) (b + can_add * BITS_IN_EWORD)"
  have len: "length (neg xs) = length xs" "neg (take n xs) @ neg (drop n xs) = neg xs" for n xs
    by (auto simp: neg_def map_append [symmetric] simp del: map_append)
  have w': "rlw_lit w' = length ls + can_add" "rlw_run w' = rlw_run w" "rlw_get_run_bit w' = rlw_get_run_bit w"
    using can(1) self(3) by (simp_all add: w'_def lit_plus)
  have self1: "ewah_ok self1" "ewah_words self1 = ewah_words self @ neg (take can_add ws)"
    "ewah_busy self \<or> ws \<noteq> [] \<Longrightarrow> ewah_busy self1"
    using self w' can len by (auto simp: self1_def)
  have dirty: "(upd_rlw (\<lambda>v. rlw_set_literal_words v (rlw_get_literal_words w + of_nat can_add)) (seg pre w ls b))
    \<lparr>buffer := buffer (upd_rlw (\<lambda>v. rlw_set_literal_words v (rlw_get_literal_words w + of_nat can_add)) (seg pre w ls b)) @
       (if negate then map (\<lambda>w. NOT w) (take can_add ws) else take can_add ws),
     bit_size := bit_size (upd_rlw (\<lambda>v. rlw_set_literal_words v (rlw_get_literal_words w + of_nat can_add)) (seg pre w ls b)) +
       can_add * BITS_IN_EWORD\<rparr> = self1"
    unfolding seg_simps self1_def w'_def neg_def by (simp add: seg_def)
  have eq: "ewah_add_dirty_words self ws negate =
    (if length ws - can_add = 0 then self1 else ewah_add_dirty_words (buffer_push_rlw self1 0) (drop can_add ws) negate)"
    unfolding ewah_add_dirty_words.simps [of self ws negate] unfolding Let_def self(1)
    unfolding seg_simps(1) lit_space can_add_def [symmetric] dirty by (rule refl)
  show ?case
  proof (cases "length ws - can_add = 0")
    case True
    then have "can_add = length ws" using can(2) by simp
    with self1 self show ?thesis unfolding eq by (auto simp: neg_def self1_def)
  next
    case False
    then have ws: "ws \<noteq> []" by auto
    let ?self2 = "buffer_push_rlw self1 0"
    have self2: "ewah_ok ?self2" "ewah_words ?self2 = ewah_words self1" "bit_size ?self2 = b + can_add * BITS_IN_EWORD"
      using self1 ws self w' by (auto simp: self1_def ewah_decode_append len)
    have IH: "ewah_ok (ewah_add_dirty_words ?self2 (drop can_add ws) negate) \<and>
      ewah_words (ewah_add_dirty_words ?self2 (drop can_add ws) negate) = ewah_words ?self2 @ neg (drop can_add ws) \<and>
      bit_size (ewah_add_dirty_words ?self2 (drop can_add ws) negate) = bit_size ?self2 + length (drop can_add ws) * BITS_IN_EWORD \<and>
      ewah_busy (ewah_add_dirty_words ?self2 (drop can_add ws) negate)"
      using 1(1) [OF refl refl refl refl, unfolded self(1), unfolded seg_simps(1) lit_space can_add_def [symmetric] dirty, OF False self2(1)] ws False
      by (auto simp: neg_def)
    have "b + can_add * BITS_IN_EWORD + length (drop can_add ws) * BITS_IN_EWORD = b + length ws * BITS_IN_EWORD"
      using can(2) by (simp add: add_mult_distrib [symmetric])
    with IH self2 self1(2) ws False self(1) len(2) [of can_add ws] show ?thesis unfolding eq
      by (auto simp: neg_def)
  qed
qed

lemma bit_size_update [simp]:
  "ewah_ok (self\<lparr>bit_size := b\<rparr>) = ewah_ok self" "ewah_busy (self\<lparr>bit_size := b\<rparr>) = ewah_busy self"
  "ewah_words (self\<lparr>bit_size := b\<rparr>) = ewah_words self"
  by (simp_all add: ewah_ok_def ewah_busy_def ewah_words_def rlw_word_def)

lemma ewah_add_appended:
  "ewah_ok self \<Longrightarrow> appended (self\<lparr>bit_size := bit_size self + BITS_IN_EWORD\<rparr>) [word] (fst (ewah_add self word))"
  using add_empty_word_appended [of "self\<lparr>bit_size := bit_size self + BITS_IN_EWORD\<rparr>" True]
    add_empty_word_appended [of "self\<lparr>bit_size := bit_size self + BITS_IN_EWORD\<rparr>" False]
    add_literal_appended [of "self\<lparr>bit_size := bit_size self + BITS_IN_EWORD\<rparr>" word]
  by (auto simp: ewah_add_def Let_def fill_def)

lemma ewah_add_empty_words_appended:
  "ewah_ok self \<Longrightarrow> 0 < number \<Longrightarrow>
    appended (self\<lparr>bit_size := bit_size self + number * BITS_IN_EWORD\<rparr>) (replicate number (fill v)) (fst (ewah_add_empty_words self v number))"
  by (simp add: ewah_add_empty_words_def add_empty_words_appended)

section \<open>Bits\<close>

definition word_bits :: "u64 list \<Rightarrow> nat set" where
  "word_bits ws = {p. p div BITS_IN_EWORD < length ws \<and> bit (ws ! (p div BITS_IN_EWORD)) (p mod BITS_IN_EWORD)}"

text \<open>
  The invariant of a bitmap: the buffer is well formed, only the marker of an empty bitmap is
  empty, and the words cover the size, with no bit beyond it.
\<close>

definition ewah_wf :: "ewah_bitmap \<Rightarrow> bool" where
  "ewah_wf self \<longleftrightarrow>
     ewah_ok self \<and> (ewah_busy self \<or> rlw self = 0) \<and>
     length (ewah_words self) = DIV_ROUND_UP (bit_size self) BITS_IN_EWORD \<and>
     (\<forall>p \<in> word_bits (ewah_words self). p < bit_size self)"

lemma word_bits_append:
  "word_bits (xs @ ys) = word_bits xs \<union> {length xs * BITS_IN_EWORD + p | p. p \<in> word_bits ys}"
proof -
  have "p \<in> word_bits (xs @ ys) \<longleftrightarrow> p \<in> word_bits xs \<or> length xs * BITS_IN_EWORD \<le> p \<and> p - length xs * BITS_IN_EWORD \<in> word_bits ys" for p
  proof (cases "p div BITS_IN_EWORD < length xs")
    case True
    then have "p < length xs * BITS_IN_EWORD" by (simp add: BITS_IN_EWORD_def div_less_iff_less_mult)
    with True show ?thesis by (simp add: word_bits_def nth_append)
  next
    case False
    then have "length xs * BITS_IN_EWORD \<le> p" by (simp add: BITS_IN_EWORD_def div_less_iff_less_mult)
    then obtain q where p: "p = length xs * BITS_IN_EWORD + q" using le_Suc_ex by blast
    then show ?thesis using False by (auto simp: word_bits_def nth_append BITS_IN_EWORD_def)
  qed
  then show ?thesis by (force simp: le_iff_add)
qed

lemma word_bits_zeros [simp]: "word_bits (replicate n 0) = {}"
  by (auto simp: word_bits_def)

lemma word_bits_Nil [simp]: "word_bits [] = {}"
  by (simp add: word_bits_def)

lemma word_bits_single: "word_bits [w] = {p. p < BITS_IN_EWORD \<and> bit w p}"
  by (auto simp: word_bits_def BITS_IN_EWORD_def div_eq_0_iff)

lemma word_bits_less: "p \<in> word_bits ws \<Longrightarrow> p < length ws * BITS_IN_EWORD"
  by (simp add: word_bits_def BITS_IN_EWORD_def div_less_iff_less_mult)

lemma bit_EWAH_MASK: "bit (EWAH_MASK i) p \<longleftrightarrow> p = i mod BITS_IN_EWORD"
  by (auto simp: EWAH_MASK_def BITS_IN_EWORD_def bit_simps bit_1_iff)

lemma DIV_ROUND_UP_Suc: "DIV_ROUND_UP (Suc i) BITS_IN_EWORD = Suc (i div BITS_IN_EWORD)"
  by (simp add: DIV_ROUND_UP_def BITS_IN_EWORD_def)

lemma DIV_ROUND_UP_le: "DIV_ROUND_UP n BITS_IN_EWORD \<le> k \<longleftrightarrow> n \<le> k * BITS_IN_EWORD"
  unfolding DIV_ROUND_UP_def BITS_IN_EWORD_def by linarith

lemma word_bits_set:
  assumes "length us = i div BITS_IN_EWORD"
  shows "word_bits (us @ [x OR EWAH_MASK i]) = insert i (word_bits (us @ [x]))"
proof -
  have "i mod BITS_IN_EWORD < BITS_IN_EWORD" by (simp add: BITS_IN_EWORD_def)
  then have "{length us * BITS_IN_EWORD + p | p. p < BITS_IN_EWORD \<and> bit (x OR EWAH_MASK i) p} =
    insert i {length us * BITS_IN_EWORD + p | p. p < BITS_IN_EWORD \<and> bit x p}"
    using assms by (auto simp: bit_or_iff bit_EWAH_MASK intro: exI [of _ "i mod BITS_IN_EWORD"])
  then show ?thesis by (simp add: word_bits_append word_bits_single)
qed

lemma ewah_wf_intro:
  assumes "ewah_ok self" "ewah_busy self" "ewah_words self = us @ [x OR EWAH_MASK i]"
    and "length us = i div BITS_IN_EWORD" "bit_size self = i + 1" "\<forall>p \<in> word_bits (us @ [x]). p < i"
  shows "ewah_wf self \<and> word_bits (ewah_words self) = insert i (word_bits (us @ [x]))"
  using assms by (auto simp: ewah_wf_def word_bits_set DIV_ROUND_UP_Suc dest: less_SucI)

lemma seg_last:
  "length (buffer (seg pre w (ls @ [y]) b)) - 1 = length (pre @ w # ls)"
  "buffer (seg pre w (ls @ [y]) b) ! length (pre @ w # ls) = y"
  "(seg pre w (ls @ [y]) b)\<lparr>buffer := (buffer (seg pre w (ls @ [y]) b))[length (pre @ w # ls) := z]\<rparr> = seg pre w (ls @ [z]) b"
  "(seg pre w (ls @ [y]) b)\<lparr>buffer := butlast (buffer (seg pre w (ls @ [y]) b))\<rparr> = seg pre w ls b"
  by (simp_all add: seg_def nth_append list_update_append butlast_append)

lemma ewah_set_last_words:
  assumes "ewah_ok self" "ewah_words self = us @ [x]" "ewah_busy self" and zero: "rlw_lit (rlw_word self) = 0 \<Longrightarrow> x = 0"
  shows "ewah_ok (ewah_set_last self m) \<and> ewah_busy (ewah_set_last self m) \<and>
    ewah_words (ewah_set_last self m) = us @ [x OR m] \<and> bit_size (ewah_set_last self m) = bit_size self"
proof -
  obtain pre w ls b where self: "self = seg pre w ls b" "ewah_complete pre" "rlw_lit w = length ls"
    using assms(1) by (rule ewah_ok_cases)
  have words: "ewah_decode pre @ replicate (rlw_run w) (fill (rlw_get_run_bit w)) @ ls = us @ [x]"
    using assms(2) self by simp
  show ?thesis
  proof (cases "ls = []")
    case True
    then obtain r where r: "rlw_run w = Suc r" using assms(3) self by (cases "rlw_run w") auto
    define w' where "w' = rlw_set_running_len w (rlw_get_running_len w - 1)"
    note r
    moreover have "rlw_get_running_len w \<noteq> 0" using r by (auto simp: rlw_run_def)
    ultimately have "unat (rlw_get_running_len w - 1) = r" using unat_minus_one [of "rlw_get_running_len w"] by (simp add: rlw_run_def)
    then have w': "rlw_run w' = r" "rlw_lit w' = 0" "rlw_get_run_bit w' = rlw_get_run_bit w"
      using r rlw_run_less [of w] True self(3) by (simp_all add: w'_def)
    have "us = ewah_decode pre @ replicate r (fill (rlw_get_run_bit w))"
      using words True r by (auto simp: replicate_append_same [symmetric])
    then have us: "ewah_words (seg pre w' [] b) = us" using w' self(2) by simp
    have "appended (seg pre w' [] b) [m] (fst (add_literal (seg pre w' [] b) m))"
      using w' self(2) by (intro add_literal_appended) simp
    moreover have "ewah_set_last self m = fst (add_literal (seg pre w' [] b) m)"
      using True self by (simp add: ewah_set_last_def rlw_get_eq_0 w'_def)
    moreover have "x = 0" using zero self True by simp
    ultimately show ?thesis using us self(1) by (simp add: appended_def)
  next
    case False
    then obtain ls' y where ls: "ls = ls' @ [y]" by (metis append_butlast_last_id)
    with words have xy: "x = y" "us = ewah_decode pre @ replicate (rlw_run w) (fill (rlw_get_run_bit w)) @ ls'" by auto
    show ?thesis
    proof (cases "y OR m = NOT 0")
      case True
      define w' where "w' = rlw_set_literal_words w (rlw_get_literal_words w - 1)"
      have "rlw_get_literal_words w \<noteq> 0" using self(3) ls by (auto simp: rlw_lit_def)
      then have "unat (rlw_get_literal_words w - 1) = length ls'"
        using self(3) ls unat_minus_one [of "rlw_get_literal_words w"] by (simp add: rlw_lit_def)
      then have w': "rlw_lit w' = length ls'" "rlw_run w' = rlw_run w" "rlw_get_run_bit w' = rlw_get_run_bit w"
        using rlw_lit_less [of w] self(3) ls by (simp_all add: w'_def)
      have "appended (seg pre w' ls' b) [fill True] (fst (add_empty_word (seg pre w' ls' b) True))"
        using w' self(2) by (intro add_empty_word_appended) simp
      moreover have "ewah_set_last self m = fst (add_empty_word (seg pre w' ls' b) True)"
        unfolding ewah_set_last_def Let_def self(1) ls seg_last using True self(3) ls by (simp add: rlw_get_eq_0 w'_def)
      ultimately show ?thesis using self(1,2) w' xy True by (simp add: appended_def fill_def)
    next
      case other: False
      have "ewah_set_last self m = seg pre w (ls' @ [y OR m]) b"
        unfolding ewah_set_last_def Let_def self(1) ls seg_last using other self(3) ls by (simp add: rlw_get_eq_0)
      then show ?thesis using self xy ls by simp
    qed
  qed
qed

text \<open>Below \<open>2^64 - 64\<close> nothing wraps around.\<close>

lemma size_round_up_nat:
  assumes "m \<le> 2 ^ 64 - 64"
  shows "size_round_up (of_nat m) (of_nat BITS_IN_EWORD) = of_nat (DIV_ROUND_UP m BITS_IN_EWORD)"
proof -
  have "of_nat m + of_nat BITS_IN_EWORD - 1 = (of_nat (m + 63) :: u64)" by (simp add: BITS_IN_EWORD_def)
  moreover have "unat (of_nat (m + 63) :: u64) = m + 63" using assms by (simp only: unat_of_nat) simp
  moreover have "(m + 63) div 64 < 2 ^ 64" by (rule le_less_trans [OF div_le_dividend]) (use assms in simp)
  ultimately show ?thesis
    unfolding size_round_up_def DIV_ROUND_UP_def
    by (simp add: word_unat_eq_iff unat_div unat_of_nat BITS_IN_EWORD_def del: of_nat_add)
qed

lemma ewah_set_nat:
  assumes "i < 2 ^ 64 - 64" and "bit_size self \<le> i"
  shows "ewah_set self i =
     (let dist = DIV_ROUND_UP (i + 1) BITS_IN_EWORD - DIV_ROUND_UP (bit_size self) BITS_IN_EWORD;
          self = self\<lparr>bit_size := i + 1\<rparr> in
      if dist > 0 then
        (let self = (if dist > 1 then fst (add_empty_words self False (dist - 1)) else self) in
         Inr (fst (add_literal self (EWAH_MASK i))))
      else Inr (ewah_set_last self (EWAH_MASK i)))"
proof -
  define dist where "dist = DIV_ROUND_UP (i + 1) BITS_IN_EWORD - DIV_ROUND_UP (bit_size self) BITS_IN_EWORD"
  have n: "of_nat i + 1 = (of_nat (i + 1) :: u64)" by simp
  have un: "unat (of_nat (i + 1) :: u64) = i + 1" using assms(1) by (simp only: unat_of_nat) simp
  have le: "DIV_ROUND_UP (bit_size self) BITS_IN_EWORD \<le> DIV_ROUND_UP (i + 1) BITS_IN_EWORD"
    unfolding DIV_ROUND_UP_def using assms(2) by (intro div_le_mono) simp
  have "DIV_ROUND_UP (i + 1) BITS_IN_EWORD < 2 ^ 64" unfolding DIV_ROUND_UP_def BITS_IN_EWORD_def using assms(1) by linarith
  then have small: "dist < 2 ^ 64" by (simp add: dist_def)
  have sub: "size_round_up (of_nat (i + 1)) (of_nat BITS_IN_EWORD) - size_round_up (of_nat (bit_size self)) (of_nat BITS_IN_EWORD) = of_nat dist"
    using assms le by (simp add: size_round_up_nat dist_def of_nat_diff del: of_nat_add of_nat_Suc)
  have pos: "(of_nat dist :: u64) > 0 \<longleftrightarrow> dist > 0" "(of_nat dist :: u64) > 1 \<longleftrightarrow> dist > 1"
    using small by (simp_all add: word_less_nat_alt unat_of_nat)
  have pred: "unat (of_nat dist - 1 :: u64) = dist - 1" if "dist > 1"
    using that small by (subst unat_sub) (simp_all add: word_le_nat_alt unat_of_nat)
  show ?thesis
    unfolding ewah_set_def Let_def n sub un dist_def [symmetric] pos using assms(2) pred by simp
qed

lemma ewah_set_correct:
  assumes "ewah_wf self" "bit_size self \<le> i" "i < 2 ^ 64 - 64"
  shows "\<exists>self'. ewah_set self i = Inr self' \<and> ewah_wf self' \<and>
    word_bits (ewah_words self') = insert i (word_bits (ewah_words self)) \<and> bit_size self' = i + 1"
proof -
  define m where "m = EWAH_MASK i"
  define n where "n = length (ewah_words self)"
  define self0 where "self0 = self\<lparr>bit_size := i + 1\<rparr>"
  have wf: "ewah_ok self" "ewah_busy self \<or> rlw self = 0" "n = DIV_ROUND_UP (bit_size self) BITS_IN_EWORD"
    "\<And>p. p \<in> word_bits (ewah_words self) \<Longrightarrow> p < bit_size self"
    using assms(1) by (auto simp: ewah_wf_def n_def)
  have below: "\<forall>p \<in> word_bits (ewah_words self). p < i" using wf(4) assms(2) by fastforce
  have self0: "ewah_ok self0" "ewah_words self0 = ewah_words self" "bit_size self0 = i + 1" using wf by (simp_all add: self0_def)
  show ?thesis
  proof (cases "n \<le> i div BITS_IN_EWORD")
    case True
    define k where "k = i div BITS_IN_EWORD - n"
    define self1 where "self1 = (if k > 0 then fst (add_empty_words self0 False k) else self0)"
    have self1: "ewah_ok self1" "ewah_words self1 = ewah_words self @ replicate k 0" "bit_size self1 = i + 1"
      using add_empty_words_appended [of self0 k False] self0 by (auto simp: self1_def appended_def fill_def)
    have app: "appended self1 [m] (fst (add_literal self1 m))" using self1(1) by (rule add_literal_appended)
    have "ewah_set self i = Inr (fst (add_literal self1 m))"
      using True wf(3) unfolding ewah_set_nat [OF assms(3,2)] Let_def
      by (simp add: DIV_ROUND_UP_Suc self1_def k_def self0_def m_def)
    moreover have "word_bits ((ewah_words self @ replicate k 0) @ [0]) = word_bits (ewah_words self)"
      by (simp add: word_bits_append word_bits_single)
    moreover have "ewah_wf (fst (add_literal self1 m)) \<and>
      word_bits (ewah_words (fst (add_literal self1 m))) = insert i (word_bits ((ewah_words self @ replicate k 0) @ [0]))"
      by (rule ewah_wf_intro)
        (use app self1 True below calculation(2) in \<open>auto simp: appended_def m_def k_def n_def word_bits_append word_bits_single\<close>)
    ultimately show ?thesis using app self1(3) by (auto simp: appended_def)
  next
    case False
    then have n: "n = Suc (i div BITS_IN_EWORD)"
      using wf(3) assms(2) DIV_ROUND_UP_le [of "bit_size self" "Suc (i div BITS_IN_EWORD)"]
      by (auto simp: BITS_IN_EWORD_def)
    then have dist: "DIV_ROUND_UP (i + 1) BITS_IN_EWORD - DIV_ROUND_UP (bit_size self) BITS_IN_EWORD = 0"
      using wf(3) by (simp add: DIV_ROUND_UP_Suc)
    have last: "ewah_words self = butlast (ewah_words self) @ [last (ewah_words self)]"
      using n by (metis append_butlast_last_id length_0_conv n_def nat.distinct(1))
    have busy: "ewah_busy self0"
    proof (rule ccontr)
      assume "\<not> ewah_busy self0"
      with wf have "rlw self = 0" "rlw_run (rlw_word self) = 0" "rlw_lit (rlw_word self) = 0"
        by (auto simp: self0_def ewah_busy_def rlw_word_def)
      with wf(1) have "ewah_words self = []" by (auto elim!: ewah_ok_cases)
      with n show False by (simp add: n_def)
    qed
    have zero: "last (ewah_words self) = 0" if lit: "rlw_lit (rlw_word self0) = 0"
    proof -
      obtain pre w ls where self: "self0 = seg pre w ls (i + 1)" "ewah_complete pre" "rlw_lit w = length ls"
        using self0(1,3) by (auto elim!: ewah_ok_cases)
      with lit busy have "last (ewah_words self) = fill (rlw_get_run_bit w)" by (simp flip: self0(2))
      moreover have "\<not> bit (last (ewah_words self)) (i mod BITS_IN_EWORD)"
        using below n last_conv_nth [of "ewah_words self"] by (force simp: word_bits_def n_def)
      ultimately show ?thesis by (auto simp: fill_def BITS_IN_EWORD_def split: if_splits)
    qed
    have "ewah_ok (ewah_set_last self0 m) \<and> ewah_busy (ewah_set_last self0 m) \<and>
      ewah_words (ewah_set_last self0 m) = butlast (ewah_words self) @ [last (ewah_words self) OR m] \<and>
      bit_size (ewah_set_last self0 m) = bit_size self0"
      using self0 last busy zero by (intro ewah_set_last_words) auto
    moreover from this have "ewah_wf (ewah_set_last self0 m) \<and> word_bits (ewah_words (ewah_set_last self0 m)) = insert i (word_bits (ewah_words self))"
      using ewah_wf_intro [of "ewah_set_last self0 m" "butlast (ewah_words self)" "last (ewah_words self)" i] last below n self0(3)
      by (simp add: m_def n_def)
    moreover have "ewah_set self i = Inr (ewah_set_last self0 m)"
      unfolding ewah_set_nat [OF assms(3,2)] dist by (simp add: self0_def m_def)
    ultimately show ?thesis using self0(3) by simp
  qed
qed

section \<open>Visiting the bits\<close>

text \<open>
  The positions given to the callback, in order.  A marker that promises more literal words than
  the buffer holds makes the code read beyond the buffer.
\<close>

definition each_word :: "u64 \<Rightarrow> nat \<Rightarrow> nat list" where
  "each_word word pos = map (\<lambda>c. pos + c) (filter (\<lambda>c. word AND push_bit c 1 \<noteq> 0) [0..<BITS_IN_EWORD])"

fun each_literal :: "u64 list \<Rightarrow> nat \<Rightarrow> nat \<Rightarrow> nat \<Rightarrow> cfault + nat list" where
  "each_literal buf pointer 0 pos = Inr []"
| "each_literal buf pointer (Suc k) pos =
     (if pointer < length buf then
        (case each_literal buf (pointer + 1) k (pos + BITS_IN_EWORD) of
           Inl e \<Rightarrow> Inl e
         | Inr ps \<Rightarrow> Inr (each_word (buf ! pointer) pos @ ps))
      else Inl Undef)"

function each_bit_loop :: "u64 list \<Rightarrow> nat \<Rightarrow> nat \<Rightarrow> cfault + nat list" where
  "each_bit_loop buf pointer pos =
     (if pointer < length buf then
        (let word = buf ! pointer;
             len = rlw_run word * BITS_IN_EWORD;
             run = (if rlw_get_run_bit word then [pos..<pos + len] else []);
             pos = pos + len in
         case each_literal buf (pointer + 1) (rlw_lit word) pos of
           Inl e \<Rightarrow> Inl e
         | Inr ps \<Rightarrow>
             (case each_bit_loop buf (pointer + 1 + rlw_lit word) (pos + rlw_lit word * BITS_IN_EWORD) of
                Inl e \<Rightarrow> Inl e
              | Inr ps' \<Rightarrow> Inr (run @ ps @ ps')))
      else Inr [])"
  by pat_completeness auto
termination by (relation "measure (\<lambda>(buf, pointer, pos). length buf - pointer)") auto

declare each_bit_loop.simps [simp del]

definition ewah_each_bit :: "ewah_bitmap \<Rightarrow> cfault + nat list" where
  "ewah_each_bit self = each_bit_loop (buffer self) 0 0"

primrec bit_positions :: "nat \<Rightarrow> u64 list \<Rightarrow> nat list" where
  "bit_positions pos [] = []"
| "bit_positions pos (w # ws) = map (\<lambda>c. pos + c) (filter (bit w) [0..<BITS_IN_EWORD]) @ bit_positions (pos + BITS_IN_EWORD) ws"

lemma bit_positions_append:
  "bit_positions pos (xs @ ys) = bit_positions pos xs @ bit_positions (pos + length xs * BITS_IN_EWORD) ys"
  by (induction xs arbitrary: pos) (auto simp: algebra_simps)

lemma bit_positions_fill:
  "bit_positions pos (replicate n (fill b)) = (if b then [pos..<pos + n * BITS_IN_EWORD] else [])"
proof (induction n arbitrary: pos)
  case (Suc n)
  have "filter (bit (fill True)) [0..<BITS_IN_EWORD] = [0..<BITS_IN_EWORD]"
    by (rule filter_True) (auto simp: fill_def BITS_IN_EWORD_def)
  moreover have "[pos..<pos + BITS_IN_EWORD + n * BITS_IN_EWORD] = [pos..<pos + BITS_IN_EWORD] @ [pos + BITS_IN_EWORD..<pos + BITS_IN_EWORD + n * BITS_IN_EWORD]"
    by (rule upt_add_eq_append) simp
  moreover have "map (\<lambda>c. pos + c) [0..<BITS_IN_EWORD] = [pos..<pos + BITS_IN_EWORD]"
    by (simp add: add.commute map_add_upt)
  ultimately show ?case using Suc by (simp add: algebra_simps fill_def)
qed simp

lemma set_bit_positions: "set (bit_positions pos ws) = {pos + p | p. p \<in> word_bits ws}"
proof (induction ws arbitrary: pos)
  case (Cons w ws)
  have "word_bits (w # ws) = {p. p < BITS_IN_EWORD \<and> bit w p} \<union> {BITS_IN_EWORD + p | p. p \<in> word_bits ws}"
    using word_bits_append [of "[w]" ws] by (simp add: word_bits_single)
  then show ?case using Cons by (auto simp: algebra_simps)
qed simp

lemma sorted_bit_positions: "sorted_wrt (<) (bit_positions pos ws) \<and> (\<forall>p \<in> set (bit_positions pos ws). pos \<le> p)"
proof (induction ws arbitrary: pos)
  case (Cons w ws)
  have "sorted_wrt (<) (filter (bit w) [0..<BITS_IN_EWORD])" by (simp add: sorted_wrt_filter)
  then have "sorted_wrt (<) (map (\<lambda>c. pos + c) (filter (bit w) [0..<BITS_IN_EWORD]))" by (simp add: sorted_wrt_map)
  then show ?case using Cons [of "pos + BITS_IN_EWORD"] by (fastforce simp: sorted_wrt_append)
qed simp

lemma each_word_eq: "each_word w pos = bit_positions pos [w]"
proof -
  have "w AND push_bit c 1 \<noteq> 0 \<longleftrightarrow> bit w c" if "c < BITS_IN_EWORD" for c
    using that by (simp add: bit_iff_and_push_bit_not_eq_0)
  then have "filter (\<lambda>c. w AND push_bit c 1 \<noteq> 0) [0..<BITS_IN_EWORD] = filter (bit w) [0..<BITS_IN_EWORD]"
    by (intro filter_cong) auto
  then show ?thesis by (simp add: each_word_def)
qed

lemma each_literal_eq:
  "pointer + k \<le> length buf \<Longrightarrow> each_literal buf pointer k pos = Inr (bit_positions pos (take k (drop pointer buf)))"
proof (induction k arbitrary: pointer pos)
  case (Suc k)
  then have "take (Suc k) (drop pointer buf) = buf ! pointer # take k (drop (Suc pointer) buf)"
    by (simp add: Cons_nth_drop_Suc [symmetric])
  with Suc show ?case by (simp add: each_word_eq)
qed simp

lemma each_bit_loop_eq:
  assumes "ewah_complete (drop pointer buf)"
  shows "each_bit_loop buf pointer pos = Inr (bit_positions pos (ewah_decode (drop pointer buf)))"
  using assms
proof (induction buf pointer pos rule: each_bit_loop.induct)
  case (1 buf pointer pos)
  show ?case
  proof (cases "pointer < length buf")
    case True
    then have d: "drop pointer buf = buf ! pointer # drop (Suc pointer) buf" by (simp add: Cons_nth_drop_Suc)
    let ?w = "buf ! pointer"
    have c: "rlw_lit ?w \<le> length buf - Suc pointer" "ewah_complete (drop (Suc pointer + rlw_lit ?w) buf)"
      using 1(2) d by (simp_all add: add.commute)
    then have lit: "each_literal buf (pointer + 1) (rlw_lit ?w) p = Inr (bit_positions p (take (rlw_lit ?w) (drop (Suc pointer) buf)))" for p
      using True by (simp add: each_literal_eq)
    have "each_bit_loop buf (pointer + 1 + rlw_lit ?w) (pos + rlw_run ?w * BITS_IN_EWORD + rlw_lit ?w * BITS_IN_EWORD) =
      Inr (bit_positions (pos + rlw_run ?w * BITS_IN_EWORD + rlw_lit ?w * BITS_IN_EWORD) (ewah_decode (drop (Suc pointer + rlw_lit ?w) buf)))"
      using 1(1) [OF True refl refl refl refl lit] c(2) by simp
    then show ?thesis using True lit c(1)
      by (simp add: each_bit_loop.simps [of buf pointer pos] Let_def d bit_positions_append bit_positions_fill add.commute)
  qed (simp add: each_bit_loop.simps)
qed

lemma ewah_each_bit_eq:
  assumes "ewah_ok self" "ewah_busy self \<or> rlw self = 0"
  shows "ewah_each_bit self = Inr (bit_positions 0 (ewah_words self))"
proof (cases "ewah_busy self")
  case True
  then have "ewah_complete (buffer self)" using assms(1) by (auto elim!: ewah_ok_cases)
  then show ?thesis using each_bit_loop_eq [of 0 "buffer self" 0] by (simp add: ewah_each_bit_def ewah_words_def)
next
  case False
  then obtain w b where "self = seg [] w [] b" "rlw_run w = 0" "rlw_lit w = 0"
    using assms by (auto elim!: ewah_ok_cases)
  then show ?thesis by (simp add: ewah_each_bit_def each_bit_loop.simps ewah_words_def)
qed

text \<open>Setting bits one after the other.\<close>

fun ewah_set_all :: "ewah_bitmap \<Rightarrow> nat list \<Rightarrow> cfault + ewah_bitmap" where
  "ewah_set_all self [] = Inr self"
| "ewah_set_all self (i # is) = (case ewah_set self i of Inl e \<Rightarrow> Inl e | Inr self \<Rightarrow> ewah_set_all self is)"

lemma ewah_new_wf: "ewah_wf ewah_new" "ewah_words ewah_new = []" "bit_size ewah_new = 0"
  by (simp_all add: ewah_wf_def ewah_new_def ewah_ok_def ewah_words_def rlw_word_def DIV_ROUND_UP_def BITS_IN_EWORD_def)

lemma ewah_set_all_correct:
  assumes "ewah_wf self" "sorted_wrt (<) is" "\<forall>i \<in> set is. bit_size self \<le> i" "\<forall>i \<in> set is. i < 2 ^ 64 - 64"
  shows "\<exists>self'. ewah_set_all self is = Inr self' \<and> ewah_wf self' \<and>
    word_bits (ewah_words self') = word_bits (ewah_words self) \<union> set is"
  using assms
proof (induction "is" arbitrary: self)
  case (Cons i "is")
  obtain self1 where self1: "ewah_set self i = Inr self1" "ewah_wf self1"
    "word_bits (ewah_words self1) = insert i (word_bits (ewah_words self))" "bit_size self1 = i + 1"
    using ewah_set_correct [OF Cons.prems(1), of i] Cons.prems(3,4) by auto
  have "\<forall>j \<in> set is. bit_size self1 \<le> j" using Cons.prems(2) self1(4) by auto
  from Cons.IH [OF self1(2) _ this] Cons.prems(2,4) obtain self2 where "ewah_set_all self1 is = Inr self2" "ewah_wf self2"
    "word_bits (ewah_words self2) = word_bits (ewah_words self1) \<union> set is" by auto
  with self1 show ?case by auto
qed simp

lemma strict_sorted_unique: "sorted_wrt (<) xs \<Longrightarrow> sorted_wrt (<) ys \<Longrightarrow> set xs = set ys \<Longrightarrow> xs = (ys :: nat list)"
  by (simp add: strict_sorted_equal)

text \<open>
  C38: Compressed bitmaps, bit by bit.  Setting increasing positions in an empty bitmap succeeds, and
  visiting the bits of the result gives back exactly these positions in order, however they
  fall into runs and literal words; setting a position below the size of the bitmap fails.
  Positions are below \<open>2^64 - 64\<close>: from there on rounding up to whole words wraps around in the code.
\<close>

theorem ewah_set_each_bit:
  assumes "sorted_wrt (<) is" and "\<forall>i \<in> set is. i < 2 ^ 64 - 64"
  shows "\<exists>self. ewah_set_all ewah_new is = Inr self \<and> ewah_wf self \<and> ewah_each_bit self = Inr is \<and>
    (\<forall>i < bit_size self. ewah_set self i = Inl Bug)"
proof -
  obtain self where self: "ewah_set_all ewah_new is = Inr self" "ewah_wf self" "word_bits (ewah_words self) = set is"
    using ewah_set_all_correct [OF ewah_new_wf(1) assms(1) _ assms(2)] ewah_new_wf by auto
  have "bit_positions 0 (ewah_words self) = is"
    using sorted_bit_positions [of 0 "ewah_words self"] set_bit_positions [of 0 "ewah_words self"] self(3) assms(1)
    by (intro strict_sorted_unique) auto
  then have "ewah_each_bit self = Inr is" using ewah_each_bit_eq [of self] self(2) by (simp add: ewah_wf_def)
  with self show ?thesis by (auto simp: ewah_set_def)
qed

theorem ewah_set_each_bit_witness:
  "\<exists>self. ewah_set_all ewah_new ([0..<64] @ [70, 200]) = Inr self \<and> ewah_wf self \<and>
    ewah_each_bit self = Inr ([0..<64] @ [70, 200]) \<and> (\<forall>i < bit_size self. ewah_set self i = Inl Bug)"
  by (rule ewah_set_each_bit) (auto simp: sorted_wrt_append)

end
