(* ===== verification/Ewah_Xor.thy ===== *)
theory Ewah_Xor
  imports Ewah_Bitmap
begin

text \<open>
  \<open>ewah/ewah_rlw.c\<close> and \<open>ewah_xor\<close>: the exclusive or of two compressed bitmaps without
  decompressing them.  The iterator of \<open>ewah_rlw.c\<close> keeps the lengths of a marker in variables of type
  \<open>int\<close>; \<open>int_of\<close> is the conversion to \<open>int\<close> and \<open>size_of\<close> the conversion of an \<open>int\<close> to \<open>size_t\<close>.
  The loops of \<open>ewah_xor\<close> are partial functions; the correctness theorem shows that they return.
\<close>

section \<open>The iterator over markers\<close>

definition int_of :: "u64 \<Rightarrow> int" where "int_of w = sint (ucast w :: u32)"
definition size_of :: "int \<Rightarrow> nat" where "size_of i = nat (i mod 2 ^ 64)"

record rlw_iterator =
  it_buffer :: "u64 list"
  it_pointer :: nat
  literal_word_start :: nat
  literal_words :: int
  running_len :: int
  running_bit :: bool

definition next_word :: "rlw_iterator \<Rightarrow> rlw_iterator option" where
  "next_word it =
     (if it_pointer it \<ge> length (it_buffer it) then None
      else
        let word = it_buffer it ! it_pointer it in
        Some (it\<lparr>it_pointer := it_pointer it + rlw_lit word + 1,
          literal_words := int_of (rlw_get_literal_words word),
          running_len := int_of (rlw_get_running_len word),
          running_bit := rlw_get_run_bit word\<rparr>))"

definition rlwit_literal_words :: "rlw_iterator \<Rightarrow> nat" where
  "rlwit_literal_words it = it_pointer it - size_of (literal_words it)"

definition rlwit_word_size :: "rlw_iterator \<Rightarrow> nat" where
  "rlwit_word_size it = size_of (running_len it + literal_words it)"

definition start_literals :: "rlw_iterator \<Rightarrow> rlw_iterator" where
  "start_literals it = it\<lparr>literal_word_start := rlwit_literal_words it\<rparr>"

definition rlwit_init :: "ewah_bitmap \<Rightarrow> rlw_iterator" where
  "rlwit_init from_ewah =
     (let it = \<lparr>it_buffer = buffer from_ewah, it_pointer = 0, literal_word_start = 0, literal_words = 0,
        running_len = 0, running_bit = False\<rparr> in
      start_literals (case next_word it of None \<Rightarrow> it | Some it \<Rightarrow> it))"

lemma next_word_advances: "next_word it = Some it' \<Longrightarrow> it_pointer it < it_pointer it' \<and> it_buffer it' = it_buffer it \<and> it_pointer it < length (it_buffer it)"
  by (auto simp: next_word_def Let_def split: if_splits)

function rlwit_discard_first_words :: "rlw_iterator \<Rightarrow> nat \<Rightarrow> rlw_iterator" where
  "rlwit_discard_first_words it x =
     (if x = 0 then it
      else if size_of (running_len it) > x then it\<lparr>running_len := running_len it - int x\<rparr>
      else
        let x = x - size_of (running_len it);
            it = it\<lparr>running_len := 0\<rparr>;
            discard = (if x > size_of (literal_words it) then size_of (literal_words it) else x);
            it = it\<lparr>literal_word_start := literal_word_start it + discard, literal_words := literal_words it - int discard\<rparr>;
            x = x - discard in
        if x > 0 \<or> rlwit_word_size it = 0 then
          (case next_word it of
             None \<Rightarrow> it
           | Some it \<Rightarrow> rlwit_discard_first_words (start_literals it) x)
        else it)"
  by pat_completeness auto
termination
  by (relation "measure (\<lambda>(it, x). length (it_buffer it) - it_pointer it)")
    (auto dest!: next_word_advances simp: start_literals_def)

declare rlwit_discard_first_words.simps [simp del]

lemma size_of_0: "size_of i = 0 \<longleftrightarrow> 2 ^ 64 dvd i"
proof -
  have "nat k = 0 \<longleftrightarrow> k = 0" if "0 \<le> k" for k :: int using that by simp
  from this [OF pos_mod_sign, of "2 ^ 64" i] show ?thesis unfolding size_of_def dvd_eq_mod_eq_0 by simp
qed

lemma word_size_pos: "rlwit_word_size it > 0 \<Longrightarrow> size_of (running_len it) > 0 \<or> size_of (literal_words it) > 0"
  unfolding rlwit_word_size_def neq0_conv [symmetric] size_of_0 using dvd_add by blast

function rlwit_discharge_loop :: "rlw_iterator \<Rightarrow> ewah_bitmap \<Rightarrow> nat \<Rightarrow> bool \<Rightarrow> nat \<Rightarrow> rlw_iterator \<times> ewah_bitmap \<times> nat" where
  "rlwit_discharge_loop it out limit negate index =
     (if index < limit \<and> rlwit_word_size it > 0 then
        let pl = size_of (running_len it);
            pl = (if index + pl > limit then limit - index else pl);
            out = fst (ewah_add_empty_words out (running_bit it \<noteq> negate) pl);
            index = index + pl;
            pd = size_of (literal_words it);
            pd = (if pd + index > limit then limit - index else pd);
            out = ewah_add_dirty_words out (take pd (drop (literal_word_start it) (it_buffer it))) negate;
            it' = rlwit_discard_first_words it (pd + pl);
            index = index + pd in
        rlwit_discharge_loop it' out limit negate index
      else (it, out, index))"
  by pat_completeness auto
termination
proof (relation "measure (\<lambda>(it, out, limit, negate, index). limit - index)", goal_cases)
  case (2 it out limit negate index pl0 pl out1 index1 pd0 pd out2 it' index2)
  have "size_of (running_len it) > 0 \<or> size_of (literal_words it) > 0" "index < limit"
    using 2(1) word_size_pos by auto
  moreover have "pl = min (size_of (running_len it)) (limit - index)" unfolding 2(2,3) using calculation(2) by auto
  moreover have "pd = min (size_of (literal_words it)) (limit - index - pl)" unfolding 2(6,7) 2(5) using calculation(2,3) by auto
  ultimately have "index < index2" "index < limit" unfolding 2(10) 2(5) by (auto simp: min_def split: if_splits)
  then show ?case by simp
qed simp

declare rlwit_discharge_loop.simps [simp del]

definition rlwit_discharge :: "rlw_iterator \<Rightarrow> ewah_bitmap \<Rightarrow> nat \<Rightarrow> bool \<Rightarrow> rlw_iterator \<times> ewah_bitmap \<times> nat" where
  "rlwit_discharge it out limit negate = rlwit_discharge_loop it out limit negate 0"

section \<open>Exclusive or\<close>

partial_function (option) xor_runs ::
  "rlw_iterator \<Rightarrow> rlw_iterator \<Rightarrow> ewah_bitmap \<Rightarrow> (rlw_iterator \<times> rlw_iterator \<times> ewah_bitmap) option" where
  "xor_runs rlw_i rlw_j out =
     (if running_len rlw_i > 0 \<or> running_len rlw_j > 0 then
        let less = (running_len rlw_i < running_len rlw_j);
            prey = (if less then rlw_i else rlw_j);
            predator = (if less then rlw_j else rlw_i);
            negate_words = running_bit predator;
            n = size_of (running_len predator) in
        case rlwit_discharge prey out n negate_words of
          (prey, out, index) \<Rightarrow>
            (let out = fst (ewah_add_empty_words out negate_words (n - index));
                 predator = rlwit_discard_first_words predator n in
             xor_runs (if less then prey else predator) (if less then predator else prey) out)
      else Some (rlw_i, rlw_j, out))"

definition xor_literals :: "rlw_iterator \<Rightarrow> rlw_iterator \<Rightarrow> nat \<Rightarrow> ewah_bitmap \<Rightarrow> ewah_bitmap" where
  "xor_literals rlw_i rlw_j literals out =
     fold (\<lambda>k out. fst (ewah_add out (it_buffer rlw_i ! (literal_word_start rlw_i + k) XOR it_buffer rlw_j ! (literal_word_start rlw_j + k))))
       [0..<literals] out"

partial_function (option) xor_loop ::
  "rlw_iterator \<Rightarrow> rlw_iterator \<Rightarrow> ewah_bitmap \<Rightarrow> (rlw_iterator \<times> rlw_iterator \<times> ewah_bitmap) option" where
  "xor_loop rlw_i rlw_j out =
     (if rlwit_word_size rlw_i > 0 \<and> rlwit_word_size rlw_j > 0 then
        Option.bind (xor_runs rlw_i rlw_j out) (\<lambda>(rlw_i, rlw_j, out).
          let literals = min (size_of (literal_words rlw_i)) (size_of (literal_words rlw_j)) in
          if literals \<noteq> 0 then
            xor_loop (rlwit_discard_first_words rlw_i literals) (rlwit_discard_first_words rlw_j literals)
              (xor_literals rlw_i rlw_j literals out)
          else xor_loop rlw_i rlw_j out)
      else Some (rlw_i, rlw_j, out))"

definition ewah_xor :: "ewah_bitmap \<Rightarrow> ewah_bitmap \<Rightarrow> ewah_bitmap \<Rightarrow> ewah_bitmap option" where
  "ewah_xor ewah_i ewah_j out =
     map_option (\<lambda>(rlw_i, rlw_j, out).
       let (it, out, index) = rlwit_discharge (if rlwit_word_size rlw_i > 0 then rlw_i else rlw_j) out (2 ^ 64 - 1) False in
       out\<lparr>bit_size := max (bit_size ewah_i) (bit_size ewah_j)\<rparr>)
     (xor_loop (rlwit_init ewah_i) (rlwit_init ewah_j) out)"

section \<open>What an iterator has left\<close>

definition it_rem :: "rlw_iterator \<Rightarrow> u64 list" where
  "it_rem it =
     replicate (nat (running_len it)) (fill (running_bit it)) @
     take (nat (literal_words it)) (drop (literal_word_start it) (it_buffer it)) @
     ewah_decode (drop (it_pointer it) (it_buffer it))"

definition it_ok :: "rlw_iterator \<Rightarrow> bool" where
  "it_ok it \<longleftrightarrow>
     0 \<le> running_len it \<and> running_len it < 2 ^ 31 \<and> 0 \<le> literal_words it \<and> literal_words it < 2 ^ 31 \<and>
     literal_word_start it + nat (literal_words it) = it_pointer it \<and> it_pointer it \<le> length (it_buffer it) \<and>
     ewah_complete (drop (it_pointer it) (it_buffer it)) \<and> length (it_rem it) < 2 ^ 31 \<and>
     (running_len it = 0 \<and> literal_words it = 0 \<longrightarrow> it_rem it = [])"

lemma size_of_small: "0 \<le> i \<Longrightarrow> i < 2 ^ 33 \<Longrightarrow> size_of i = nat i"
  by (simp add: size_of_def)

lemma it_ok_sizes:
  assumes "it_ok it"
  shows "size_of (running_len it) = nat (running_len it)" "size_of (literal_words it) = nat (literal_words it)"
    "rlwit_word_size it = nat (running_len it) + nat (literal_words it)"
  using assms by (simp_all add: it_ok_def rlwit_word_size_def size_of_small nat_add_distrib)

lemma int_of_small:
  assumes "unat w < 2 ^ 31"
  shows "int_of w = int (unat w)"
proof -
  have v: "unat (ucast w :: u32) = unat w" using assms by (simp add: unsigned_ucast_eq take_bit_nat_eq_self)
  then have "nat (uint (ucast w :: u32)) < 2147483648" using assms by simp
  then have u: "0 \<le> uint (ucast w :: u32)" "uint (ucast w :: u32) < 2147483648" by (simp, linarith)
  have "signed_take_bit 31 (uint (ucast w :: u32)) = uint (ucast w :: u32)"
  proof (rule signed_take_bit_int_eq_self)
    show "- (2 ^ 31) \<le> uint (ucast w :: u32)" using u(1) by (rule order_trans [rotated]) simp
  qed (use u(2) in simp)
  then have "sint (ucast w :: u32) = int (unat (ucast w :: u32))" by (simp add: sint_uint)
  with v show ?thesis by (simp add: int_of_def)
qed

lemma next_word_start:
  assumes "it_pointer it < length (it_buffer it)" "ewah_complete (drop (it_pointer it) (it_buffer it))"
    and "length (ewah_decode (drop (it_pointer it) (it_buffer it))) < 2 ^ 31"
  obtains it' where "next_word it = Some it'" "it_ok (start_literals it')" "it_buffer (start_literals it') = it_buffer it"
    "it_rem (start_literals it') = ewah_decode (drop (it_pointer it) (it_buffer it))"
proof -
  define w where "w = it_buffer it ! it_pointer it"
  have d: "drop (it_pointer it) (it_buffer it) = w # drop (Suc (it_pointer it)) (it_buffer it)"
    using assms(1) by (simp add: Cons_nth_drop_Suc w_def)
  have run: "rlw_run w < 2 ^ 31" using assms(3) by (simp add: d)
  then have ints: "int_of (rlw_get_running_len w) = int (rlw_run w)" "int_of (rlw_get_literal_words w) = int (rlw_lit w)"
    using rlw_lit_less [of w] by (simp_all add: rlw_run_def rlw_lit_def int_of_small)
  have lit: "size_of (int (rlw_lit w)) = rlw_lit w" using rlw_lit_less [of w] by (simp add: size_of_small)
  define it' where "it' = it\<lparr>it_pointer := it_pointer it + rlw_lit w + 1, literal_words := int (rlw_lit w),
    running_len := int (rlw_run w), running_bit := rlw_get_run_bit w\<rparr>"
  have c: "rlw_lit w \<le> length (it_buffer it) - Suc (it_pointer it)" "rlw_run w + rlw_lit w > 0"
    "ewah_complete (drop (it_pointer it + rlw_lit w + 1) (it_buffer it))"
    using assms(2) by (simp_all add: d add.commute)
  have rem: "it_rem (start_literals it') = ewah_decode (drop (it_pointer it) (it_buffer it))"
    by (simp add: it_rem_def start_literals_def it'_def rlwit_literal_words_def lit d add.commute)
  have "it_ok (start_literals it')"
    unfolding it_ok_def rem using c run rlw_lit_less [of w] assms(1,3)
    by (auto simp: start_literals_def it'_def rlwit_literal_words_def lit)
  moreover have "next_word it = Some it'" using assms(1) by (simp add: next_word_def it'_def w_def [symmetric] ints Let_def)
  ultimately show ?thesis using that rem by (simp add: start_literals_def it'_def)
qed

lemma discard_ok:
  assumes "it_ok it"
  shows "it_ok (rlwit_discard_first_words it x) \<and> it_rem (rlwit_discard_first_words it x) = drop x (it_rem it)"
  using assms
proof (induction "length (it_buffer it) - it_pointer it" arbitrary: it x rule: less_induct)
  case less
  note sizes = it_ok_sizes [OF less.prems]
  define r where "r = nat (running_len it)"
  define l where "l = nat (literal_words it)"
  have it: "running_len it = int r" "literal_words it = int l" "r < 2 ^ 31" "l < 2 ^ 31"
    "literal_word_start it + l = it_pointer it" "it_pointer it \<le> length (it_buffer it)"
    "ewah_complete (drop (it_pointer it) (it_buffer it))" "length (it_rem it) < 2 ^ 31"
    using less.prems by (auto simp: it_ok_def r_def l_def)
  have rem: "it_rem it = replicate r (fill (running_bit it)) @ take l (drop (literal_word_start it) (it_buffer it)) @
    ewah_decode (drop (it_pointer it) (it_buffer it))"
    by (simp add: it_rem_def r_def l_def)
  consider "x = 0" | "0 < x" "x < r" | "0 < x" "r \<le> x" by linarith
  then show ?case
  proof cases
    case 1
    then show ?thesis using less.prems by (simp add: rlwit_discard_first_words.simps [of it 0])
  next
    case 2
    then have eq: "rlwit_discard_first_words it x = it\<lparr>running_len := int (r - x)\<rparr>"
      using sizes it by (simp add: rlwit_discard_first_words.simps [of it x])
    have "it_rem (it\<lparr>running_len := int (r - x)\<rparr>) = drop x (it_rem it)" using 2 by (simp add: rem) (simp add: it_rem_def l_def)
    then show ?thesis using 2 it unfolding eq by (auto simp: it_ok_def)
  next
    case 3
    define d where "d = min (x - r) l"
    define it2 where "it2 = it\<lparr>running_len := 0, literal_word_start := literal_word_start it + d, literal_words := int l - int d\<rparr>"
    define x2 where "x2 = x - r - d"
    have d: "(if x - r > l then l else x - r) = d" "d \<le> l" by (auto simp: d_def)
    have eq: "rlwit_discard_first_words it x =
      (if x2 > 0 \<or> rlwit_word_size it2 = 0 then
         (case next_word it2 of None \<Rightarrow> it2 | Some it \<Rightarrow> rlwit_discard_first_words (start_literals it) x2)
       else it2)"
    proof -
      have f: "literal_words (it\<lparr>running_len := 0\<rparr>) = int l" "literal_word_start (it\<lparr>running_len := 0\<rparr>) = literal_word_start it"
        "size_of (running_len it) = r" "size_of (int l) = l" "\<not> x = 0" "\<not> x < r"
        using it sizes 3 by (simp_all add: size_of_small)
      show ?thesis unfolding rlwit_discard_first_words.simps [of it x] Let_def
        unfolding f(1-4) d(1) unfolding it2_def [symmetric] x2_def [symmetric] if_not_P [OF f(5)] if_not_P [OF f(6)] by (rule refl)
    qed
    have rem2: "it_rem it2 = drop (r + d) (it_rem it)"
      using it(5,6) d(2) unfolding rem by (simp add: it_rem_def it2_def add.commute drop_take nat_diff_distrib)
    have ok2: "it_ok it2" if "l - d > 0 \<or> it_pointer it \<ge> length (it_buffer it)"
      unfolding it_ok_def using it that rem2 d(2) by (auto simp: it2_def it_rem_def)
    have size2: "rlwit_word_size it2 = l - d"
      using it(4) d(2) by (simp add: rlwit_word_size_def it2_def size_of_small)
    show ?thesis
    proof (cases "x2 > 0 \<or> l - d = 0")
      case True
      then have ld: "l - d = 0" "d \<le> x - r" by (auto simp: x2_def d_def)
      then have rem3: "it_rem it2 = ewah_decode (drop (it_pointer it) (it_buffer it))" by (simp add: it_rem_def it2_def)
      have x2: "drop x (it_rem it) = drop x2 (it_rem it2)" using 3 ld by (simp add: rem2 x2_def add.commute)
      show ?thesis
      proof (cases "it_pointer it < length (it_buffer it)")
        case less': True
        have it2: "it_pointer it2 = it_pointer it" "it_buffer it2 = it_buffer it" by (simp_all add: it2_def)
        have small: "length (ewah_decode (drop (it_pointer it) (it_buffer it))) < 2 ^ 31" using it(8) unfolding rem by simp
        obtain it3 where it3: "next_word it2 = Some it3" "it_ok (start_literals it3)"
          "it_buffer (start_literals it3) = it_buffer it"
          "it_rem (start_literals it3) = ewah_decode (drop (it_pointer it) (it_buffer it))"
          using next_word_start [of it2, unfolded it2, OF less' it(7) small] by blast
        have "it_pointer it < it_pointer (start_literals it3)"
          using next_word_advances [OF it3(1)] it2 by (simp add: start_literals_def)
        then have "length (it_buffer (start_literals it3)) - it_pointer (start_literals it3) < length (it_buffer it) - it_pointer it"
          using less' unfolding it3(3) by linarith
        from less.hyps [OF this it3(2)] have "it_ok (rlwit_discard_first_words (start_literals it3) x2) \<and>
          it_rem (rlwit_discard_first_words (start_literals it3) x2) = drop x2 (it_rem (start_literals it3))" by simp
        moreover have "rlwit_discard_first_words it x = rlwit_discard_first_words (start_literals it3) x2"
          using True unfolding eq size2 it3(1) by auto
        ultimately show ?thesis using rem3 x2 it3(4) by simp
      next
        case False
        then have "next_word it2 = None" "it_rem it2 = []" using it(6) rem3 by (simp_all add: next_word_def it2_def)
        moreover from this have "rlwit_discard_first_words it x = it2" unfolding eq by simp
        ultimately show ?thesis using ok2 False x2 by simp
      qed
    next
      case False
      then have "x = r + d" using 3 by (auto simp: x2_def d_def)
      moreover have "rlwit_discard_first_words it x = it2" using False unfolding eq size2 by simp
      ultimately show ?thesis using False ok2 rem2 by simp
    qed
  qed
qed

section \<open>Moving words to the output\<close>

definition out_ok :: "ewah_bitmap \<Rightarrow> bool" where
  "out_ok out \<longleftrightarrow> ewah_ok out \<and> (ewah_busy out \<or> rlw out = 0)"

lemma out_add_empty_words:
  assumes "out_ok out"
  shows "out_ok (fst (ewah_add_empty_words out v n)) \<and> ewah_words (fst (ewah_add_empty_words out v n)) = ewah_words out @ replicate n (fill v)"
proof (cases "n = 0")
  case False
  then show ?thesis using ewah_add_empty_words_appended [of out n v] assms by (simp add: out_ok_def appended_def)
qed (use assms in \<open>simp add: ewah_add_empty_words_def\<close>)

lemma fill_xor [simp]: "fill (b = (\<not> c)) = fill b XOR fill c" "w XOR fill False = w" "w XOR fill True = NOT w"
  by (auto simp: fill_def)

lemma out_add_dirty_words:
  assumes "out_ok out"
  shows "out_ok (ewah_add_dirty_words out ws negate) \<and>
    ewah_words (ewah_add_dirty_words out ws negate) = ewah_words out @ map (\<lambda>w. w XOR fill negate) ws"
  using ewah_add_dirty_words_appended [of out ws negate] assms by (cases negate) (auto simp: out_ok_def)

lemma out_add:
  assumes "out_ok out"
  shows "out_ok (fst (ewah_add out w)) \<and> ewah_words (fst (ewah_add out w)) = ewah_words out @ [w]"
  using ewah_add_appended [of out w] assms by (simp add: out_ok_def appended_def)

lemma it_rem_Nil: "it_ok it \<Longrightarrow> rlwit_word_size it = 0 \<longleftrightarrow> it_rem it = []"
  by (auto simp: it_ok_sizes) (auto simp: it_ok_def it_rem_def)

lemma it_rem_take:
  assumes "it_ok it" and "pl = min (nat (running_len it)) n" and "pd = min (nat (literal_words it)) (n - pl)"
  shows "take (pd + pl) (it_rem it) = replicate pl (fill (running_bit it)) @ take pd (drop (literal_word_start it) (it_buffer it))"
proof -
  have len: "pd \<le> length (drop (literal_word_start it) (it_buffer it))" "pd \<le> nat (literal_words it)"
    using assms(1,3) by (auto simp: it_ok_def)
  show ?thesis
  proof (cases "nat (running_len it) \<le> n")
    case True
    then have "pl = nat (running_len it)" using assms(2) by simp
    with len show ?thesis by (simp add: it_rem_def min_def)
  next
    case False
    then have "pl = n" "pd = 0" using assms(2,3) by simp_all
    with False show ?thesis by (simp add: it_rem_def)
  qed
qed

lemma discharge_loop_ok:
  assumes "it_ok it" "out_ok out" "rlwit_discharge_loop it out limit negate index = (it', out', index')"
  shows "it_ok it' \<and> out_ok out' \<and> it_rem it' = drop (limit - index) (it_rem it) \<and>
    ewah_words out' = ewah_words out @ map (\<lambda>w. w XOR fill negate) (take (limit - index) (it_rem it)) \<and>
    (index \<le> limit \<longrightarrow> index' = index + min (limit - index) (length (it_rem it)))"
  using assms
proof (induction "limit - index" arbitrary: it out index rule: less_induct)
  case less
  show ?case
  proof (cases "index < limit \<and> rlwit_word_size it > 0")
    case False
    then have "rlwit_discharge_loop it out limit negate index = (it, out, index)"
      unfolding rlwit_discharge_loop.simps [of it] by (rule if_not_P)
    with less.prems False it_rem_Nil [OF less.prems(1)] show ?thesis by auto
  next
    case True
    define pl where "pl = min (nat (running_len it)) (limit - index)"
    define pd where "pd = min (nat (literal_words it)) (limit - index - pl)"
    define out1 where "out1 = fst (ewah_add_empty_words out (running_bit it \<noteq> negate) pl)"
    define out2 where "out2 = ewah_add_dirty_words out1 (take pd (drop (literal_word_start it) (it_buffer it))) negate"
    have c: "(if index + nat (running_len it) > limit then limit - index else nat (running_len it)) = pl"
      "(if nat (literal_words it) + (index + pl) > limit then limit - (index + pl) else nat (literal_words it)) = pd"
      using True by (auto simp: pl_def pd_def)
    have loop: "rlwit_discharge_loop it out limit negate index =
      rlwit_discharge_loop (rlwit_discard_first_words it (pd + pl)) out2 limit negate (index + pl + pd)"
      unfolding rlwit_discharge_loop.simps [of it] Let_def it_ok_sizes [OF less.prems(1)] c if_P [OF True [unfolded it_ok_sizes [OF less.prems(1)]]]
      unfolding out1_def [symmetric] out2_def [symmetric] by (rule refl)
    have "pd \<le> limit - index - pl" "pl \<le> limit - index" by (simp_all add: pd_def pl_def)
    moreover have "pd + pl > 0" using True it_ok_sizes [OF less.prems(1)] by (auto simp: pl_def pd_def)
    ultimately have pos: "pd + pl > 0" "pd + pl \<le> limit - index" by linarith+
    have out: "out_ok out2" "ewah_words out2 = ewah_words out @ map (\<lambda>w. w XOR fill negate) (take (pd + pl) (it_rem it))"
      using out_add_empty_words [OF less.prems(2), of "running_bit it \<noteq> negate" pl]
        out_add_dirty_words [of out1 "take pd (drop (literal_word_start it) (it_buffer it))" negate]
        it_rem_take [OF less.prems(1) pl_def pd_def]
      by (simp_all add: out1_def out2_def)
    note rem = discard_ok [OF less.prems(1), of "pd + pl"]
    have "limit - (index + pl + pd) < limit - index" using pos True by linarith
    from less.hyps [OF this conjunct1 [OF rem] out(1) less.prems(3) [unfolded loop]] rem
    have IH: "it_ok it'" "out_ok out'" "it_rem it' = drop (limit - (index + pl + pd) + (pd + pl)) (it_rem it)"
      "ewah_words out' = ewah_words out2 @ map (\<lambda>w. w XOR fill negate) (take (limit - (index + pl + pd)) (drop (pd + pl) (it_rem it)))"
      "index + pl + pd \<le> limit \<longrightarrow> index' = index + pl + pd + min (limit - (index + pl + pd)) (length (it_rem it) - (pd + pl))"
      by simp_all
    have split: "limit - index = (pd + pl) + (limit - (index + pl + pd))" using pos by simp
    have "pd + pl \<le> length (it_rem it)"
      using arg_cong [OF it_rem_take [OF less.prems(1) pl_def pd_def], of length] less.prems(1)
      by (auto simp: pd_def it_ok_def)
    then have "index' = index + min (limit - index) (length (it_rem it))" using IH(5) pos by linarith
    then show ?thesis using IH(1-4) out(2) unfolding split take_add by (simp add: add.commute)
  qed
qed

lemma discharge_ok:
  assumes "it_ok it" "out_ok out" "rlwit_discharge it out limit negate = (it', out', index)"
  shows "it_ok it'" "out_ok out'" "it_rem it' = drop limit (it_rem it)"
    "ewah_words out' = ewah_words out @ map (\<lambda>w. w XOR fill negate) (take limit (it_rem it))"
    "index = min limit (length (it_rem it))"
  using discharge_loop_ok [OF assms(1,2) assms(3) [unfolded rlwit_discharge_def]] by simp_all

section \<open>The exclusive or of the words\<close>

fun xor_words :: "u64 list \<Rightarrow> u64 list \<Rightarrow> u64 list" where
  "xor_words [] ys = ys"
| "xor_words xs [] = xs"
| "xor_words (x # xs) (y # ys) = (x XOR y) # xor_words xs ys"

lemma xor_words_Nil [simp]: "xor_words xs [] = xs"
  by (cases xs) auto

lemma xor_words_commute: "xor_words xs ys = xor_words ys xs"
  by (induction xs ys rule: xor_words.induct) (auto simp: xor.commute)

lemma xor_words_run:
  "xor_words (replicate n f @ xs) ys = map (\<lambda>w. w XOR f) (take n ys) @ replicate (n - length ys) f @ xor_words xs (drop n ys)"
proof (induction n arbitrary: ys)
  case (Suc n)
  then show ?case by (cases ys) (auto simp: xor.commute)
qed simp

lemma xor_words_split:
  "n \<le> length xs \<Longrightarrow> n \<le> length ys \<Longrightarrow>
    xor_words xs ys = map2 (XOR) (take n xs) (take n ys) @ xor_words (drop n xs) (drop n ys)"
proof (induction n arbitrary: xs ys)
  case (Suc n)
  then show ?case by (cases xs; cases ys) auto
qed simp

lemma predator_step:
  assumes "it_ok predator" "it_ok prey" "out_ok out" "0 < running_len predator"
    and "rlwit_discharge prey out (size_of (running_len predator)) (running_bit predator) = (prey', out1, index)"
    and "out2 = fst (ewah_add_empty_words out1 (running_bit predator) (size_of (running_len predator) - index))"
    and "predator' = rlwit_discard_first_words predator (size_of (running_len predator))"
  shows "it_ok predator' \<and> it_ok prey' \<and> out_ok out2 \<and> length (it_rem predator') < length (it_rem predator) \<and>
    length (it_rem prey') \<le> length (it_rem prey) \<and>
    ewah_words out2 @ xor_words (it_rem predator') (it_rem prey') = ewah_words out @ xor_words (it_rem predator) (it_rem prey)"
proof -
  define n where "n = nat (running_len predator)"
  have n: "size_of (running_len predator) = n" "n > 0" using it_ok_sizes [OF assms(1)] assms(4) by (simp_all add: n_def)
  obtain rest where rest: "it_rem predator = replicate n (fill (running_bit predator)) @ rest" by (simp add: it_rem_def n_def)
  note prey = discharge_ok [OF assms(2,3) assms(5) [unfolded n(1)]]
  have "it_ok predator' \<and> it_rem predator' = rest"
    using discard_ok [OF assms(1), of n] n(1) assms(7) rest by simp
  moreover have "out_ok out2 \<and> ewah_words out2 = ewah_words out @ map (\<lambda>w. w XOR fill (running_bit predator)) (take n (it_rem prey)) @
    replicate (n - length (it_rem prey)) (fill (running_bit predator))"
  proof -
    have "n - index = n - length (it_rem prey)" using prey(5) by simp
    then show ?thesis using out_add_empty_words [OF prey(2), of "running_bit predator" "n - index"] prey(4) n(1) assms(6) by simp
  qed
  ultimately show ?thesis using prey rest n by (simp add: xor_words_run)
qed

lemma xor_runs_ok:
  assumes "it_ok rlw_i" "it_ok rlw_j" "out_ok out"
  shows "\<exists>i j out'. xor_runs rlw_i rlw_j out = Some (i, j, out') \<and> it_ok i \<and> it_ok j \<and> out_ok out' \<and>
    running_len i = 0 \<and> running_len j = 0 \<and>
    ewah_words out' @ xor_words (it_rem i) (it_rem j) = ewah_words out @ xor_words (it_rem rlw_i) (it_rem rlw_j) \<and>
    length (it_rem i) + length (it_rem j) \<le> length (it_rem rlw_i) + length (it_rem rlw_j) \<and>
    (running_len rlw_i > 0 \<or> running_len rlw_j > 0 \<longrightarrow>
      length (it_rem i) + length (it_rem j) < length (it_rem rlw_i) + length (it_rem rlw_j))"
  using assms
proof (induction "length (it_rem rlw_i) + length (it_rem rlw_j)" arbitrary: rlw_i rlw_j out rule: less_induct)
  case less
  show ?case
  proof (cases "running_len rlw_i > 0 \<or> running_len rlw_j > 0")
    case False
    then have "running_len rlw_i = 0" "running_len rlw_j = 0" using less.prems by (auto simp: it_ok_def)
    with False less.prems show ?thesis by (simp add: xor_runs.simps)
  next
    case True
    define prey where "prey = (if running_len rlw_i < running_len rlw_j then rlw_i else rlw_j)"
    define predator where "predator = (if running_len rlw_i < running_len rlw_j then rlw_j else rlw_i)"
    obtain prey' out1 index where d: "rlwit_discharge prey out (size_of (running_len predator)) (running_bit predator) = (prey', out1, index)"
      by (metis prod_cases3)
    define out2 where "out2 = fst (ewah_add_empty_words out1 (running_bit predator) (size_of (running_len predator) - index))"
    define predator' where "predator' = rlwit_discard_first_words predator (size_of (running_len predator))"
    define i where "i = (if running_len rlw_i < running_len rlw_j then prey' else predator')"
    define j where "j = (if running_len rlw_i < running_len rlw_j then predator' else prey')"
    have loop: "xor_runs rlw_i rlw_j out = xor_runs i j out2"
      using True d unfolding xor_runs.simps [of rlw_i] Let_def prey_def [symmetric] predator_def [symmetric]
      by (simp add: out2_def predator'_def i_def j_def)
    have step: "it_ok predator' \<and> it_ok prey' \<and> out_ok out2 \<and> length (it_rem predator') < length (it_rem predator) \<and>
      length (it_rem prey') \<le> length (it_rem prey) \<and>
      ewah_words out2 @ xor_words (it_rem predator') (it_rem prey') = ewah_words out @ xor_words (it_rem predator) (it_rem prey)"
      by (rule predator_step [OF _ _ less.prems(3) _ d out2_def predator'_def])
        (use True less.prems in \<open>auto simp: predator_def prey_def\<close>)
    then have ok: "it_ok i" "it_ok j" "out_ok out2"
      "length (it_rem i) + length (it_rem j) < length (it_rem rlw_i) + length (it_rem rlw_j)"
      by (auto simp: i_def j_def predator_def prey_def split: if_splits)
    have words: "ewah_words out2 @ xor_words (it_rem i) (it_rem j) = ewah_words out @ xor_words (it_rem rlw_i) (it_rem rlw_j)"
      using step xor_words_commute by (auto simp: i_def j_def predator_def prey_def split: if_splits)
    from less.hyps [OF ok(4,1,2,3)] ok(4) words loop show ?thesis by fastforce
  qed
qed

lemma fold_ewah_add:
  "out_ok out \<Longrightarrow> out_ok (fold (\<lambda>k out. fst (ewah_add out (f k))) ks out) \<and>
    ewah_words (fold (\<lambda>k out. fst (ewah_add out (f k))) ks out) = ewah_words out @ map f ks"
proof (induction ks arbitrary: out)
  case (Cons k ks)
  show ?case using Cons.IH [of "fst (ewah_add out (f k))"] out_add [OF Cons.prems, of "f k"] by simp
qed simp

lemma it_rem_literals:
  assumes "it_ok it" "running_len it = 0" "n \<le> nat (literal_words it)"
  shows "n \<le> length (it_rem it)" "take n (it_rem it) = map (\<lambda>k. it_buffer it ! (literal_word_start it + k)) [0..<n]"
proof -
  have len: "n \<le> length (drop (literal_word_start it) (it_buffer it))" "nat (literal_words it) \<le> length (drop (literal_word_start it) (it_buffer it))"
    using assms by (auto simp: it_ok_def)
  then show "n \<le> length (it_rem it)" using assms(2,3) by (simp add: it_rem_def)
  have "take n (it_rem it) = take n (drop (literal_word_start it) (it_buffer it))"
    using assms(2,3) len by (simp add: it_rem_def min_def)
  also have "\<dots> = map (\<lambda>k. it_buffer it ! (literal_word_start it + k)) [0..<n]"
    using len(1) by (intro nth_equalityI) simp_all
  finally show "take n (it_rem it) = map (\<lambda>k. it_buffer it ! (literal_word_start it + k)) [0..<n]" .
qed

lemma xor_literals_ok:
  assumes "it_ok i" "it_ok j" "out_ok out" "running_len i = 0" "running_len j = 0"
    and "n \<le> nat (literal_words i)" "n \<le> nat (literal_words j)"
  shows "out_ok (xor_literals i j n out) \<and>
    ewah_words (xor_literals i j n out) @ xor_words (drop n (it_rem i)) (drop n (it_rem j)) = ewah_words out @ xor_words (it_rem i) (it_rem j)"
proof -
  note ri = it_rem_literals [OF assms(1,4,6)] and rj = it_rem_literals [OF assms(2,5,7)]
  have "map2 (XOR) (take n (it_rem i)) (take n (it_rem j)) =
    map (\<lambda>k. it_buffer i ! (literal_word_start i + k) XOR it_buffer j ! (literal_word_start j + k)) [0..<n]"
    unfolding ri(2) rj(2) by (simp add: zip_map_map zip_same_conv_map comp_def)
  then show ?thesis using fold_ewah_add [OF assms(3)] xor_words_split [OF ri(1) rj(1)] by (simp add: xor_literals_def)
qed

lemma xor_loop_ok:
  assumes "it_ok rlw_i" "it_ok rlw_j" "out_ok out"
  shows "\<exists>i j out'. xor_loop rlw_i rlw_j out = Some (i, j, out') \<and> it_ok i \<and> it_ok j \<and> out_ok out' \<and>
    (it_rem i = [] \<or> it_rem j = []) \<and>
    ewah_words out' @ xor_words (it_rem i) (it_rem j) = ewah_words out @ xor_words (it_rem rlw_i) (it_rem rlw_j)"
  using assms
proof (induction "length (it_rem rlw_i) + length (it_rem rlw_j)" arbitrary: rlw_i rlw_j out rule: less_induct)
  case less
  show ?case
  proof (cases "rlwit_word_size rlw_i > 0 \<and> rlwit_word_size rlw_j > 0")
    case False
    with less.prems it_rem_Nil [OF less.prems(1)] it_rem_Nil [OF less.prems(2)] show ?thesis by (auto simp: xor_loop.simps)
  next
    case True
    obtain i j out1 where runs: "xor_runs rlw_i rlw_j out = Some (i, j, out1)" "it_ok i" "it_ok j" "out_ok out1"
      "running_len i = 0" "running_len j = 0"
      "ewah_words out1 @ xor_words (it_rem i) (it_rem j) = ewah_words out @ xor_words (it_rem rlw_i) (it_rem rlw_j)"
      "length (it_rem i) + length (it_rem j) \<le> length (it_rem rlw_i) + length (it_rem rlw_j)"
      "running_len rlw_i > 0 \<or> running_len rlw_j > 0 \<longrightarrow>
        length (it_rem i) + length (it_rem j) < length (it_rem rlw_i) + length (it_rem rlw_j)"
      using xor_runs_ok [OF less.prems] by blast
    define n where "n = min (size_of (literal_words i)) (size_of (literal_words j))"
    have n: "n \<le> nat (literal_words i)" "n \<le> nat (literal_words j)"
      using it_ok_sizes [OF runs(2)] it_ok_sizes [OF runs(3)] by (simp_all add: n_def)
    show ?thesis
    proof (cases "n = 0")
      case zero: True
      have "xor_loop rlw_i rlw_j out = xor_loop i j out1"
        using True zero unfolding xor_loop.simps [of rlw_i rlw_j out] runs(1) Option.bind.simps prod.case Let_def n_def [symmetric] by simp
      moreover have rem: "it_rem i = [] \<or> it_rem j = []"
        using zero runs(2,3,5,6) it_ok_sizes(2) [OF runs(2)] it_ok_sizes(2) [OF runs(3)] by (auto simp: n_def it_ok_def min_def split: if_splits)
      moreover have "xor_loop i j out1 = Some (i, j, out1)"
        using rem it_rem_Nil [OF runs(2)] it_rem_Nil [OF runs(3)] by (auto simp: xor_loop.simps [of i])
      ultimately show ?thesis using runs by auto
    next
      case False
      have "xor_loop rlw_i rlw_j out =
        xor_loop (rlwit_discard_first_words i n) (rlwit_discard_first_words j n) (xor_literals i j n out1)"
        using True False unfolding xor_loop.simps [of rlw_i rlw_j out] runs(1) Option.bind.simps prod.case Let_def n_def [symmetric] by simp
      moreover note di = discard_ok [OF runs(2), of n] and dj = discard_ok [OF runs(3), of n]
      moreover note lits = xor_literals_ok [OF runs(2,3,4,5,6) n]
      moreover have "length (it_rem (rlwit_discard_first_words i n)) + length (it_rem (rlwit_discard_first_words j n)) <
        length (it_rem rlw_i) + length (it_rem rlw_j)"
        using runs(8) di dj False it_rem_literals(1) [OF runs(2,5) n(1)] by simp
      ultimately show ?thesis using less.hyps [of "rlwit_discard_first_words i n" "rlwit_discard_first_words j n" "xor_literals i j n out1"] runs(7)
        by fastforce
    qed
  qed
qed

lemma rlwit_init_ok:
  assumes "ewah_wf self" "length (ewah_words self) < 2 ^ 31"
  shows "it_ok (rlwit_init self) \<and> it_rem (rlwit_init self) = ewah_words self"
proof -
  let ?it = "\<lparr>it_buffer = buffer self, it_pointer = 0, literal_word_start = 0, literal_words = 0, running_len = 0, running_bit = False\<rparr>"
  have self: "ewah_ok self" "ewah_busy self \<or> rlw self = 0" using assms(1) by (simp_all add: ewah_wf_def)
  show ?thesis
  proof (cases "ewah_busy self")
    case True
    then have "ewah_complete (buffer self)" "0 < length (buffer self)" using self(1) by (auto elim!: ewah_ok_cases)
    then obtain it where "next_word ?it = Some it" "it_ok (start_literals it)" "it_rem (start_literals it) = ewah_words self"
      using next_word_start [of ?it] assms(2) by (auto simp: ewah_words_def)
    then show ?thesis by (simp add: rlwit_init_def Let_def)
  next
    case False
    then obtain w b where "self = seg [] w [] b" "rlw_run w = 0" "rlw_lit w = 0" using self by (auto elim!: ewah_ok_cases)
    then show ?thesis
      by (simp add: rlwit_init_def Let_def next_word_def start_literals_def it_ok_def it_rem_def int_of_small rlwit_literal_words_def
        size_of_def ewah_words_def rlw_run_def rlw_lit_def unat_eq_0)
  qed
qed

lemma length_xor_words: "length (xor_words xs ys) = max (length xs) (length ys)"
  by (induction xs ys rule: xor_words.induct) auto

lemma nth_xor_words:
  "k < max (length xs) (length ys) \<Longrightarrow>
    xor_words xs ys ! k = (if k < length xs then xs ! k else 0) XOR (if k < length ys then ys ! k else 0)"
proof (induction xs ys arbitrary: k rule: xor_words.induct)
  case (3 x xs y ys)
  then show ?case by (cases k) auto
qed auto

lemma word_bits_xor: "word_bits (xor_words xs ys) = (word_bits xs - word_bits ys) \<union> (word_bits ys - word_bits xs)"
  by (auto simp: word_bits_def length_xor_words nth_xor_words bit_xor_iff split: if_splits)

section \<open>Bitmaps of whole words\<close>

lemma ewah_wf_out: "ewah_wf self \<Longrightarrow> out_ok self"
  by (simp add: ewah_wf_def out_ok_def)

lemma ewah_wf_full:
  assumes "out_ok self" "bit_size self = length (ewah_words self) * BITS_IN_EWORD"
  shows "ewah_wf self"
proof -
  have "DIV_ROUND_UP (n * BITS_IN_EWORD) BITS_IN_EWORD = n" for n by (simp add: DIV_ROUND_UP_def BITS_IN_EWORD_def)
  then show ?thesis using assms word_bits_less [of _ "ewah_words self"] by (auto simp: ewah_wf_def out_ok_def)
qed

lemma bit_size_add: "out_ok ewah \<Longrightarrow> bit_size (fst (ewah_add ewah w)) = bit_size ewah + BITS_IN_EWORD"
  using ewah_add_appended [of ewah w] by (simp add: out_ok_def appended_def)

lemma bit_size_add_empty: "out_ok ewah \<Longrightarrow> bit_size (fst (ewah_add_empty_words ewah v n)) = bit_size ewah + n * BITS_IN_EWORD"
  using ewah_add_empty_words_appended [of ewah n v] by (cases "n = 0") (auto simp: out_ok_def appended_def ewah_add_empty_words_def)

definition ewah_full :: "ewah_bitmap \<Rightarrow> bool" where
  "ewah_full ewah \<longleftrightarrow> out_ok ewah \<and> bit_size ewah = length (ewah_words ewah) * BITS_IN_EWORD"

lemma ewah_full_add: "ewah_full ewah \<Longrightarrow> ewah_full (fst (ewah_add ewah w)) \<and> ewah_words (fst (ewah_add ewah w)) = ewah_words ewah @ [w]"
  using out_add [of ewah w] by (simp add: ewah_full_def bit_size_add)

lemma ewah_full_add_empty:
  "ewah_full ewah \<Longrightarrow> ewah_full (fst (ewah_add_empty_words ewah v n)) \<and>
    ewah_words (fst (ewah_add_empty_words ewah v n)) = ewah_words ewah @ replicate n (fill v)"
  using out_add_empty_words [of ewah v n] by (simp add: ewah_full_def bit_size_add_empty algebra_simps)

lemma ewah_full_new: "ewah_full ewah_new"
  using ewah_new_wf by (simp add: ewah_full_def ewah_wf_out)

lemma ewah_full_wf: "ewah_full ewah \<Longrightarrow> ewah_wf ewah"
  by (simp add: ewah_full_def ewah_wf_full)

text \<open>
  C10: Exclusive or of compressed bitmaps.  For well-formed bitmaps of less than \<open>2 ^ 31\<close> words \<open>ewah_xor\<close>
  returns, its result is a well-formed bitmap whose words are the exclusive or of the words of
  the arguments, the shorter one continued by zeros, and so its bits are those of exactly one of
  them.
\<close>

theorem ewah_xor_correct:
  assumes "ewah_wf ewah_i" "ewah_wf ewah_j" "length (ewah_words ewah_i) < 2 ^ 31" "length (ewah_words ewah_j) < 2 ^ 31"
  shows "\<exists>out. ewah_xor ewah_i ewah_j ewah_new = Some out \<and> ewah_wf out \<and>
    ewah_words out = xor_words (ewah_words ewah_i) (ewah_words ewah_j) \<and>
    word_bits (ewah_words out) =
      (word_bits (ewah_words ewah_i) - word_bits (ewah_words ewah_j)) \<union> (word_bits (ewah_words ewah_j) - word_bits (ewah_words ewah_i))"
proof -
  have new: "out_ok ewah_new" "ewah_words ewah_new = []" using ewah_new_wf by (auto simp: out_ok_def ewah_wf_def)
  obtain i j out where loop: "xor_loop (rlwit_init ewah_i) (rlwit_init ewah_j) ewah_new = Some (i, j, out)" "it_ok i" "it_ok j" "out_ok out"
    "it_rem i = [] \<or> it_rem j = []"
    "ewah_words out @ xor_words (it_rem i) (it_rem j) = xor_words (ewah_words ewah_i) (ewah_words ewah_j)"
    using xor_loop_ok [of "rlwit_init ewah_i" "rlwit_init ewah_j" ewah_new] rlwit_init_ok assms new by auto
  define it where "it = (if rlwit_word_size i > 0 then i else j)"
  have it: "it_ok it" "it_rem it = xor_words (it_rem i) (it_rem j)" "length (it_rem it) < 2 ^ 31"
    using loop it_rem_Nil [OF loop(2)] it_rem_Nil [OF loop(3)] by (auto simp: it_def it_ok_def)
  obtain it' out' index where d: "rlwit_discharge it out (2 ^ 64 - 1) False = (it', out', index)" by (metis prod_cases3)
  note out' = discharge_ok [OF it(1) loop(4) d]
  define res where "res = out'\<lparr>bit_size := max (bit_size ewah_i) (bit_size ewah_j)\<rparr>"
  have "ewah_xor ewah_i ewah_j ewah_new = Some res"
    using loop(1) d by (simp add: ewah_xor_def it_def res_def Let_def)
  moreover have words: "ewah_words res = xor_words (ewah_words ewah_i) (ewah_words ewah_j)"
    using out'(4) loop(6) it(2,3) by (simp add: res_def)
  moreover have "ewah_wf res"
  proof -
    have "DIV_ROUND_UP (max a b) BITS_IN_EWORD = max (DIV_ROUND_UP a BITS_IN_EWORD) (DIV_ROUND_UP b BITS_IN_EWORD)" for a b
      by (cases "a \<le> b") (auto simp: DIV_ROUND_UP_def max_def div_le_mono intro: antisym)
    moreover have "out_ok out'" by (rule out'(2))
    ultimately show ?thesis using assms(1,2) unfolding ewah_wf_def words word_bits_xor length_xor_words
      by (auto simp: res_def out_ok_def)
  qed
  ultimately show ?thesis using word_bits_xor by auto
qed

theorem ewah_xor_correct_witness:
  "\<exists>out. ewah_xor (fst (ewah_add ewah_new 5)) (fst (ewah_add (fst (ewah_add ewah_new 0)) 7)) ewah_new = Some out \<and> ewah_wf out \<and>
    ewah_words out = [5, 7]"
proof -
  let ?i = "fst (ewah_add ewah_new 5)" and ?j = "fst (ewah_add (fst (ewah_add ewah_new 0)) 7)"
  have i: "ewah_full ?i" "ewah_words ?i = [5]" and j: "ewah_full ?j" "ewah_words ?j = [0, 7]"
    using ewah_new_wf by (simp_all add: ewah_full_add ewah_full_new)
  then show ?thesis using ewah_xor_correct [of ?i ?j] by (fastforce simp: ewah_full_wf)
qed

end
