(* ===== verification/Popcount.thy ===== *)
theory Popcount
  imports Git_Prelude
begin

text \<open>
  The bit count of \<open>ewah/ewok.h\<close>, \<open>ewah_bit_popcount64\<close>: neighbouring bits, pairs and nibbles are added
  in parallel, and a multiplication adds the eight bytes.  The lemmas show that it counts the bits
  of the word.
\<close>

definition ewah_bit_popcount64 :: "u64 \<Rightarrow> u32" where
  "ewah_bit_popcount64 x =
     (let x = (x AND 0x5555555555555555) + (drop_bit 1 x AND 0x5555555555555555);
          x = (x AND 0x3333333333333333) + (drop_bit 2 x AND 0x3333333333333333);
          x = (x AND 0x0F0F0F0F0F0F0F0F) + (drop_bit 4 x AND 0x0F0F0F0F0F0F0F0F) in
      ucast (drop_bit 56 (x * 0x0101010101010101)))"

text \<open>
  A word as a number with digits of \<open>k\<close> bits, the least one first.
\<close>

primrec digits :: "nat \<Rightarrow> nat list \<Rightarrow> nat" where
  "digits k [] = 0"
| "digits k (d # ds) = d + 2 ^ k * digits k ds"

fun add_pairs :: "nat list \<Rightarrow> nat list" where
  "add_pairs (a # b # ds) = (a + b) # add_pairs ds"
| "add_pairs ds = []"

lemma digits_less: "\<forall>d \<in> set ds. d < 2 ^ k \<Longrightarrow> digits k ds < 2 ^ (k * length ds)"
proof (induction ds)
  case (Cons d ds)
  then have "digits k ds + 1 \<le> 2 ^ (k * length ds)" by simp
  then have "2 ^ k * (digits k ds + 1) \<le> 2 ^ k * 2 ^ (k * length ds)" by (rule mult_le_mono2)
  with Cons.prems show ?case by (simp add: power_add) 
qed simp

lemma drop_take_digit:
  assumes "a < 2 ^ k"
  shows "drop_bit k (a + 2 ^ k * x) = x" "take_bit k (a + 2 ^ k * x) = (a :: nat)"
  using assms by (simp_all add: drop_bit_eq_div take_bit_eq_mod)

lemma and_digits:
  assumes "a < 2 ^ k" "b < 2 ^ k"
  shows "(a + 2 ^ k * x) AND (b + 2 ^ k * y) = (a AND b) + 2 ^ k * (x AND (y :: nat))"
  using bits_ident [of k "(a + 2 ^ k * x) AND (b + 2 ^ k * y)"]
  by (simp add: drop_take_digit assms push_bit_eq_mult mult.commute [of _ "2 ^ k"])

lemma and_low: "a < 2 ^ k \<Longrightarrow> (a + 2 ^ k * b) AND (2 ^ k - 1) = (a :: nat)"
  using take_bit_eq_mask [of k "a + 2 ^ k * b"] by (simp add: drop_take_digit mask_eq_exp_minus_1)

lemma two_digits:
  assumes "a < 2 ^ k" "b < 2 ^ k"
  shows "a + 2 ^ k * b < (2 :: nat) ^ (2 * k)"
  using digits_less [of "[a, b]" k] assms by (simp add: mult_2)

lemma add_pairs_step:
  assumes "even (length ds)" "\<forall>d \<in> set ds. d < 2 ^ k"
  shows "(digits k ds AND digits (2 * k) (replicate (length ds div 2) (2 ^ k - 1))) +
    (drop_bit k (digits k ds) AND digits (2 * k) (replicate (length ds div 2) (2 ^ k - 1))) = digits (2 * k) (add_pairs ds)"
  using assms
proof (induction ds rule: add_pairs.induct)
  case (1 a b ds)
  define X where "X = digits k ds"
  define Y where "Y = digits (2 * k) (replicate (length ds div 2) (2 ^ k - 1))"
  have IH: "(X AND Y) + (drop_bit k X AND Y) = digits (2 * k) (add_pairs ds)"
    using 1 by (simp add: X_def Y_def)
  have ab: "a < 2 ^ k" "b < 2 ^ k" "(2 :: nat) ^ k - 1 < 2 ^ (2 * k)" "X mod 2 ^ k < 2 ^ k"
    using 1(3) less_le_trans [of "(2 :: nat) ^ k - 1" "2 ^ k" "2 ^ (2 * k)"] by auto
  have sq: "(2 :: nat) ^ (2 * k) = 2 ^ k * 2 ^ k" by (simp add: mult_2 power_add)
  have low: "(a + 2 ^ k * b + 2 ^ (2 * k) * X) AND (2 ^ k - 1 + 2 ^ (2 * k) * Y) = a + 2 ^ (2 * k) * (X AND Y)"
    using and_digits [OF two_digits [OF ab(1,2)] ab(3)] and_low [OF ab(1)] by simp
  have "X mod 2 ^ k + 2 ^ k * drop_bit k X = X" by (simp add: drop_bit_eq_div)
  then have "b + 2 ^ k * X = b + 2 ^ k * (X mod 2 ^ k) + 2 ^ (2 * k) * drop_bit k X"
    unfolding sq by (metis add.assoc distrib_left mult.assoc)
  then have high: "(b + 2 ^ k * X) AND (2 ^ k - 1 + 2 ^ (2 * k) * Y) = b + 2 ^ (2 * k) * (drop_bit k X AND Y)"
    using and_digits [OF two_digits [OF ab(2,4)] ab(3)] and_low [OF ab(2)] by (simp add: add.assoc)
  have "digits k (a # b # ds) = a + 2 ^ k * b + 2 ^ (2 * k) * X" by (simp add: X_def algebra_simps mult_2_right power_add)
  moreover have "drop_bit k (digits k (a # b # ds)) = b + 2 ^ k * X" using ab(1) by (simp add: X_def drop_take_digit)
  moreover have "digits (2 * k) (replicate (length (a # b # ds) div 2) (2 ^ k - 1)) = 2 ^ k - 1 + 2 ^ (2 * k) * Y" by (simp add: Y_def)
  moreover have "digits (2 * k) (add_pairs (a # b # ds)) = a + 2 ^ (2 * k) * (X AND Y) + (b + 2 ^ (2 * k) * (drop_bit k X AND Y))"
    by (simp add: distrib_left flip: IH)
  ultimately show ?case unfolding low high by (simp only: low high)
qed simp_all

lemma add_pairs_props:
  assumes "even (length ds)"
  shows "sum_list (add_pairs ds) = sum_list ds" "length (add_pairs ds) = length ds div 2"
  using assms by (induction ds rule: add_pairs.induct) auto

lemma add_pairs_le: "\<forall>d \<in> set ds. d \<le> B \<Longrightarrow> \<forall>d \<in> set (add_pairs ds). d \<le> 2 * B"
  by (induction ds rule: add_pairs.induct) auto

lemma word_step:
  fixes x :: u64
  assumes "unat x = digits k ds" "even (length ds)" "\<forall>d \<in> set ds. d \<le> B" "2 * B < 2 ^ (2 * k)" "B < 2 ^ k" "k * length ds = 64"
    "unat M = digits (2 * k) (replicate (length ds div 2) (2 ^ k - 1))"
  shows "unat ((x AND M) + (drop_bit k x AND M)) = digits (2 * k) (add_pairs ds)"
proof -
  have "\<forall>d \<in> set (add_pairs ds). d < 2 ^ (2 * k)" using add_pairs_le [OF assms(3)] assms(4) by auto
  from digits_less [OF this] have "digits (2 * k) (add_pairs ds) < 2 ^ 64"
    using assms(2,6) by (simp add: add_pairs_props mult.assoc mult.left_commute [of 2])
  moreover have "unat (drop_bit k x) = drop_bit k (unat x)"
    by (simp add: unsigned_drop_bit_eq take_bit_nat_eq_self unsigned_less)
  then have "unat (x AND M) + unat (drop_bit k x AND M) = digits (2 * k) (add_pairs ds)"
    using add_pairs_step [OF assms(2), of k] le_less_trans [OF _ assms(5)] assms(3) by (simp add: unsigned_and_eq assms(1,7))
  ultimately show ?thesis by (simp add: unat_word_ariths)
qed

lemma top_byte:
  assumes "length es = 8" "sum_list es < 256"
  shows "digits 8 es * 0x0101010101010101 mod 2 ^ 64 div 2 ^ 56 = sum_list es"
proof -
  obtain a b c d e f g h where es: "es = [a, b, c, d, e, f, g, h]"
    using assms(1) by (auto simp: numeral_eq_Suc length_Suc_conv)
  define lo where "lo = digits 8 [a, a + b, a + b + c, a + b + c + d, a + b + c + d + e, a + b + c + d + e + f, a + b + c + d + e + f + g]"
  define hi where "hi = digits 8 [b + c + d + e + f + g + h, c + d + e + f + g + h, d + e + f + g + h, e + f + g + h, f + g + h, g + h, h]"
  have "lo < 2 ^ (8 * 7)" unfolding lo_def using assms(2) digits_less [of "[a, a + b, a + b + c, a + b + c + d, a + b + c + d + e, a + b + c + d + e + f, a + b + c + d + e + f + g]" 8]
    by (simp add: es)
  moreover have "digits 8 es * 0x0101010101010101 = lo + 2 ^ 56 * sum_list es + 2 ^ 64 * hi"
    by (simp add: es lo_def hi_def algebra_simps)
  moreover have "lo + 2 ^ 56 * sum_list es < 2 ^ 64" using \<open>lo < 2 ^ (8 * 7)\<close> assms(2) by simp
  ultimately show ?thesis by simp
qed

text \<open>The number of bits of a word.\<close>

definition word_count :: "u64 \<Rightarrow> nat" where
  "word_count x = card {i. bit x i}"

lemma word_count_digits:
  "unat x = digits 1 (map (\<lambda>i. of_bool (bit x i)) [0..<64])" "sum_list (map (\<lambda>i. of_bool (bit x i)) [0..<64]) = word_count x"
proof -
  have "digits 1 (map (\<lambda>i. of_bool (bit x i)) is) = horner_sum of_bool 2 (map (bit x) is)" for "is" by (induction "is") auto
  moreover have "horner_sum of_bool 2 (map (bit x) [0..<64]) = unat x"
    using horner_sum_bit_eq_take_bit [of "unat x" 64] by (simp add: bit_unsigned_iff take_bit_nat_eq_self unsigned_less cong: map_cong del: upt_rec_numeral)
  ultimately show "unat x = digits 1 (map (\<lambda>i. of_bool (bit x i)) [0..<64])" by simp
  have "{i. bit x i} = {i \<in> {0..<64}. bit x i}" using bit_imp_le_length [of x] by auto
  then show "sum_list (map (\<lambda>i. of_bool (bit x i)) [0..<64]) = word_count x"
    by (simp add: word_count_def interv_sum_list_conv_sum_set_nat sum.If_cases of_bool_def Int_def del: upt_rec_numeral)
qed

lemma replicate_32:
  "replicate 8 d = [d, d, d, d, d, d, d, d]" "replicate 16 d = replicate 8 d @ replicate 8 d" "replicate 32 d = replicate 16 d @ replicate 16 d"
  using replicate_add [of 8 8 d] replicate_add [of 16 16 d] by (simp_all add: numeral_eq_Suc)

lemma ewah_bit_popcount64_eq: "unat (ewah_bit_popcount64 x) = word_count x"
proof -
  define ds where "ds = map (\<lambda>i. of_bool (bit x i) :: nat) [0..<64]"
  define x1 where "x1 = (x AND 0x5555555555555555) + (drop_bit 1 x AND 0x5555555555555555)"
  define x2 where "x2 = (x1 AND 0x3333333333333333) + (drop_bit 2 x1 AND 0x3333333333333333)"
  define x3 where "x3 = (x2 AND 0x0F0F0F0F0F0F0F0F) + (drop_bit 4 x2 AND 0x0F0F0F0F0F0F0F0F)"
  have ds: "length ds = 64" "\<forall>d \<in> set ds. d \<le> 1" "unat x = digits 1 ds" "sum_list ds = word_count x"
    using word_count_digits [of x] by (auto simp: ds_def simp del: upt_rec_numeral)
  note le = add_pairs_le [OF ds(2)]
  note le2 = add_pairs_le [OF le]
  have "unat x1 = digits (2 * 1) (add_pairs ds)" unfolding x1_def
    by (rule word_step [where B = 1]) (use ds in \<open>simp_all add: replicate_32\<close>)
  then have "unat x2 = digits (2 * 2) (add_pairs (add_pairs ds))" unfolding x2_def
    by (intro word_step [where B = "2 * 1"]) (use ds le in \<open>simp_all add: add_pairs_props replicate_32\<close>)
  then have "unat x3 = digits (2 * 4) (add_pairs (add_pairs (add_pairs ds)))" unfolding x3_def
    by (intro word_step [where B = "2 * (2 * 1)"]) (use ds le2 in \<open>simp_all add: add_pairs_props replicate_32\<close>)
  moreover have count: "word_count x < 256"
    using card_mono [of "{0..<64}" "{i. bit x i}"] bit_imp_le_length [of x] by (fastforce simp: word_count_def)
  ultimately have "unat (x3 * 0x0101010101010101) div 2 ^ 56 = word_count x"
    using top_byte [of "add_pairs (add_pairs (add_pairs ds))"] ds by (simp add: add_pairs_props unat_word_ariths)
  then have "unat (drop_bit 56 (x3 * 0x0101010101010101)) = word_count x"
    by (simp add: unsigned_drop_bit_eq take_bit_nat_eq_self unsigned_less drop_bit_eq_div unat_div)
  then have "unat (ucast (drop_bit 56 (x3 * 0x0101010101010101)) :: u32) = word_count x"
    using count by (simp add: unsigned_ucast_eq take_bit_nat_eq_self)
  then show ?thesis unfolding ewah_bit_popcount64_def Let_def x1_def [symmetric] x2_def [symmetric] x3_def [symmetric] .
qed

end
