(* ===== verification/Bitmap.thy ===== *)
theory Bitmap
  imports Ewah_Xor Popcount
begin

text \<open>
  The word iterator of \<open>ewah/ewah_bitmap.c\<close> and the uncompressed bitmaps of \<open>ewah/bitmap.c\<close>, with
  the operations between the two kinds of bitmap.  An uncompressed bitmap is the list of its
  \<open>word_alloc\<close> words.  A failed assertion is \<open>Bug\<close>, and a write beyond the words is \<open>Undef\<close>.
\<close>

type_synonym bitmap = "u64 list"

section \<open>The iterator over words\<close>

record ewah_iterator =
  ei_buffer :: "u64 list"
  ei_pointer :: nat
  compressed :: nat
  literals :: nat
  rl :: nat
  lw :: nat
  ei_b :: bool

function read_rlw_loop :: "ewah_iterator \<Rightarrow> ewah_iterator" where
  "read_rlw_loop it =
     (let word = ei_buffer it ! ei_pointer it;
          it = it\<lparr>rl := rlw_run word, lw := rlw_lit word, ei_b := rlw_get_run_bit word\<rparr> in
      if rl it \<noteq> 0 \<or> lw it \<noteq> 0 then it
      else if ei_pointer it < length (ei_buffer it) - 1 then read_rlw_loop (it\<lparr>ei_pointer := ei_pointer it + 1\<rparr>)
      else it\<lparr>ei_pointer := length (ei_buffer it)\<rparr>)"
  by pat_completeness auto
termination by (relation "measure (\<lambda>it. length (ei_buffer it) - ei_pointer it)") auto

declare read_rlw_loop.simps [simp del]

definition read_new_rlw :: "ewah_iterator \<Rightarrow> ewah_iterator" where
  "read_new_rlw it = read_rlw_loop (it\<lparr>literals := 0, compressed := 0\<rparr>)"

text \<open>The part of \<open>ewah_iterator_next\<close> that moves to the next marker.\<close>

definition iterator_advance :: "ewah_iterator \<Rightarrow> ewah_iterator" where
  "iterator_advance it =
     (if compressed it = rl it \<and> literals it = lw it then
        (let it = it\<lparr>ei_pointer := ei_pointer it + 1\<rparr> in
         if ei_pointer it < length (ei_buffer it) then read_new_rlw it else it)
      else it)"

definition ewah_iterator_next :: "ewah_iterator \<Rightarrow> cfault + (u64 \<times> ewah_iterator) option" where
  "ewah_iterator_next it =
     (if ei_pointer it \<ge> length (ei_buffer it) then Inr None
      else if compressed it < rl it then
        (let it = it\<lparr>compressed := compressed it + 1\<rparr> in
         Inr (Some (if ei_b it then NOT 0 else 0, iterator_advance it)))
      else if \<not> literals it < lw it then Inl Bug
      else
        (let it = it\<lparr>literals := literals it + 1, ei_pointer := ei_pointer it + 1\<rparr> in
         if \<not> ei_pointer it < length (ei_buffer it) then Inl Bug
         else Inr (Some (ei_buffer it ! ei_pointer it, iterator_advance it))))"

definition ewah_iterator_init :: "ewah_bitmap \<Rightarrow> ewah_iterator" where
  "ewah_iterator_init parent =
     (let it = \<lparr>ei_buffer = buffer parent, ei_pointer = 0, compressed = 0, literals = 0, rl = 0, lw = 0, ei_b = False\<rparr> in
      if ei_pointer it < length (ei_buffer it) then read_new_rlw it else it)"

definition iterator_left :: "ewah_iterator \<Rightarrow> nat" where
  "iterator_left it = length (ei_buffer it) - ei_pointer it"

definition iterator_rel :: "(ewah_iterator \<times> ewah_iterator) set" where
  "iterator_rel = measures [iterator_left, \<lambda>it. rl it - compressed it]"

lemma wf_iterator_rel: "wf iterator_rel"
  by (simp add: iterator_rel_def)

lemma read_rlw_loop_frame: "ei_buffer (read_rlw_loop it) = ei_buffer it \<and> iterator_left (read_rlw_loop it) \<le> iterator_left it"
proof (induction it rule: read_rlw_loop.induct)
  case (1 it)
  define w where "w = ei_buffer it ! ei_pointer it"
  define it1 where "it1 = it\<lparr>rl := rlw_run w, lw := rlw_lit w, ei_b := rlw_get_run_bit w\<rparr>"
  have eq: "read_rlw_loop it =
    (if rl it1 \<noteq> 0 \<or> lw it1 \<noteq> 0 then it1
     else if ei_pointer it1 < length (ei_buffer it1) - 1 then read_rlw_loop (it1\<lparr>ei_pointer := ei_pointer it1 + 1\<rparr>)
     else it1\<lparr>ei_pointer := length (ei_buffer it1)\<rparr>)"
    unfolding read_rlw_loop.simps [of it] Let_def w_def [symmetric] it1_def [symmetric] by (rule refl)
  have it1: "ei_buffer it1 = ei_buffer it" "ei_pointer it1 = ei_pointer it" by (simp_all add: it1_def)
  show ?case
  proof (cases "\<not> (rl it1 \<noteq> 0 \<or> lw it1 \<noteq> 0) \<and> ei_pointer it1 < length (ei_buffer it1) - 1")
    case True
    then have "read_rlw_loop it = read_rlw_loop (it1\<lparr>ei_pointer := ei_pointer it1 + 1\<rparr>)" unfolding eq by auto
    with 1 [OF w_def it1_def] True it1 show ?thesis by (auto simp: iterator_left_def)
  next
    case False
    then have "read_rlw_loop it = it1 \<or> read_rlw_loop it = it1\<lparr>ei_pointer := length (ei_buffer it1)\<rparr>" unfolding eq by auto
    with it1 show ?thesis by (auto simp: iterator_left_def)
  qed
qed

lemma iterator_advance_left:
  assumes "ei_pointer it < length (ei_buffer it)" "compressed it = rl it" "literals it = lw it"
  shows "iterator_left (iterator_advance it) < iterator_left it"
proof -
  let ?it = "it\<lparr>ei_pointer := ei_pointer it + 1, literals := 0, compressed := 0\<rparr>"
  have "iterator_left (read_rlw_loop ?it) \<le> iterator_left ?it" using read_rlw_loop_frame by blast
  also have "\<dots> < iterator_left it" using assms(1) by (simp add: iterator_left_def)
  finally show ?thesis using assms by (simp add: iterator_advance_def read_new_rlw_def Let_def iterator_left_def)
qed

lemma iterator_advance_same: "\<not> (compressed it = rl it \<and> literals it = lw it) \<Longrightarrow> iterator_advance it = it"
  unfolding iterator_advance_def by (rule if_not_P)

lemma iterator_next_rel:
  assumes "ewah_iterator_next it = Inr (Some (w, it'))"
  shows "(it', it) \<in> iterator_rel"
proof -
  have ptr: "ei_pointer it < length (ei_buffer it)" using assms by (auto simp: ewah_iterator_next_def split: if_splits)
  show ?thesis
  proof (cases "compressed it < rl it")
    case True
    let ?it = "it\<lparr>compressed := compressed it + 1\<rparr>"
    have "it' = iterator_advance ?it" using assms ptr True by (simp add: ewah_iterator_next_def Let_def)
    moreover have "iterator_left ?it = iterator_left it" by (simp add: iterator_left_def)
    ultimately show ?thesis using iterator_advance_left [of ?it] iterator_advance_same [of ?it] ptr True
      by (cases "compressed ?it = rl ?it \<and> literals ?it = lw ?it") (auto simp: iterator_rel_def)
  next
    case False
    let ?it = "it\<lparr>literals := literals it + 1, ei_pointer := ei_pointer it + 1\<rparr>"
    have it': "it' = iterator_advance ?it" "ei_pointer ?it < length (ei_buffer ?it)"
      using assms ptr False by (auto simp: ewah_iterator_next_def Let_def split: if_splits)
    moreover have "iterator_left ?it < iterator_left it" using ptr by (simp add: iterator_left_def)
    ultimately show ?thesis using iterator_advance_left [of ?it] iterator_advance_same [of ?it]
      by (cases "compressed ?it = rl ?it \<and> literals ?it = lw ?it") (auto simp: iterator_rel_def)
  qed
qed

section \<open>What the iterator has left\<close>

definition iterator_words :: "ewah_iterator \<Rightarrow> u64 list" where
  "iterator_words it =
     (if ei_pointer it < length (ei_buffer it) then
        replicate (rl it - compressed it) (fill (ei_b it)) @
        take (lw it - literals it) (drop (ei_pointer it + 1) (ei_buffer it)) @
        ewah_decode (drop (ei_pointer it + 1 + (lw it - literals it)) (ei_buffer it))
      else [])"

definition iterator_ok :: "ewah_iterator \<Rightarrow> bool" where
  "iterator_ok it \<longleftrightarrow>
     (ei_pointer it < length (ei_buffer it) \<longrightarrow>
       compressed it \<le> rl it \<and> literals it \<le> lw it \<and> (compressed it < rl it \<or> literals it < lw it) \<and>
       ei_pointer it + 1 + (lw it - literals it) \<le> length (ei_buffer it) \<and>
       ewah_complete (drop (ei_pointer it + 1 + (lw it - literals it)) (ei_buffer it)))"

lemma read_new_rlw_ok:
  assumes "ei_pointer it < length (ei_buffer it)" "ewah_complete (drop (ei_pointer it) (ei_buffer it))"
  shows "iterator_ok (read_new_rlw it) \<and> iterator_words (read_new_rlw it) = ewah_decode (drop (ei_pointer it) (ei_buffer it))"
proof -
  define w where "w = ei_buffer it ! ei_pointer it"
  have d: "drop (ei_pointer it) (ei_buffer it) = w # drop (Suc (ei_pointer it)) (ei_buffer it)"
    using assms(1) by (simp add: Cons_nth_drop_Suc w_def)
  have c: "rlw_run w + rlw_lit w > 0" "rlw_lit w \<le> length (ei_buffer it) - Suc (ei_pointer it)"
    "ewah_complete (drop (Suc (ei_pointer it) + rlw_lit w) (ei_buffer it))"
    using assms(2) by (simp_all add: d add.commute)
  have "read_new_rlw it = it\<lparr>literals := 0, compressed := 0, rl := rlw_run w, lw := rlw_lit w, ei_b := rlw_get_run_bit w\<rparr>"
    using c(1) by (simp add: read_new_rlw_def read_rlw_loop.simps Let_def w_def)
  then show ?thesis using c assms(1) by (auto simp: iterator_ok_def iterator_words_def d add.commute)
qed

lemma iterator_advance_ok:
  assumes "ei_pointer it < length (ei_buffer it)" "compressed it \<le> rl it" "literals it \<le> lw it"
    "ei_pointer it + 1 + (lw it - literals it) \<le> length (ei_buffer it)"
    "ewah_complete (drop (ei_pointer it + 1 + (lw it - literals it)) (ei_buffer it))"
  shows "iterator_ok (iterator_advance it) \<and> iterator_words (iterator_advance it) = iterator_words it"
proof (cases "compressed it = rl it \<and> literals it = lw it")
  case True
  let ?it = "it\<lparr>ei_pointer := ei_pointer it + 1\<rparr>"
  show ?thesis
  proof (cases "ei_pointer ?it < length (ei_buffer ?it)")
    case less: True
    then have "iterator_ok (read_new_rlw ?it) \<and> iterator_words (read_new_rlw ?it) = ewah_decode (drop (ei_pointer ?it) (ei_buffer ?it))"
      using assms True by (intro read_new_rlw_ok) auto
    with True less assms(1) show ?thesis by (simp add: iterator_advance_def iterator_words_def)
  next
    case False
    with True assms show ?thesis by (simp add: iterator_advance_def iterator_words_def iterator_ok_def)
  qed
next
  case False
  with assms show ?thesis by (auto simp: iterator_advance_same iterator_ok_def)
qed

text \<open>The contract of the iterator: it yields the words it has left, one by one.\<close>

lemma ewah_iterator_next_ok:
  assumes "iterator_ok it"
  shows "case iterator_words it of
      [] \<Rightarrow> ewah_iterator_next it = Inr None
    | w # ws \<Rightarrow> \<exists>it'. ewah_iterator_next it = Inr (Some (w, it')) \<and> iterator_ok it' \<and> iterator_words it' = ws"
proof (cases "ei_pointer it < length (ei_buffer it)")
  case True
  note ok = assms [unfolded iterator_ok_def, rule_format, OF True]
  show ?thesis
  proof (cases "compressed it < rl it")
    case run: True
    let ?it = "it\<lparr>compressed := compressed it + 1\<rparr>"
    have "iterator_words it = fill (ei_b it) # iterator_words ?it"
      using True run by (simp add: iterator_words_def Suc_diff_Suc [symmetric])
    moreover have "ewah_iterator_next it = Inr (Some (fill (ei_b it), iterator_advance ?it))"
      using True run by (simp add: ewah_iterator_next_def fill_def)
    moreover have "iterator_ok (iterator_advance ?it) \<and> iterator_words (iterator_advance ?it) = iterator_words ?it"
      using True run ok by (intro iterator_advance_ok) auto
    ultimately show ?thesis by simp
  next
    case False
    let ?it = "it\<lparr>literals := literals it + 1, ei_pointer := ei_pointer it + 1\<rparr>"
    have lit: "literals it < lw it" "ei_pointer it + 1 < length (ei_buffer it)" using ok False by auto
    have "iterator_words it = ei_buffer it ! (ei_pointer it + 1) # iterator_words ?it"
      using True False lit by (simp add: iterator_words_def Cons_nth_drop_Suc [symmetric] Suc_diff_Suc [symmetric])
    moreover have "ewah_iterator_next it = Inr (Some (ei_buffer it ! (ei_pointer it + 1), iterator_advance ?it))"
      using True False lit by (simp add: ewah_iterator_next_def)
    moreover have "iterator_ok (iterator_advance ?it) \<and> iterator_words (iterator_advance ?it) = iterator_words ?it"
    proof -
      have "Suc (Suc (ei_pointer it + lw it - Suc (literals it))) = Suc (ei_pointer it + lw it - literals it)" using lit by simp
      then show ?thesis using ok False lit by (intro iterator_advance_ok) auto
    qed
    ultimately show ?thesis by simp
  qed
qed (simp add: iterator_words_def ewah_iterator_next_def)

lemma ewah_iterator_init_ok:
  assumes "ewah_ok self" "ewah_busy self \<or> rlw self = 0"
  shows "iterator_ok (ewah_iterator_init self) \<and> iterator_words (ewah_iterator_init self) = ewah_words self"
proof (cases "ewah_busy self")
  case True
  then have "ewah_complete (buffer self)" "0 < length (buffer self)" using assms(1) by (auto elim!: ewah_ok_cases)
  then show ?thesis
    using read_new_rlw_ok [of "\<lparr>ei_buffer = buffer self, ei_pointer = 0, compressed = 0, literals = 0, rl = 0, lw = 0, ei_b = False\<rparr>"]
    by (simp add: ewah_iterator_init_def ewah_words_def)
next
  case False
  then obtain w b where "self = seg [] w [] b" "rlw_run w = 0" "rlw_lit w = 0" using assms by (auto elim!: ewah_ok_cases)
  then show ?thesis
    by (simp add: ewah_iterator_init_def read_new_rlw_def read_rlw_loop.simps iterator_ok_def iterator_words_def ewah_words_def)
qed

text \<open>
  The loops \<open>while (ewah_iterator_next(&word, &it))\<close>: the body may leave the loop with a result.
\<close>

function ewah_while :: "(u64 \<Rightarrow> 's \<Rightarrow> 'r + 's) \<Rightarrow> 's \<Rightarrow> ewah_iterator \<Rightarrow> cfault + ('r + 's)" where
  "ewah_while f s it =
     (case ewah_iterator_next it of
        Inl e \<Rightarrow> Inl e
      | Inr None \<Rightarrow> Inr (Inr s)
      | Inr (Some (word, it)) \<Rightarrow> (case f word s of Inl r \<Rightarrow> Inr (Inl r) | Inr s \<Rightarrow> ewah_while f s it))"
  by pat_completeness auto
termination
  by (relation "inv_image iterator_rel (\<lambda>(f, s, it). it)") (auto intro: wf_iterator_rel iterator_next_rel)

declare ewah_while.simps [simp del]

primrec list_while :: "('w \<Rightarrow> 's \<Rightarrow> 'r + 's) \<Rightarrow> 's \<Rightarrow> 'w list \<Rightarrow> 'r + 's" where
  "list_while f s [] = Inr s"
| "list_while f s (w # ws) = (case f w s of Inl r \<Rightarrow> Inl r | Inr s \<Rightarrow> list_while f s ws)"

lemma ewah_while_eq: "iterator_ok it \<Longrightarrow> ewah_while f s it = Inr (list_while f s (iterator_words it))"
proof (induction "iterator_words it" arbitrary: it s)
  case Nil
  then show ?case using ewah_iterator_next_ok [OF Nil(2)] by (simp add: ewah_while.simps)
next
  case (Cons w ws)
  obtain it' where it': "ewah_iterator_next it = Inr (Some (w, it'))" "iterator_ok it'" "iterator_words it' = ws"
    using ewah_iterator_next_ok [OF Cons.prems] by (simp flip: Cons.hyps(2)) blast
  then show ?case using Cons.hyps(1) [of it']
    by (simp add: ewah_while.simps [of f s it] split: sum.split flip: Cons.hyps(2))
qed

section \<open>Bitmaps\<close>

definition EWAH_BLOCK :: "nat \<Rightarrow> nat" where "EWAH_BLOCK x = x div BITS_IN_EWORD"

definition alloc_nr :: "nat \<Rightarrow> nat" where "alloc_nr x = (x + 16) * 3 div 2"

definition bitmap_word_alloc :: "nat \<Rightarrow> bitmap" where "bitmap_word_alloc word_alloc = replicate word_alloc 0"

definition bitmap_new :: bitmap where "bitmap_new = bitmap_word_alloc 32"

definition bitmap_dup :: "bitmap \<Rightarrow> bitmap" where
  "bitmap_dup src = (let dst = bitmap_word_alloc (length src) in src @ drop (length src) dst)"

definition bitmap_grow :: "bitmap \<Rightarrow> nat \<Rightarrow> bitmap" where
  "bitmap_grow self word_alloc =
     (let old_size = length self;
          alloc = (if word_alloc > old_size then (if alloc_nr old_size < word_alloc then word_alloc else alloc_nr old_size) else old_size) in
      self @ replicate (alloc - old_size) 0)"

definition bitmap_set :: "bitmap \<Rightarrow> nat \<Rightarrow> bitmap" where
  "bitmap_set self pos =
     (let block = EWAH_BLOCK pos; self = bitmap_grow self (block + 1) in
      self[block := self ! block OR EWAH_MASK pos])"

definition bitmap_unset :: "bitmap \<Rightarrow> nat \<Rightarrow> bitmap" where
  "bitmap_unset self pos =
     (let block = EWAH_BLOCK pos in
      if block < length self then self[block := self ! block AND NOT (EWAH_MASK pos)] else self)"

definition bitmap_get :: "bitmap \<Rightarrow> nat \<Rightarrow> bool" where
  "bitmap_get self pos \<longleftrightarrow>
     (let block = EWAH_BLOCK pos in block < length self \<and> self ! block AND EWAH_MASK pos \<noteq> 0)"

fun to_ewah_loop :: "u64 list \<Rightarrow> ewah_bitmap \<Rightarrow> nat \<Rightarrow> u64 \<Rightarrow> ewah_bitmap" where
  "to_ewah_loop [] ewah running_empty_words last_word = fst (ewah_add ewah last_word)"
| "to_ewah_loop (word # words) ewah running_empty_words last_word =
     (if word = 0 then to_ewah_loop words ewah (running_empty_words + 1) last_word
      else
        let ewah = (if last_word \<noteq> 0 then fst (ewah_add ewah last_word) else ewah);
            (ewah, running_empty_words) =
              (if running_empty_words > 0 then (fst (ewah_add_empty_words ewah False running_empty_words), 0)
               else (ewah, running_empty_words)) in
        to_ewah_loop words ewah running_empty_words word)"

definition bitmap_to_ewah :: "bitmap \<Rightarrow> ewah_bitmap" where
  "bitmap_to_ewah bitmap = to_ewah_loop bitmap ewah_new 0 0"

definition ewah_to_bitmap :: "ewah_bitmap \<Rightarrow> cfault + bitmap" where
  "ewah_to_bitmap ewah =
     (case ewah_while (\<lambda>blowup words. Inr (words @ [blowup]) :: unit + bitmap) [] (ewah_iterator_init ewah) of
        Inl e \<Rightarrow> Inl e
      | Inr (Inl _) \<Rightarrow> Inl Bug
      | Inr (Inr words) \<Rightarrow> Inr words)"

definition bitmap_and_not :: "bitmap \<Rightarrow> bitmap \<Rightarrow> bitmap" where
  "bitmap_and_not self other =
     (let n = (if length self < length other then length self else length other) in
      fold (\<lambda>i self. self[i := self ! i AND NOT (other ! i)]) [0..<n] self)"

definition bitmap_or :: "bitmap \<Rightarrow> bitmap \<Rightarrow> bitmap" where
  "bitmap_or self other =
     fold (\<lambda>i self. self[i := self ! i OR other ! i]) [0..<length other] (bitmap_grow self (length other))"

fun is_subset_loop :: "ewah_iterator \<Rightarrow> bitmap \<Rightarrow> cfault + bool" where
  "is_subset_loop it [] =
     (case ewah_while (\<lambda>word s. if word \<noteq> 0 then Inl False else Inr s) () it of
        Inl e \<Rightarrow> Inl e
      | Inr (Inl r) \<Rightarrow> Inr r
      | Inr (Inr _) \<Rightarrow> Inr True)"
| "is_subset_loop it (o_word # other) =
     (case ewah_iterator_next it of
        Inl e \<Rightarrow> Inl e
      | Inr None \<Rightarrow> Inr True
      | Inr (Some (word, it)) \<Rightarrow> if word AND NOT o_word \<noteq> 0 then Inr False else is_subset_loop it other)"

definition ewah_bitmap_is_subset :: "ewah_bitmap \<Rightarrow> bitmap \<Rightarrow> cfault + bool" where
  "ewah_bitmap_is_subset self other = is_subset_loop (ewah_iterator_init self) other"

definition bitmap_or_ewah :: "bitmap \<Rightarrow> ewah_bitmap \<Rightarrow> cfault + bitmap" where
  "bitmap_or_ewah self other =
     (let other_final = bit_size other div BITS_IN_EWORD + 1;
          self = (if length self < other_final then self @ replicate (other_final - length self) 0 else self) in
      case ewah_while (\<lambda>word (self, i). if i < length self then Inr (self[i := self ! i OR word], i + 1) else Inl Undef)
             (self, 0 :: nat) (ewah_iterator_init other) of
        Inl e \<Rightarrow> Inl e
      | Inr (Inl e) \<Rightarrow> Inl e
      | Inr (Inr (self, i)) \<Rightarrow> Inr self)"

definition bitmap_popcount :: "bitmap \<Rightarrow> nat" where
  "bitmap_popcount self = fold (\<lambda>word n. n + unat (ewah_bit_popcount64 word)) self 0"

definition ewah_bitmap_popcount :: "ewah_bitmap \<Rightarrow> cfault + nat" where
  "ewah_bitmap_popcount self =
     (case ewah_while (\<lambda>word n. Inr (n + unat (ewah_bit_popcount64 word)) :: unit + nat) 0 (ewah_iterator_init self) of
        Inl e \<Rightarrow> Inl e
      | Inr (Inl _) \<Rightarrow> Inl Bug
      | Inr (Inr n) \<Rightarrow> Inr n)"

fun bitmap_is_empty :: "bitmap \<Rightarrow> bool" where
  "bitmap_is_empty [] = True"
| "bitmap_is_empty (word # self) = (if word \<noteq> 0 then False else bitmap_is_empty self)"

fun equals_loop :: "bitmap \<Rightarrow> bitmap \<Rightarrow> bool" where
  "equals_loop [] big = bitmap_is_empty big"
| "equals_loop (s # small) big = (if s \<noteq> hd big then False else equals_loop small (tl big))"

definition bitmap_equals :: "bitmap \<Rightarrow> bitmap \<Rightarrow> bool" where
  "bitmap_equals self other = (if length self < length other then equals_loop self other else equals_loop other self)"

definition bitmap_equals_ewah :: "bitmap \<Rightarrow> ewah_bitmap \<Rightarrow> cfault + bool" where
  "bitmap_equals_ewah self other =
     (case ewah_while (\<lambda>word rest. case rest of
               [] \<Rightarrow> if word \<noteq> 0 then Inl False else Inr []
             | x # rest \<Rightarrow> if word \<noteq> x then Inl False else Inr rest) self (ewah_iterator_init other) of
        Inl e \<Rightarrow> Inl e
      | Inr (Inl r) \<Rightarrow> Inr r
      | Inr (Inr rest) \<Rightarrow> Inr (bitmap_is_empty rest))"

definition bitmap_is_subset :: "bitmap \<Rightarrow> bitmap \<Rightarrow> bool" where
  "bitmap_is_subset self other =
     (let common_size = (if length self < length other then length self else length other) in
      if \<not> length self < length other \<and> (\<exists>i \<in> set [common_size..<length self]. self ! i \<noteq> 0) then True
      else (\<exists>i \<in> set [0..<common_size]. self ! i AND NOT (other ! i) \<noteq> 0))"

section \<open>Bitmaps as sets\<close>

definition wnth :: "u64 list \<Rightarrow> nat \<Rightarrow> u64" where
  "wnth ws k = (if k < length ws then ws ! k else 0)"

lemma wnth_simps [simp]: "wnth [] k = 0" "wnth (w # ws) 0 = w" "wnth (w # ws) (Suc k) = wnth ws k"
  by (simp_all add: wnth_def)

lemma word_bits_iff: "p \<in> word_bits ws \<longleftrightarrow> bit (wnth ws (p div BITS_IN_EWORD)) (p mod BITS_IN_EWORD)"
  by (simp add: word_bits_def wnth_def)

lemma bit_wnth: "bit (wnth ws k) n \<longleftrightarrow> n < BITS_IN_EWORD \<and> k * BITS_IN_EWORD + n \<in> word_bits ws"
proof (cases "n < BITS_IN_EWORD")
  case False
  then show ?thesis using bit_imp_le_length [of "wnth ws k" n] by (auto simp: BITS_IN_EWORD_def)
qed (simp add: word_bits_iff BITS_IN_EWORD_def)

lemma mod_BITS_IN_EWORD [simp]: "p mod BITS_IN_EWORD < 64"
  by (simp add: BITS_IN_EWORD_def)

lemma word_bits_eq_iff: "word_bits xs = word_bits ys \<longleftrightarrow> (\<forall>k. wnth xs k = wnth ys k)"
proof
  assume "word_bits xs = word_bits ys"
  then show "\<forall>k. wnth xs k = wnth ys k" by (auto simp: bit_eq_iff bit_wnth)
qed (auto simp: word_bits_iff)

lemma word_bits_subset_iff: "word_bits xs \<subseteq> word_bits ys \<longleftrightarrow> (\<forall>k. wnth xs k AND NOT (wnth ys k) = 0)"
proof
  assume sub: "word_bits xs \<subseteq> word_bits ys"
  show "\<forall>k. wnth xs k AND NOT (wnth ys k) = 0"
  proof
    fix k
    show "wnth xs k AND NOT (wnth ys k) = 0" by (rule bit_eqI) (use sub in \<open>auto simp: bit_simps bit_wnth\<close>)
  qed
next
  assume zero: "\<forall>k. wnth xs k AND NOT (wnth ys k) = 0"
  show "word_bits xs \<subseteq> word_bits ys"
  proof
    fix p assume "p \<in> word_bits xs"
    then have b: "bit (wnth xs (p div BITS_IN_EWORD)) (p mod BITS_IN_EWORD)" by (simp add: word_bits_iff)
    have "\<not> bit (wnth xs (p div BITS_IN_EWORD) AND NOT (wnth ys (p div BITS_IN_EWORD))) (p mod BITS_IN_EWORD)"
      using zero by simp
    with b show "p \<in> word_bits ys" by (auto simp: word_bits_iff bit_simps dest: bit_imp_le_length)
  qed
qed

lemma wnth_grow: "wnth (bitmap_grow self n) k = wnth self k" "n \<le> length (bitmap_grow self n)"
  by (auto simp: bitmap_grow_def wnth_def nth_append Let_def)

lemma wnth_append_zeros: "wnth (ws @ replicate n 0) k = wnth ws k"
  by (simp add: wnth_def nth_append)

lemma and_EWAH_MASK: "w AND EWAH_MASK p \<noteq> 0 \<longleftrightarrow> bit w (p mod BITS_IN_EWORD)"
proof -
  have "w AND EWAH_MASK p = (if bit w (p mod BITS_IN_EWORD) then EWAH_MASK p else 0)"
    by (rule bit_eqI) (auto simp: bit_simps bit_EWAH_MASK)
  moreover have "EWAH_MASK p \<noteq> 0" using bit_EWAH_MASK [of p "p mod BITS_IN_EWORD"] by auto
  ultimately show ?thesis by simp
qed

lemma bitmap_get_iff: "bitmap_get self p \<longleftrightarrow> p \<in> word_bits self"
  by (simp add: bitmap_get_def word_bits_def EWAH_BLOCK_def and_EWAH_MASK Let_def)

lemma EWAH_BLOCK_pos: "q div BITS_IN_EWORD = p div BITS_IN_EWORD \<Longrightarrow> q mod BITS_IN_EWORD = p mod BITS_IN_EWORD \<Longrightarrow> q = p"
  by (metis div_mult_mod_eq)

lemma bitmap_set_bits: "word_bits (bitmap_set self p) = insert p (word_bits self)"
proof -
  let ?self = "bitmap_grow self (EWAH_BLOCK p + 1)"
  have len: "EWAH_BLOCK p < length ?self" using wnth_grow(2) [of "EWAH_BLOCK p + 1" self] by simp
  then have "wnth (bitmap_set self p) k = (if k = EWAH_BLOCK p then wnth self k OR EWAH_MASK p else wnth self k)" for k
    using wnth_grow(1) [of self "EWAH_BLOCK p + 1" k] by (auto simp: bitmap_set_def Let_def wnth_def nth_list_update)
  then show ?thesis
    by (auto simp: word_bits_iff EWAH_BLOCK_def bit_simps bit_EWAH_MASK intro: EWAH_BLOCK_pos split: if_splits)
qed

lemma bitmap_unset_bits: "word_bits (bitmap_unset self p) = word_bits self - {p}"
proof -
  have "wnth (bitmap_unset self p) k = (if k = EWAH_BLOCK p then wnth self k AND NOT (EWAH_MASK p) else wnth self k)" for k
    by (auto simp: bitmap_unset_def Let_def wnth_def nth_list_update)
  then show ?thesis
    by (auto simp: word_bits_iff EWAH_BLOCK_def bit_simps bit_EWAH_MASK intro: EWAH_BLOCK_pos split: if_splits)
qed

lemma fold_update:
  "n \<le> length xs \<Longrightarrow> length (fold (\<lambda>i xs. xs[i := g i (xs ! i)]) [0..<n] xs) = length xs \<and>
    (\<forall>k < length xs. fold (\<lambda>i xs. xs[i := g i (xs ! i)]) [0..<n] xs ! k = (if k < n then g k (xs ! k) else xs ! k))"
  by (induction n) (auto simp: nth_list_update)

lemma bitmap_and_not_bits: "word_bits (bitmap_and_not self other) = word_bits self - word_bits other"
proof -
  define n where "n = (if length self < length other then length self else length other)"
  have "wnth (bitmap_and_not self other) k = wnth self k AND NOT (wnth other k)" for k
    using fold_update [of n self "\<lambda>i w. w AND NOT (other ! i)"]
    by (auto simp: bitmap_and_not_def Let_def n_def [symmetric] wnth_def) (auto simp: n_def split: if_splits)
  then show ?thesis by (auto simp: word_bits_iff bit_simps)
qed

lemma bitmap_or_bits: "word_bits (bitmap_or self other) = word_bits self \<union> word_bits other"
proof -
  have "wnth (bitmap_or self other) k = wnth self k OR wnth other k" for k
    using fold_update [of "length other" "bitmap_grow self (length other)" "\<lambda>i w. w OR other ! i"] wnth_grow(1) [of self "length other" k]
      wnth_grow(2) [of "length other" self]
    by (auto simp: bitmap_or_def wnth_def split: if_splits)
  then show ?thesis by (auto simp: word_bits_iff bit_simps)
qed

lemma bitmap_is_empty_iff: "bitmap_is_empty self \<longleftrightarrow> word_bits self = {}"
proof -
  have "bitmap_is_empty self \<longleftrightarrow> (\<forall>k. wnth self k = 0)"
  proof (induction self)
    case (Cons w self)
    have "(\<forall>k. wnth (w # self) k = 0) \<longleftrightarrow> w = 0 \<and> (\<forall>k. wnth self k = 0)"
      by (metis nat.exhaust wnth_simps(2,3))
    with Cons show ?case by simp
  qed simp
  then show ?thesis using word_bits_eq_iff [of self "[]"] by simp
qed

lemma wnth_all_Cons: "(\<forall>k. P (wnth (x # xs) k) (wnth (y # ys) k)) \<longleftrightarrow> P x y \<and> (\<forall>k. P (wnth xs k) (wnth ys k))"
  by (metis nat.exhaust wnth_simps(2,3))

lemma word_bits_Cons:
  "word_bits (x # xs) = word_bits (y # ys) \<longleftrightarrow> x = y \<and> word_bits xs = word_bits ys"
  "word_bits (x # xs) \<subseteq> word_bits (y # ys) \<longleftrightarrow> x AND NOT y = 0 \<and> word_bits xs \<subseteq> word_bits ys"
  "word_bits (x # xs) = {} \<longleftrightarrow> x = 0 \<and> word_bits xs = {}" "{} = word_bits (x # xs) \<longleftrightarrow> x = 0 \<and> {} = word_bits xs"
proof -
  show "word_bits (x # xs) = word_bits (y # ys) \<longleftrightarrow> x = y \<and> word_bits xs = word_bits ys"
    unfolding word_bits_eq_iff by (rule wnth_all_Cons)
  show "word_bits (x # xs) \<subseteq> word_bits (y # ys) \<longleftrightarrow> x AND NOT y = 0 \<and> word_bits xs \<subseteq> word_bits ys"
    unfolding word_bits_subset_iff by (rule wnth_all_Cons)
  show empty: "word_bits (x # xs) = {} \<longleftrightarrow> x = 0 \<and> word_bits xs = {}"
    unfolding bitmap_is_empty_iff [symmetric] by simp
  then show "{} = word_bits (x # xs) \<longleftrightarrow> x = 0 \<and> {} = word_bits xs" by blast
qed

lemma equals_loop_iff: "length xs \<le> length ys \<Longrightarrow> equals_loop xs ys \<longleftrightarrow> word_bits xs = word_bits ys"
proof (induction xs ys rule: equals_loop.induct)
  case (1 big)
  then show ?case by (auto simp: bitmap_is_empty_iff)
next
  case (2 x xs big)
  then obtain y ys where "big = y # ys" by (cases big) auto
  with 2 show ?case by (simp add: word_bits_Cons)
qed

lemma bitmap_equals_iff: "bitmap_equals self other \<longleftrightarrow> word_bits self = word_bits other"
  by (auto simp: bitmap_equals_def equals_loop_iff)

section \<open>Between the two kinds\<close>

lemma word_bits_snoc_zeros: "word_bits (ws @ replicate n 0) = word_bits ws" "word_bits (ws @ [0]) = word_bits ws"
  using wnth_append_zeros [of ws] wnth_append_zeros [of ws 1] by (auto simp: word_bits_iff)

lemma to_ewah_loop_ok:
  assumes "ewah_full ewah"
  shows "ewah_full (to_ewah_loop ws ewah n w) \<and>
    word_bits (ewah_words (to_ewah_loop ws ewah n w)) = word_bits (ewah_words ewah @ (if w \<noteq> 0 then [w] else []) @ replicate n 0 @ ws)"
  using assms
proof (induction ws ewah n w rule: to_ewah_loop.induct)
  case (1 ewah n w)
  then show ?case using ewah_full_add [OF 1, of w] word_bits_snoc_zeros(1) [of "ewah_words ewah @ (if w \<noteq> 0 then [w] else [])" n]
    by (simp add: word_bits_snoc_zeros)
next
  case (2 word ws ewah n w)
  show ?case
  proof (cases "word = 0")
    case True
    have "replicate (n + 1) (0 :: u64) @ ws = replicate n 0 @ 0 # ws" by (simp add: replicate_app_Cons_same)
    with 2(1) [OF True 2(3)] True show ?thesis by (simp add: replicate_app_Cons_same)
  next
    case False
    define e1 where "e1 = (if w \<noteq> 0 then fst (ewah_add ewah w) else ewah)"
    define e2 where "e2 = (if n > 0 then fst (ewah_add_empty_words e1 False n) else e1)"
    have e1: "ewah_full e1 \<and> ewah_words e1 = ewah_words ewah @ (if w \<noteq> 0 then [w] else [])"
      using ewah_full_add [OF 2(3), of w] 2(3) by (simp add: e1_def)
    have e2: "ewah_full e2 \<and> ewah_words e2 = ewah_words ewah @ (if w \<noteq> 0 then [w] else []) @ replicate n 0"
      using ewah_full_add_empty [of e1 False n] e1 by (auto simp: e2_def fill_def)
    have loop: "to_ewah_loop (word # ws) ewah n w = to_ewah_loop ws e2 0 word"
      using False by (simp add: Let_def e1_def e2_def)
    have "(if n > 0 then (fst (ewah_add_empty_words e1 False n), 0) else (e1, n)) = (e2, 0)" by (simp add: e2_def)
    from 2(2) [OF False e1_def this [symmetric] refl] e2 False show ?thesis unfolding loop by simp
  qed
qed

lemma bitmap_to_ewah_ok: "ewah_full (bitmap_to_ewah b) \<and> word_bits (ewah_words (bitmap_to_ewah b)) = word_bits b"
proof -
  from to_ewah_loop_ok [OF ewah_full_new, of b 0 0] show ?thesis using ewah_new_wf by (simp add: bitmap_to_ewah_def)
qed

lemma list_while_append: "list_while (\<lambda>w ws. Inr (ws @ [w])) s ws = Inr (s @ ws)"
  by (induction ws arbitrary: s) auto

lemma iterate_wf:
  "ewah_wf ewah \<Longrightarrow> ewah_while f s (ewah_iterator_init ewah) = Inr (list_while f s (ewah_words ewah))"
  using ewah_iterator_init_ok [of ewah] by (simp add: ewah_wf_def ewah_while_eq)

lemma ewah_to_bitmap_eq: "ewah_wf ewah \<Longrightarrow> ewah_to_bitmap ewah = Inr (ewah_words ewah)"
  by (simp add: ewah_to_bitmap_def iterate_wf list_while_append)

lemma equals_while:
  "(case list_while (\<lambda>word rest. case rest of
        [] \<Rightarrow> if word \<noteq> 0 then Inl False else Inr []
      | x # rest \<Rightarrow> if word \<noteq> x then Inl False else Inr rest) self ws of
      Inl r \<Rightarrow> r | Inr rest \<Rightarrow> bitmap_is_empty rest) \<longleftrightarrow> word_bits self = word_bits ws"
proof (induction ws arbitrary: self)
  case Nil
  then show ?case by (simp add: bitmap_is_empty_iff)
next
  case (Cons w ws)
  show ?case
  proof (cases self)
    case Nil
    with Cons [of "[]"] show ?thesis by (simp add: word_bits_Cons)
  next
    case (Cons x xs)
    with Cons.IH [of xs] show ?thesis by (auto simp: word_bits_Cons)
  qed
qed

lemma bitmap_equals_ewah_eq:
  assumes "ewah_wf other"
  shows "bitmap_equals_ewah self other = Inr (word_bits self = word_bits (ewah_words other))"
  using equals_while [of self "ewah_words other"] by (simp add: bitmap_equals_ewah_def iterate_wf [OF assms] split: sum.splits)

lemma subset_while: "list_while (\<lambda>word s. if word \<noteq> 0 then Inl False else Inr s) () ws = (if bitmap_is_empty ws then Inr () else Inl False)"
  by (induction ws) auto

lemma is_subset_loop_eq: "iterator_ok it \<Longrightarrow> is_subset_loop it other = Inr (word_bits (iterator_words it) \<subseteq> word_bits other)"
proof (induction it other rule: is_subset_loop.induct)
  case (1 it)
  then show ?case by (simp add: ewah_while_eq subset_while bitmap_is_empty_iff)
next
  case (2 it o_word other)
  show ?case
  proof (cases "iterator_words it")
    case Nil
    then show ?thesis using ewah_iterator_next_ok [OF 2(2)] by simp
  next
    case (Cons w ws)
    obtain it' where it': "ewah_iterator_next it = Inr (Some (w, it'))" "iterator_ok it'" "iterator_words it' = ws"
      using ewah_iterator_next_ok [OF 2(2)] Cons by auto
    then have "is_subset_loop it' other = Inr (word_bits ws \<subseteq> word_bits other)" if "\<not> w AND NOT o_word \<noteq> 0"
      using 2(1) [OF it'(1) refl refl that] by simp
    then show ?thesis using it'(1) Cons by (simp add: word_bits_Cons)
  qed
qed

lemma ewah_bitmap_is_subset_eq:
  "ewah_wf self \<Longrightarrow> ewah_bitmap_is_subset self other = Inr (word_bits (ewah_words self) \<subseteq> word_bits other)"
  using ewah_iterator_init_ok [of self] by (simp add: ewah_bitmap_is_subset_def ewah_wf_def is_subset_loop_eq)

lemma or_while:
  assumes "i + length ws \<le> length self"
  shows "\<exists>self'. list_while (\<lambda>word (self, i). if i < length self then Inr (self[i := self ! i OR word], i + 1) else Inl Undef) (self, i) ws =
      Inr (self', i + length ws) \<and> length self' = length self \<and>
    (\<forall>k. wnth self' k = wnth self k OR (if i \<le> k then wnth ws (k - i) else 0))"
  using assms
proof (induction ws arbitrary: self i)
  case (Cons w ws)
  let ?self = "self[i := self ! i OR w]"
  obtain self' where self': "list_while (\<lambda>word (self, i). if i < length self then Inr (self[i := self ! i OR word], i + 1) else Inl Undef) (?self, i + 1) ws =
      Inr (self', i + 1 + length ws)" "length self' = length self"
    "\<And>k. wnth self' k = wnth ?self k OR (if i + 1 \<le> k then wnth ws (k - (i + 1)) else 0)"
    using Cons.IH [of "i + 1" ?self] Cons.prems by auto
  have "wnth self' k = wnth self k OR (if i \<le> k then wnth (w # ws) (k - i) else 0)" for k
  proof -
    consider "k < i" | "k = i" | j where "k = i + Suc j" by (metis add_Suc_right less_imp_Suc_add linorder_neqE_nat)
    then show ?thesis
    proof cases
      case 2
      with self'(3) [of k] Cons.prems show ?thesis by (simp add: wnth_def)
    qed (use self'(3) [of k] in \<open>simp_all add: wnth_def nth_list_update\<close>)
  qed
  with self' Cons.prems show ?case by auto
qed simp

text \<open>
  C39: Adding a compressed bitmap to an uncompressed one.  \<open>bitmap_or_ewah\<close> makes room from the bit
  size of the compressed bitmap; for a well-formed one every word it writes is inside, and the
  result is the union.
\<close>

theorem bitmap_or_ewah_safe:
  assumes "ewah_wf other"
  shows "\<exists>self'. bitmap_or_ewah self other = Inr self' \<and> word_bits self' = word_bits self \<union> word_bits (ewah_words other)"
proof -
  define final where "final = bit_size other div BITS_IN_EWORD + 1"
  define self0 where "self0 = (if length self < final then self @ replicate (final - length self) 0 else self)"
  have "length (ewah_words other) \<le> final"
    using assms by (auto simp: ewah_wf_def DIV_ROUND_UP_def final_def BITS_IN_EWORD_def)
  then have "0 + length (ewah_words other) \<le> length self0" by (auto simp: self0_def)
  from or_while [OF this] obtain self' where self':
    "list_while (\<lambda>word (self, i). if i < length self then Inr (self[i := self ! i OR word], i + 1) else Inl Undef) (self0, 0) (ewah_words other) =
      Inr (self', length (ewah_words other))"
    "\<And>k. wnth self' k = wnth self0 k OR wnth (ewah_words other) k" by auto
  have "wnth self0 k = wnth self k" for k by (simp add: self0_def wnth_append_zeros)
  then have "word_bits self' = word_bits self \<union> word_bits (ewah_words other)"
    using self'(2) by (auto simp: word_bits_iff bit_simps)
  moreover have "bitmap_or_ewah self other = Inr self'"
    using self'(1) unfolding bitmap_or_ewah_def Let_def final_def [symmetric] self0_def [symmetric] iterate_wf [OF assms] by simp
  ultimately show ?thesis by blast
qed

theorem bitmap_or_ewah_safe_witness:
  "\<exists>self'. bitmap_or_ewah [1] (fst (ewah_add (fst (ewah_add ewah_new 0)) 5)) = Inr self' \<and>
    word_bits self' = word_bits [1] \<union> word_bits (ewah_words (fst (ewah_add (fst (ewah_add ewah_new 0)) 5)))"
proof (rule bitmap_or_ewah_safe)
  have "ewah_full (fst (ewah_add (fst (ewah_add ewah_new 0)) 5))" by (simp add: ewah_full_add ewah_full_new)
  then show "ewah_wf (fst (ewah_add (fst (ewah_add ewah_new 0)) 5))" by (rule ewah_full_wf)
qed

text \<open>
  C19: Compressing a bitmap.  \<open>bitmap_to_ewah\<close> yields a well-formed compressed bitmap with the same
  bits; decompressing it succeeds and gives an equal bitmap, and both comparisons agree.
\<close>

theorem bitmap_ewah_roundtrip:
  "ewah_wf (bitmap_to_ewah bitmap) \<and>
    (\<exists>bitmap'. ewah_to_bitmap (bitmap_to_ewah bitmap) = Inr bitmap' \<and> bitmap_equals bitmap bitmap' \<and>
      (\<forall>pos. bitmap_get bitmap' pos = bitmap_get bitmap pos)) \<and>
    (\<forall>bitmap'. bitmap_equals_ewah bitmap' (bitmap_to_ewah bitmap) = Inr (bitmap_equals bitmap' bitmap))"
proof -
  have wf: "ewah_wf (bitmap_to_ewah bitmap)" using bitmap_to_ewah_ok [of bitmap] by (simp add: ewah_full_wf)
  with bitmap_to_ewah_ok [of bitmap] show ?thesis
    by (simp add: ewah_to_bitmap_eq bitmap_equals_iff bitmap_get_iff bitmap_equals_ewah_eq)
qed

text \<open>
  C40: The two subset tests.  \<open>ewah_bitmap_is_subset\<close> returns 1 for a subset, as the header promises
  for both tests; \<open>bitmap_is_subset\<close> returns 1 exactly if its first argument is not a subset.
\<close>

theorem bitmap_is_subset_inverted:
  "(bitmap_is_subset self other \<longleftrightarrow> \<not> word_bits self \<subseteq> word_bits other) \<and>
    ewah_bitmap_is_subset (bitmap_to_ewah self) other = Inr (word_bits self \<subseteq> word_bits other)"
proof
  define n where "n = (if length self < length other then length self else length other)"
  have n: "n \<le> length self" "n \<le> length other" "n = length self \<or> n = length other" by (auto simp: n_def)
  have "bitmap_is_subset self other \<longleftrightarrow> (\<exists>k. wnth self k AND NOT (wnth other k) \<noteq> 0)"
  proof
    assume "bitmap_is_subset self other"
    then consider i where "\<not> length self < length other" "n \<le> i" "i < length self" "self ! i \<noteq> 0"
      | i where "i < n" "self ! i AND NOT (other ! i) \<noteq> 0"
      by (auto simp: bitmap_is_subset_def Let_def n_def [symmetric] split: if_splits)
    then show "\<exists>k. wnth self k AND NOT (wnth other k) \<noteq> 0"
    proof cases
      case (1 i)
      then have "wnth self i AND NOT (wnth other i) \<noteq> 0" by (simp add: wnth_def n_def)
      then show ?thesis by blast
    next
      case (2 i)
      then have "wnth self i AND NOT (wnth other i) \<noteq> 0" using n by (simp add: wnth_def)
      then show ?thesis by blast
    qed
  next
    assume "\<exists>k. wnth self k AND NOT (wnth other k) \<noteq> 0"
    then obtain k where k: "wnth self k AND NOT (wnth other k) \<noteq> 0" by blast
    then have "k < length self" by (auto simp: wnth_def split: if_splits)
    with k n show "bitmap_is_subset self other"
      by (cases "k < length other") (auto simp: bitmap_is_subset_def Let_def n_def [symmetric] wnth_def intro!: bexI [of _ k] split: if_splits)
  qed
  then show "bitmap_is_subset self other \<longleftrightarrow> \<not> word_bits self \<subseteq> word_bits other" by (simp add: word_bits_subset_iff)
  show "ewah_bitmap_is_subset (bitmap_to_ewah self) other = Inr (word_bits self \<subseteq> word_bits other)"
    using bitmap_to_ewah_ok [of self] by (simp add: ewah_bitmap_is_subset_eq ewah_full_wf)
qed

section \<open>Counting\<close>

lemma word_bits_Cons_split: "word_bits (w # ws) = {i. bit w i} \<union> (\<lambda>p. p + BITS_IN_EWORD) ` word_bits ws"
proof -
  have "p \<in> word_bits (w # ws) \<longleftrightarrow> bit w p \<or> (\<exists>q \<in> word_bits ws. p = q + BITS_IN_EWORD)" for p
  proof (cases "p < BITS_IN_EWORD")
    case True
    then show ?thesis by (auto simp: word_bits_iff)
  next
    case False
    then obtain q where q: "p = q + BITS_IN_EWORD" using le_Suc_ex by (metis add.commute not_less)
    moreover have "\<not> bit w p" using False bit_imp_le_length [of w p] by (auto simp: BITS_IN_EWORD_def)
    moreover have "(q + 64) div 64 = Suc (q div 64)" by simp
    ultimately show ?thesis by (auto simp: word_bits_iff BITS_IN_EWORD_def simp del: div_add_self2)
  qed
  then show ?thesis by auto
qed

lemma card_word_bits: "card (word_bits ws) = sum_list (map word_count ws)"
proof (induction ws)
  case Nil
  then show ?case by (simp add: word_bits_iff flip: ex_in_conv)
next
  case (Cons w ws)
  have small: "i < BITS_IN_EWORD" if "bit w i" for i using bit_imp_le_length [OF that] by (simp add: BITS_IN_EWORD_def)
  have "finite (word_bits ws)" by (rule finite_subset [of _ "{..<length ws * BITS_IN_EWORD}"]) (auto simp: word_bits_less)
  moreover have "finite {i. bit w i}" by (rule finite_subset [of _ "{..<BITS_IN_EWORD}"]) (auto simp: small)
  ultimately have "card (word_bits (w # ws)) = card {i. bit w i} + card ((\<lambda>p. p + BITS_IN_EWORD) ` word_bits ws)"
    unfolding word_bits_Cons_split by (intro card_Un_disjoint) (auto dest: small)
  with Cons show ?case by (simp add: card_image inj_on_def word_count_def)
qed

lemma popcount_fold: "fold (\<lambda>word n. n + unat (ewah_bit_popcount64 word)) ws n = n + sum_list (map word_count ws)"
  by (induction ws arbitrary: n) (auto simp: ewah_bit_popcount64_eq)

lemma popcount_while:
  "list_while (\<lambda>word n. Inr (n + unat (ewah_bit_popcount64 word))) n ws = Inr (n + sum_list (map word_count ws))"
  by (induction ws arbitrary: n) (auto simp: ewah_bit_popcount64_eq)

text \<open>
  Counting bits.  The parallel additions and the multiplication of \<open>ewah_bit_popcount64\<close> count the
  bits of each word without overflow, so that both kinds of bitmap report the number of bits they
  hold.
\<close>

theorem popcounts_correct:
  "unat (ewah_bit_popcount64 x) = card {i. bit x i} \<and>
    bitmap_popcount bitmap = card {pos. bitmap_get bitmap pos} \<and>
    ewah_bitmap_popcount (bitmap_to_ewah bitmap) = Inr (card {pos. bitmap_get bitmap pos})"
proof -
  have "{pos. bitmap_get bitmap pos} = word_bits bitmap" by (auto simp: bitmap_get_iff)
  moreover have "ewah_wf (bitmap_to_ewah bitmap)" using bitmap_to_ewah_ok [of bitmap] by (simp add: ewah_full_wf)
  moreover have "card (word_bits (ewah_words (bitmap_to_ewah bitmap))) = card (word_bits bitmap)" using bitmap_to_ewah_ok [of bitmap] by simp
  moreover have "unat (ewah_bit_popcount64 x) = card {i. bit x i}" by (simp add: ewah_bit_popcount64_eq word_count_def)
  ultimately show ?thesis
    by (simp add: bitmap_popcount_def popcount_fold ewah_bitmap_popcount_def iterate_wf popcount_while flip: card_word_bits)
qed

end
