(* ===== verification/Ewah_Io.thy ===== *)
theory Ewah_Io
  imports Ewah_Xor Hash_Lookup
begin

text \<open>
  \<open>ewah/ewah_io.c\<close>: writing compressed bitmaps and reading them back, and the pool of bitmaps of
  \<open>ewah/ewah_bitmap.c\<close>.  The host is little-endian, so that \<open>htonl\<close> and \<open>htonll\<close> are the byte swaps of
  \<open>compat/bswap.h\<close> and a word in memory has its least byte first.  The callback that writes is a
  function on the state of its sink that also returns what it claims to have written.
\<close>

section \<open>Byte order\<close>

definition default_swab32 :: "u32 \<Rightarrow> u32" where
  "default_swab32 val =
     drop_bit 24 (val AND 0xff000000) OR drop_bit 8 (val AND 0x00ff0000) OR
     push_bit 8 (val AND 0x0000ff00) OR push_bit 24 (val AND 0x000000ff)"

definition default_bswap64 :: "u64 \<Rightarrow> u64" where
  "default_bswap64 val =
     push_bit 56 (val AND 0x00000000000000ff) OR push_bit 40 (val AND 0x000000000000ff00) OR
     push_bit 24 (val AND 0x0000000000ff0000) OR push_bit 8 (val AND 0x00000000ff000000) OR
     drop_bit 8 (val AND 0x000000ff00000000) OR drop_bit 24 (val AND 0x0000ff0000000000) OR
     drop_bit 40 (val AND 0x00ff000000000000) OR drop_bit 56 (val AND 0xff00000000000000)"

text \<open>Words in the memory of the host.\<close>

definition mem32 :: "u32 \<Rightarrow> bytes" where "mem32 w = map (\<lambda>i. ucast (drop_bit (8 * i) w)) [0..<4]"
definition mem64 :: "u64 \<Rightarrow> bytes" where "mem64 w = map (\<lambda>i. ucast (drop_bit (8 * i) w)) [0..<8]"

definition load64 :: "bytes \<Rightarrow> u64" where
  "load64 bs = foldr (\<lambda>b w. ucast b OR push_bit 8 w) (take 8 bs) 0"

section \<open>Writing\<close>

function serialize_words :: "('d \<Rightarrow> bytes \<Rightarrow> 'd \<times> int) \<Rightarrow> 'd \<Rightarrow> u64 list \<Rightarrow> 'd \<times> bool" where
  "serialize_words write_fun data buf =
     (if 2048 \<le> length buf then
        (let (data, n) = write_fun data (concat (map (\<lambda>w. mem64 (default_bswap64 w)) (take 2048 buf))) in
         if n \<noteq> 2048 * 8 then (data, False) else serialize_words write_fun data (drop 2048 buf))
      else if buf \<noteq> [] then
        (let (data, n) = write_fun data (concat (map (\<lambda>w. mem64 (default_bswap64 w)) buf)) in
         (data, n = int (length buf * 8)))
      else (data, True))"
  by pat_completeness auto
termination by (relation "measure (\<lambda>(write_fun, data, buf). length buf)") auto

declare serialize_words.simps [simp del]

text \<open>The position of the marker is taken in bytes, as 32 bits, before it is divided.\<close>

definition ewah_serialize_to :: "ewah_bitmap \<Rightarrow> ('d \<Rightarrow> bytes \<Rightarrow> 'd \<times> int) \<Rightarrow> 'd \<Rightarrow> 'd \<times> int" where
  "ewah_serialize_to self write_fun data =
     (let (data, n) = write_fun data (mem32 (default_swab32 (of_nat (bit_size self)))) in
      if n \<noteq> 4 then (data, -1)
      else
        let (data, n) = write_fun data (mem32 (default_swab32 (of_nat (length (buffer self))))) in
        if n \<noteq> 4 then (data, -1)
        else
          let (data, ok) = serialize_words write_fun data (buffer self) in
          if \<not> ok then (data, -1)
          else
            let rlw_pos = (of_nat (rlw self * 8) :: u32);
                (data, n) = write_fun data (mem32 (default_swab32 (rlw_pos div 8))) in
            if n \<noteq> 4 then (data, -1)
            else (data, int_of (of_nat (3 * 4 + length (buffer self) * 8))))"

definition write_strbuf :: "bytes \<Rightarrow> bytes \<Rightarrow> bytes \<times> int" where
  "write_strbuf sb data = (sb @ data, int_of (of_nat (length data)))"

definition ewah_serialize_strbuf :: "ewah_bitmap \<Rightarrow> bytes \<Rightarrow> bytes \<times> int" where
  "ewah_serialize_strbuf self sb = ewah_serialize_to self write_strbuf sb"

section \<open>Reading\<close>

datatype ewah_io_error = Eof_bit_size | Eof_length | Eof_data nat | Eof_rlw

text \<open>
  The new contents of the bitmap and the number of bytes read.  The product of the number of
  words, which has 32 bits, and eight does not overflow.
\<close>

definition ewah_read_mmap :: "bytes \<Rightarrow> ewah_io_error + ewah_bitmap \<times> nat" where
  "ewah_read_mmap mapped =
     (let ptr = mapped in
      if length ptr < 4 then Inl Eof_bit_size
      else
        let new_bit_size = get_be32 ptr 0; ptr = drop 4 ptr in
        if length ptr < 4 then Inl Eof_length
        else
          let buffer_size = get_be32 ptr 0; ptr = drop 4 ptr; data_len = buffer_size * 8 in
          if length ptr < data_len then Inl (Eof_data (data_len - length ptr))
          else
            let new_buffer = map (\<lambda>i. default_bswap64 (load64 (drop (8 * i) ptr))) [0..<buffer_size];
                ptr = drop data_len ptr in
            if length ptr < 4 then Inl Eof_rlw
            else Inr (\<lparr>buffer = new_buffer, bit_size = new_bit_size, rlw = get_be32 ptr 0\<rparr>, length mapped - length (drop 4 ptr)))"

section \<open>Byte order facts\<close>

lemma length_mem [simp]: "length (mem32 v) = 4" "length (mem64 w) = 8"
  by (simp_all add: mem32_def mem64_def)

lemma less_64_cases: "(n :: nat) < 64 \<Longrightarrow> (\<And>q r. n = 8 * q + r \<Longrightarrow> q \<in> {0,1,2,3,4,5,6,7} \<Longrightarrow> r < 8 \<Longrightarrow> P) \<Longrightarrow> P"
proof -
  assume n: "n < 64" and P: "\<And>q r. n = 8 * q + r \<Longrightarrow> q \<in> {0,1,2,3,4,5,6,7} \<Longrightarrow> r < 8 \<Longrightarrow> P"
  have "n div 8 < 8" using n by (simp add: div_less_iff_less_mult)
  then have "n div 8 \<in> {0,1,2,3,4,5,6,7}" by auto
  then show P using P [of "n div 8" "n mod 8"] by simp
qed

lemma byte_mask: "(0xff :: u64) = mask 8" "(0xff00 :: u64) = push_bit 8 (mask 8)" "(0xff0000 :: u64) = push_bit 16 (mask 8)"
  "(0xff000000 :: u64) = push_bit 24 (mask 8)" "(0xff00000000 :: u64) = push_bit 32 (mask 8)"
  "(0xff0000000000 :: u64) = push_bit 40 (mask 8)" "(0xff000000000000 :: u64) = push_bit 48 (mask 8)"
  "(0xff00000000000000 :: u64) = push_bit 56 (mask 8)"
  by (simp_all add: mask_eq_exp_minus_1 push_bit_eq_mult)

lemma byte_mask32: "(0xff :: u32) = mask 8" "(0xff00 :: u32) = push_bit 8 (mask 8)" "(0xff0000 :: u32) = push_bit 16 (mask 8)"
  "(0xff000000 :: u32) = push_bit 24 (mask 8)"
  by (simp_all add: mask_eq_exp_minus_1 push_bit_eq_mult)

lemma bit_byte_mask: "bit (w AND push_bit (8 * j) (mask 8) :: 'a::len word) n \<longleftrightarrow> bit w n \<and> n div 8 = j"
  using bit_imp_le_length [of w n] by (auto simp: bit_simps div_nat_eqI)

lemmas bit_byte_masks = bit_byte_mask [of _ 0, simplified] bit_byte_mask [of _ 1, simplified] bit_byte_mask [of _ 2, simplified]
  bit_byte_mask [of _ 3, simplified] bit_byte_mask [of _ 4, simplified] bit_byte_mask [of _ 5, simplified] bit_byte_mask [of _ 6, simplified]
  bit_byte_mask [of _ 7, simplified]

lemma byte_index: "r < 8 \<Longrightarrow> (8 * k + r) div 8 = (k :: nat)" "r < 8 \<Longrightarrow> (8 * k + r) mod 8 = (r :: nat)"
  by simp_all

lemmas byte_indexes = byte_index [of _ 1, simplified] byte_index [of _ 2, simplified] byte_index [of _ 3, simplified] byte_index [of _ 4, simplified]
  byte_index [of _ 5, simplified] byte_index [of _ 6, simplified] byte_index [of _ 7, simplified] byte_index [of _ 8, simplified]
  byte_index [of _ 9, simplified] byte_index [of _ 10, simplified] byte_index [of _ 11, simplified] byte_index [of _ 12, simplified]
  byte_index [of _ 13, simplified] byte_index [of _ 14, simplified]

lemma bit_bswap64: "n < 64 \<Longrightarrow> bit (default_bswap64 w) n \<longleftrightarrow> bit w (8 * (7 - n div 8) + n mod 8)"
  unfolding default_bswap64_def byte_mask
  by (erule less_64_cases, simp only: bit_or_iff bit_push_bit_iff bit_drop_bit_eq comp_def bit_byte_masks, elim insertE emptyE)
    (simp_all add: byte_indexes)

lemma bit_swab32: "n < 32 \<Longrightarrow> bit (default_swab32 w) n \<longleftrightarrow> bit w (8 * (3 - n div 8) + n mod 8)"
  unfolding default_swab32_def byte_mask32
  by (rule less_64_cases [of n], simp, simp only: bit_or_iff bit_push_bit_iff bit_drop_bit_eq comp_def bit_byte_masks, elim insertE emptyE)
    (simp_all add: byte_indexes)

lemma bswap64_bswap64: "default_bswap64 (default_bswap64 w) = w"
proof (rule bit_word_eqI)
  fix n assume "n < LENGTH(64)"
  then have n: "n < 64" by simp
  then have "n div 8 \<le> 7" by linarith
  moreover define m where "m = 8 * (7 - n div 8) + n mod 8"
  moreover have "m < 64" "m div 8 = 7 - n div 8" "m mod 8 = n mod 8" by (simp_all add: m_def)
  ultimately show "bit (default_bswap64 (default_bswap64 w)) n = bit w n" using n
    by (simp add: bit_bswap64 flip: m_def)
qed

lemma bit_load_step: "bit (ucast (b :: byte) OR push_bit 8 w :: u64) n \<longleftrightarrow> n < 64 \<and> (if n < 8 then bit b n else bit w (n - 8))"
proof -
  have "bit b n \<longrightarrow> n < 8" "bit w (n - 8) \<longrightarrow> n - 8 < 64" using bit_imp_le_length [of b n] bit_imp_le_length [of w "n - 8"] by auto
  then show ?thesis by (auto simp: bit_or_iff bit_ucast_iff bit_push_bit_iff)
qed

lemma bit_load64:
  "length bs \<le> 8 \<Longrightarrow> bit (foldr (\<lambda>(b :: byte) w. ucast b OR push_bit 8 w) bs (0 :: u64)) n \<longleftrightarrow>
    n < 8 * length bs \<and> bit (bs ! (n div 8)) (n mod 8)"
proof (induction bs arbitrary: n)
  case (Cons b bs)
  show ?case
  proof (cases "n < 8")
    case True
    then show ?thesis by (simp add: bit_load_step)
  next
    case False
    then have n: "n div 8 = Suc ((n - 8) div 8)" "n mod 8 = (n - 8) mod 8" by (simp_all add: le_div_geq le_mod_geq)
    have "n < 64" if "n - 8 < 8 * length bs" using that Cons.prems by simp
    moreover have "n - 8 < 8 * length bs \<longleftrightarrow> n < 8 * length (b # bs)" using False by auto
    moreover have "bit (foldr (\<lambda>(b :: byte) w. ucast b OR push_bit 8 w) bs (0 :: u64)) (n - 8) \<longleftrightarrow>
      n - 8 < 8 * length bs \<and> bit (bs ! ((n - 8) div 8)) ((n - 8) mod 8)" using Cons by simp
    ultimately show ?thesis using False unfolding foldr.simps comp_def bit_load_step n by auto
  qed
qed simp

lemma load64_mem64: "load64 (mem64 w @ rest) = w"
proof (rule bit_word_eqI)
  fix n assume "n < LENGTH(64)"
  then have n: "n < 64" by simp
  then have "n div 8 < 8" by (simp add: div_less_iff_less_mult)
  then have "mem64 w ! (n div 8) = ucast (drop_bit (8 * (n div 8)) w)" by (simp add: mem64_def del: upt_rec_numeral)
  then show "bit (load64 (mem64 w @ rest)) n = bit w n" using n
    by (simp add: load64_def bit_load64 bit_simps)
qed

lemma get_be32_mem32: "get_be32 (mem32 (default_swab32 w) @ rest) 0 = unat w"
proof -
  have "(ucast (drop_bit (8 * i) (default_swab32 w)) :: byte) = ucast (drop_bit (8 * (3 - i)) w)" if "i < 4" for i
  proof (rule bit_word_eqI)
    fix n assume "n < LENGTH(8)"
    then have "n < 8" by simp
    then show "bit (ucast (drop_bit (8 * i) (default_swab32 w)) :: byte) n = bit (ucast (drop_bit (8 * (3 - i)) w) :: byte) n"
      using that by (simp add: bit_simps bit_swab32)
  qed
  then have nth: "(mem32 (default_swab32 w) @ rest) ! i = ucast (drop_bit (8 * (3 - i)) w)" if "i < 4" for i
    using that by (simp add: mem32_def nth_append del: upt_rec_numeral)
  have b: "unat (ucast (drop_bit (8 * i) w) :: byte) = unat w div 2 ^ (8 * i) mod 256" for i
    by (simp add: unsigned_ucast_eq unat_drop_bit take_bit_eq_mod)
  define q where "q = unat w div 256"
  define r where "r = q div 256"
  have "unat w = q * 256 + unat w mod 256" "q = r * 256 + q mod 256" "r = r div 256 * 256 + r mod 256" by (simp_all add: q_def r_def)
  then have sum: "((r div 256 * 256 + r mod 256) * 256 + q mod 256) * 256 + unat w mod 256 = unat w" by metis
  have high: "unat w div 2 ^ 16 = r" "unat w div 2 ^ 24 = r div 256" by (simp_all add: q_def r_def flip: div_mult2_eq)
  have top: "r div 256 mod 256 = r div 256"
    using unsigned_less [of w, where ?'a = nat] by (simp add: q_def r_def div_less_iff_less_mult flip: div_mult2_eq)
  have byte: "unat ((mem32 (default_swab32 w) @ rest) ! i) = unat w div 2 ^ (8 * (3 - i)) mod 256" if "i < 4" for i
    unfolding nth [OF that] by (rule b)
  have "get_be32 (mem32 (default_swab32 w) @ rest) 0 =
    ((unat w div 2 ^ 24 mod 256 * 256 + unat w div 2 ^ 16 mod 256) * 256 + q mod 256) * 256 + unat w mod 256"
    unfolding get_be32_def add_0 q_def using byte [of 0] byte [of 1] byte [of 2] byte [of 3] by simp
  also have "\<dots> = unat w" unfolding high top by (rule sum)
  finally show ?thesis .
qed

section \<open>Round trip\<close>

definition net64 :: "u64 \<Rightarrow> bytes" where "net64 w = mem64 (default_bswap64 w)"
definition net32 :: "u32 \<Rightarrow> bytes" where "net32 w = mem32 (default_swab32 w)"

lemma length_net [simp]: "length (net32 v) = 4" "length (net64 w) = 8" "length (concat (map net64 ws)) = 8 * length ws"
  by (auto simp: net32_def net64_def length_concat comp_def sum_list_triv)

lemma write_strbuf_small: "length data < 2 ^ 31 \<Longrightarrow> write_strbuf sb data = (sb @ data, int (length data))"
  by (simp add: write_strbuf_def int_of_small unsigned_of_nat take_bit_nat_eq_self)

lemma serialize_words_strbuf: "serialize_words write_strbuf sb ws = (sb @ concat (map net64 ws), True)"
proof (induction "length ws" arbitrary: ws sb rule: less_induct)
  case less
  have chunk: "concat (map (\<lambda>w. mem64 (default_bswap64 w)) us) = concat (map net64 us)" for us unfolding net64_def by (rule refl)
  show ?case
  proof (cases "2048 \<le> length ws")
    case True
    have "write_strbuf sb (concat (map net64 (take 2048 ws))) = (sb @ concat (map net64 (take 2048 ws)), 2048 * 8)"
      using True by (subst write_strbuf_small) auto
    moreover have "concat (map net64 (take 2048 ws)) @ concat (map net64 (drop 2048 ws)) = concat (map net64 ws)"
      by (simp flip: concat_append map_append)
    ultimately show ?thesis using less [of "drop 2048 ws" "sb @ concat (map net64 (take 2048 ws))"] True
      by (simp add: serialize_words.simps [of _ sb ws] chunk)
  next
    case False
    then have "write_strbuf sb (concat (map net64 ws)) = (sb @ concat (map net64 ws), int (length ws * 8))"
      by (subst write_strbuf_small) auto
    with False show ?thesis by (simp add: serialize_words.simps [of _ sb ws] chunk)
  qed
qed

definition ewah_image :: "ewah_bitmap \<Rightarrow> bytes" where
  "ewah_image self = net32 (of_nat (bit_size self)) @ net32 (of_nat (length (buffer self))) @ concat (map net64 (buffer self)) @
     net32 (of_nat (rlw self * 8) div 8)"

lemma length_ewah_image: "length (ewah_image self) = 12 + 8 * length (buffer self)"
  by (simp add: ewah_image_def)

lemma ewah_serialize_strbuf_eq:
  "ewah_serialize_strbuf self sb = (sb @ ewah_image self, int_of (of_nat (12 + length (buffer self) * 8)))"
  unfolding ewah_serialize_strbuf_def ewah_serialize_to_def net32_def [symmetric]
  by (simp add: write_strbuf_small serialize_words_strbuf ewah_image_def)

lemma get_be32_net32: "get_be32 (net32 w @ rest) 0 = unat w"
  by (simp add: net32_def get_be32_mem32)

lemma drop_net: "drop 4 (net32 v @ rest) = rest" "drop (length ws * 8) (concat (map net64 ws) @ rest) = rest"
  by simp_all

lemma load_words:
  "map (\<lambda>i. default_bswap64 (load64 (drop (8 * i) (concat (map net64 ws) @ rest)))) [0..<length ws] = ws"
proof (rule nth_equalityI)
  fix i assume "i < length (map (\<lambda>i. default_bswap64 (load64 (drop (8 * i) (concat (map net64 ws) @ rest)))) [0..<length ws])"
  then have i: "i < length ws" by simp
  then have "concat (map net64 ws) = concat (map net64 (take i ws)) @ net64 (ws ! i) @ concat (map net64 (drop (Suc i) ws))"
    using id_take_nth_drop [OF i] by (metis concat.simps(2) concat_append list.simps(9) map_append)
  with i have "drop (8 * i) (concat (map net64 ws) @ rest) = net64 (ws ! i) @ concat (map net64 (drop (Suc i) ws)) @ rest" by simp
  with i show "map (\<lambda>i. default_bswap64 (load64 (drop (8 * i) (concat (map net64 ws) @ rest)))) [0..<length ws] ! i = ws ! i"
    by (simp add: net64_def load64_mem64 bswap64_bswap64)
qed simp

lemma rlw_pos_mod: "unat (of_nat (n * 8) div 8 :: u32) = n mod 2 ^ 29"
proof -
  have "n * 8 mod 2 ^ 32 div 8 = n mod 2 ^ 29" using mult_mod_left [of n "2 ^ 29" 8] by (simp flip: mult_mod_left)
  then show ?thesis by (simp add: unat_div unat_of_nat del: of_nat_mult)
qed

lemma ewah_read_image:
  assumes "length (buffer self) < 2 ^ 32"
  shows "ewah_read_mmap (ewah_image self @ rest) =
    Inr (self\<lparr>bit_size := bit_size self mod 2 ^ 32, rlw := rlw self mod 2 ^ 29\<rparr>, 12 + 8 * length (buffer self))"
proof -
  have "unat (of_nat (length (buffer self)) :: u32) = length (buffer self)" using assms by (simp add: unat_of_nat)
  moreover have "ewah_image self @ rest = net32 (of_nat (bit_size self)) @ net32 (of_nat (length (buffer self))) @
      concat (map net64 (buffer self)) @ net32 (of_nat (rlw self * 8) div 8) @ rest" by (simp add: ewah_image_def)
  ultimately show ?thesis
    unfolding ewah_read_mmap_def Let_def
    by (cases self) (simp add: get_be32_net32 drop_net load_words rlw_pos_mod unat_of_nat
      del: drop_append of_nat_mult)
qed

lemma ewah_read_truncated:
  assumes "length (buffer self) < 2 ^ 32" "k < length (ewah_image self)"
  shows "\<exists>e. ewah_read_mmap (take k (ewah_image self)) = Inl e"
proof -
  let ?n = "length (buffer self)"
  have n: "unat (of_nat ?n :: u32) = ?n" using assms(1) by (simp add: unat_of_nat)
  define out where "out = take k (ewah_image self)"
  have len: "length out = k" "k < 12 + 8 * ?n" using assms(2) by (simp_all add: out_def length_ewah_image)
  have be: "get_be32 (drop 4 out) 0 = ?n" if "8 \<le> k"
  proof -
    from that obtain j where "k = 8 + j" using le_Suc_ex by blast
    then have "drop 4 out = net32 (of_nat ?n) @ take j (concat (map net64 (buffer self)) @ net32 (of_nat (rlw self * 8) div 8))"
      by (simp add: out_def ewah_image_def del: of_nat_mult)
    then show ?thesis by (simp only: get_be32_net32 n)
  qed
  consider "k < 4" | "4 \<le> k" "k < 8" | "8 \<le> k" "k < 8 + ?n * 8" | "8 + ?n * 8 \<le> k" "k < 12 + ?n * 8" using len(2) by linarith
  then show ?thesis unfolding out_def [symmetric]
    by cases (simp_all add: ewah_read_mmap_def Let_def len(1) be)
qed

text \<open>
  C14: Serialization.  What \<open>ewah_serialize_strbuf\<close> appends is read back by \<open>ewah_read_mmap\<close>, whatever
  follows it, with the number of bytes it takes.  The bit size comes back modulo \<open>2 ^ 32\<close>, as the format has 32
  bits for it; the position of the last marker comes back modulo \<open>2 ^ 29\<close> only, because it is truncated to
  32 bits before the division by the size of a word.  Cut short anywhere, the bytes are rejected.
\<close>

theorem ewah_io_roundtrip:
  assumes "length (buffer self) < 2 ^ 32"
  shows "\<exists>out. fst (ewah_serialize_strbuf self sb) = sb @ out \<and>
    (\<forall>rest. ewah_read_mmap (out @ rest) =
      Inr (self\<lparr>bit_size := bit_size self mod 2 ^ 32, rlw := rlw self mod 2 ^ 29\<rparr>, length out)) \<and>
    (\<forall>k < length out. \<exists>e. ewah_read_mmap (take k out) = Inl e)"
proof (rule exI [of _ "ewah_image self"])
  show "fst (ewah_serialize_strbuf self sb) = sb @ ewah_image self \<and>
    (\<forall>rest. ewah_read_mmap (ewah_image self @ rest) =
      Inr (self\<lparr>bit_size := bit_size self mod 2 ^ 32, rlw := rlw self mod 2 ^ 29\<rparr>, length (ewah_image self))) \<and>
    (\<forall>k < length (ewah_image self). \<exists>e. ewah_read_mmap (take k (ewah_image self)) = Inl e)"
    using ewah_read_image [OF assms] ewah_read_truncated [OF assms] by (simp add: ewah_serialize_strbuf_eq length_ewah_image)
qed

theorem ewah_io_roundtrip_witness:
  "\<exists>out. fst (ewah_serialize_strbuf \<lparr>buffer = [0, 5], bit_size = 64, rlw = 0\<rparr> [7]) = [7] @ out \<and>
    (\<forall>rest. ewah_read_mmap (out @ rest) = Inr (\<lparr>buffer = [0, 5], bit_size = 64, rlw = 0\<rparr>, length out)) \<and>
    (\<forall>k < length out. \<exists>e. ewah_read_mmap (take k out) = Inl e)"
  using ewah_io_roundtrip [of "\<lparr>buffer = [0, 5], bit_size = 64, rlw = 0\<rparr>" "[7]"] by simp

section \<open>The pool of bitmaps\<close>

text \<open>
  The pool keeps up to \<open>BITMAP_POOL_MAX\<close> released bitmaps, cleared, and hands out the last one first.  The
  capacity of a released bitmap is an argument; a bitmap without a buffer of its own has capacity
  zero.
\<close>

definition BITMAP_POOL_MAX :: nat where "BITMAP_POOL_MAX = 16"

definition ewah_pool_new :: "ewah_bitmap list \<Rightarrow> ewah_bitmap \<times> ewah_bitmap list" where
  "ewah_pool_new pool = (if pool \<noteq> [] then (last pool, butlast pool) else (ewah_new, pool))"

definition ewah_pool_free :: "ewah_bitmap list \<Rightarrow> nat \<Rightarrow> ewah_bitmap option \<Rightarrow> ewah_bitmap list" where
  "ewah_pool_free pool alloc_size self =
     (case self of
        None \<Rightarrow> pool
      | Some self \<Rightarrow> if length pool = BITMAP_POOL_MAX \<or> alloc_size = 0 then pool else pool @ [ewah_clear self])"

definition pool_ok :: "ewah_bitmap list \<Rightarrow> bool" where
  "pool_ok pool \<longleftrightarrow> length pool \<le> BITMAP_POOL_MAX \<and> set pool \<subseteq> {ewah_new}"

lemma pool_ok_free: "pool_ok pool \<Longrightarrow> pool_ok (ewah_pool_free pool alloc_size self)"
  by (cases self; cases "the self") (auto simp: pool_ok_def ewah_pool_free_def ewah_clear_def ewah_new_def)

lemma pool_ok_new:
  assumes "pool_ok pool"
  shows "fst (ewah_pool_new pool) = ewah_new" "pool_ok (snd (ewah_pool_new pool))"
  using assms subsetD [OF _ last_in_set [of pool], of "{ewah_new}"] by (auto simp: pool_ok_def ewah_pool_new_def dest: in_set_butlastD)

end
