(* ===== verification/Spec2Isabelle.thy ===== *)
theory Spec2Isabelle
  imports Varint Diff_Delta_Correct Commit_Reach Oid_Array Line_Ranges Hashmap String_List Unpack_Trees Wildmatch Bitmap Ewah_Io
begin

text \<open>
  A verification library for the algorithmic core of Git.

  Git stores objects in packs, where an object may be stored as a \<^emph>\<open>delta\<close> against another one.
  Commits form a graph that is walked in the order of dates and generation numbers, with marks
  in the flag words of commits.  Which objects a commit reaches is kept in compressed bitmaps.
  Paths are merged between the index and trees and matched against patterns.  The development
  covers the self-contained algorithms all this is built on, from the bottom up.

  \<^bold>\<open>Foundations.\<close>
  \<^item> \<open>Git_Prelude\<close>: the types of the model (bytes, unsigned words, buffers), the faults of the C
    code (\<open>die\<close>, \<open>BUG\<close>, undefined behaviour), facts about words, and the interfaces: \<open>codec\<close>
    (a decoder that inverts an encoder and leaves the rest of the input) and \<open>comparison\<close>
    (a three-way comparison function that is a total preorder).
  \<^item> \<open>Stable_Sort\<close>: \<open>git_stable_qsort\<close> of \<open>stable-qsort.c\<close> and the list sort of \<open>mergesort.h\<close>.  Both equal
    insertion sort for every comparison, so both are stable.
  \<^item> \<open>Prio_Queue\<close>: the binary heap of \<open>prio-queue.c\<close> with its insertion counter.  It refines a list in
    which a new element is placed behind all equal ones; the locales \<open>queue_order\<close>,
    \<open>priority_queue\<close> and \<open>bag_queue\<close> are what the walks below rely on.

  \<^bold>\<open>Deltas.\<close>
  \<^item> \<open>Varint\<close>: \<open>decode_varint\<close> and \<open>encode_varint\<close> of \<open>varint.c\<close> on 64-bit \<open>uintmax_t\<close>, with the
    overflow test: the round trip on streams, canonicity, and that the encoding fits the buffer.
  \<^item> \<open>Delta_Format\<close>: \<open>get_delta_hdr_size\<close> of \<open>delta.h\<close>, \<open>patch_delta\<close> of \<open>patch-delta.c\<close> and the emission of
    sizes and copy commands in \<open>diff-delta.c\<close>.  The specification is a list of \<open>delta_op\<close>
    instructions and their replay: \<open>patch_delta\<close> replays emitted instructions, and it accepts arbitrary
    input exactly when that is a list of instructions that stay inside the source and give the announced size.
  \<^item> \<open>Rabin_Window\<close>: the tables and the rolling hash of \<open>diff-delta.c\<close>; \<open>Diff_Delta\<close>:
    \<open>create_delta_index\<close>, \<open>create_delta\<close> and \<open>diff_delta\<close>; \<open>Diff_Delta_Correct\<close>: the index is well formed, the
    rolled hash is the hash of the window, the output buffer is never overrun, the loop ends, and
    the delta rebuilds the target.

  \<^bold>\<open>Commits.\<close>
  \<^item> \<open>Commit_Order\<close>: comparison functions, lists ordered by date and \<open>sort_in_topological_order\<close> of
    \<open>commit.c\<close>: the result is a permutation with children first, for each of the orders.
  \<^item> \<open>Commit_Marks\<close>: \<open>pop_most_recent_commit\<close> and \<open>clear_commit_marks\<close> of \<open>commit.c\<close> and the search
    by commit message, \<open>get_oid_oneline\<close> of \<open>object-name.c\<close>: the search ends, finds a match whenever
    there is one, and leaves no mark behind.
  \<^item> \<open>Merge_Base\<close>: \<open>paint_down_to_common\<close> of \<open>commit-reach.c\<close>, with the ancestor sets \<open>anc\<close>, \<open>panc\<close> and the best
    common ancestors \<open>best\<close> as specification; the locale \<open>paint_queue\<close> has the heap in either order as
    its instances.
  \<^item> \<open>Redundant_Commits\<close> and \<open>Redundant_Gen\<close>: \<open>repo_in_merge_bases_many\<close> and the two ways of removing
    redundant commits, by painting and by one depth-first walk cut off by generation numbers.
  \<^item> \<open>Commit_Reach\<close>: the entry points.  Merge bases are exactly the best common ancestors, octopus
    bases cover the common ancestors of all commits, \<open>reduce_heads\<close> keeps the independent heads.

  \<^bold>\<open>Tables and lists.\<close>
  \<^item> \<open>Hash_Lookup\<close>: \<open>oid_pos\<close> and \<open>bsearch_hash\<close> of \<open>hash-lookup.c\<close> and the object names of \<open>hash.h\<close>;
    \<open>Oid_Array\<close>: \<open>oid-array.c\<close>.  The searches find exactly what is there.
  \<^item> \<open>Hashmap\<close>: \<open>hashmap.c\<close> with growing and shrinking; it refines a finite multimap, and interned strings
    are unique.
  \<^item> \<open>String_List\<close>: \<open>string-list.c\<close>; insertion and removal refine a map, sorting, removal of duplicates and
    splitting have their specification.
  \<^item> \<open>Line_Ranges\<close>: the range sets of \<open>line-log.c\<close>; union, difference and the mapping across a diff are those of
    the sets of lines.

  \<^bold>\<open>Paths and names.\<close>
  \<^item> \<open>Hex\<close>: the character classes of \<open>ctype.c\<close> and \<open>sane-ctype.h\<close> and object names in hexadecimal (\<open>hex.c\<close>,
    \<open>hex-ll.c\<close>).
  \<^item> \<open>Wildmatch\<close>: \<open>wildmatch.c\<close>; the matcher decides the meaning of the pattern although two results cut the
    search short.
  \<^item> \<open>Unpack_Trees\<close>: the merge functions of \<open>unpack-trees.c\<close> for one path with their checks of the
    working tree, the clearing of a directory in the way included; local changes are never lost, and
    the three-way merge follows its table.

  \<^bold>\<open>Bitmaps.\<close>
  \<^item> \<open>Ewah_Words\<close>, \<open>Ewah_Bitmap\<close>, \<open>Ewah_Xor\<close>: marker words, building, iterating and \<open>ewah_xor\<close> of compressed
    bitmaps (\<open>ewah/ewok_rlw.h\<close>, \<open>ewah/ewah_bitmap.c\<close>, \<open>ewah/ewah_rlw.c\<close>); a buffer stands for the list of its
    words, and the operations are those of sets of positions.
  \<^item> \<open>Popcount\<close>, \<open>Bitmap\<close>: bit counts and the uncompressed bitmaps of \<open>ewah/bitmap.c\<close>, with conversions.
  \<^item> \<open>Ewah_Io\<close>: \<open>ewah/ewah_io.c\<close>, writing and reading back with every error.

  \<^bold>\<open>State and faults.\<close>  C structures are records, linked lists and arrays are lists, pointers are indices,
  identifiers or the rest of a list.  Commits are identifiers into a store of parsed commits, and
  the flags of all commits are one function that the walks thread through.  A \<open>die\<close>, a failed
  assertion or \<open>BUG\<close>, and an access out of range are values of \<open>cfault\<close>; the safety claims show that
  they do not occur.  Code outside the sources (\<open>qsort\<close>, regular expressions, the file system) is
  a parameter, with its documented behaviour as a hypothesis where a claim needs it.

  \<^bold>\<open>Bounds and fuel.\<close>  The loop of \<open>create_delta\<close> takes fuel, one unit per iteration, and is given
  the length of the target; every iteration consumes at least one byte of the target, and the
  round trip shows that the result is reached.  The loop of \<open>range_set_difference\<close> takes fuel for each range of
  the first set; one unit more than the second set has ranges is enough, unless a range of the first ends
  where one of the second starts, where the code itself does not end.  The loop of
  \<open>sort_in_topological_order\<close> takes the length of the list, one unit for each commit that leaves the queue, and the
  claims show that it returns.  Loops that end only under a condition (the
  initial size of a hash map, the loops of \<open>ewah_xor\<close>, the walks over commits) are partial functions
  whose value \<open>None\<close> means that the loop does not return; the claims show that they do.  All other loops are total functions
  with a termination proof.  Sizes are natural numbers where the code uses \<open>size_t\<close> or \<open>unsigned long\<close>
  for lengths of buffers in memory; the statements then assume lengths below 2^64 (2^35 for the
  claim on the output buffer, whose constant \<open>MAX_OP_SIZE\<close> reserves five bytes for each size).
  \<open>ewah_xor\<close> is correct below 2^31 words, where its iterator's \<open>int\<close> suffices.  Walks over commits
  assume fewer than 2^60 commits, so that the insertion counter of the queue does not wrap.
  String lists, whose search counts in an \<open>int\<close>, have fewer than \<open>INT_MAX\<close> entries, and bits of a compressed bitmap are
  set at positions below 2^64 - 64, where rounding up to words does not wrap.
  Values that the code truncates (\<open>unsigned int\<close>, bytes) are words or written out with \<open>mod\<close>.
  A few counters that are an \<open>int\<close> in the code are unbounded in the model, which agrees with it below 2^31: the
  in-degrees of \<open>sort_in_topological_order\<close>, the numbers of commits given to \<open>merge_bases_many\<close> and to
  \<open>paint_down_to_common\<close>, the pieces of \<open>string_list_split\<close> and the length of a character class name in a pattern.

  \<^bold>\<open>Not modelled.\<close>  Allocation failure; the object store, the on-disk index, references, the working
  tree, transport and the commands, which are file-system, process and network access; parsing of
  commits, trees, options and configuration; the diff and merge drivers (\<open>xdiff\<close>, \<open>merge-ort.c\<close>) and the output
  code; in \<open>commit-reach.c\<close> \<open>repo_is_descendant_of\<close> and \<open>repo_in_merge_bases\<close>, which with generation numbers call
  \<open>can_all_from_reach\<close>, and the functions from \<open>ref_newer\<close> on, which combine walks with refs, tags and bitmap slabs; in \<open>line-log.c\<close> and \<open>unpack-trees.c\<close> the traversals that drive the modelled functions; the hash
  functions, which are third-party code.
\<close>

end
